(* ===== verification/Prelude.thy ===== *)
theory Prelude
  imports Main "HOL-Library.Word" "HOL-Library.Multiset" "HOL-Library.Monad_Syntax"
begin

text \<open>
  Shared vocabulary of the development: the machine types of the sources, the flat byte
  arrays the buffer pools allocate with \<^verbatim>\<open>new char[]\<close>, and facts on words, lists and
  powers of two that every component uses.

  A failed \<^verbatim>\<open>assert\<close> and a copy, a read of bytes or a store outside an allocation are the value
  \<^term>\<open>None\<close> of an \<open>option\<close> result; the component theorems show that they do not happen. A read of
  one entry of a table (block sizes, slots, channels, an index ring) is \<open>xs ! i\<close> and carries no
  test: the index is masked, or the invariant of the component keeps it in range. The default build
  type is Release, in which \<^verbatim>\<open>assert\<close> is compiled out, so a proof that no assertion fails
  is a proof about both builds.
\<close>

unbundle bit_operations_syntax

section \<open>Machine types\<close>

text \<open>
  \<^verbatim>\<open>unsigned int\<close> and \<^verbatim>\<open>uint64_t\<close> are words. A C++ \<^verbatim>\<open>int\<close> is kept as its 32-bit
  pattern: \<^term>\<open>sint\<close> reads it, and mixing it with an \<^verbatim>\<open>unsigned int\<close> keeps the pattern,
  which is C++'s conversion.
\<close>

type_synonym byte = "8 word"
type_synonym u16 = "16 word"
type_synonym u32 = "32 word"
type_synonym i32 = "32 word"
type_synonym u64 = "64 word"

lemma unat_u32_less: "unat (w :: u32) < 2 ^ 32"
  using unsigned_less [of w, where 'a = nat] by simp

lemma unat_pow2:
  assumes "k < LENGTH('w::len)"
  shows "unat (2 ^ k :: 'w word) = 2 ^ k"
proof -
  have "(2::nat) ^ k < 2 ^ LENGTH('w)" using assms by simp
  moreover have "unat (of_nat (2 ^ k) :: 'w word) = take_bit LENGTH('w) (2 ^ k)"
    by (rule unsigned_of_nat [where 'a = nat, simplified])
  ultimately show ?thesis by (simp add: take_bit_nat_eq_self)
qed

text \<open>An \<^verbatim>\<open>int\<close> capacity and an \<^verbatim>\<open>unsigned\<close> mask in a \<^verbatim>\<open>uint64_t\<close> expression.\<close>

lemma scast_pow2: "k < 31 \<Longrightarrow> scast (2 ^ k :: i32) = (2 ^ k :: u64)"
  by (rule bit_word_eqI) (auto simp: bit_simps)

lemma unat_ucast32 [simp]: "unat (ucast (x :: u32) :: u64) = unat x"
proof -
  have "unat x < 2 ^ 64" using unsigned_less [of x, where 'a = nat] by simp
  then show ?thesis by (simp add: unsigned_ucast_eq take_bit_nat_eq_self)
qed

lemma ucast_up_down [simp]: "(ucast (ucast (x :: u32) :: u64) :: u32) = x"
  by (rule bit_word_eqI) (simp add: bit_simps)

text \<open>A small count narrowed from \<^verbatim>\<open>uint64_t\<close> to \<^verbatim>\<open>int\<close>.\<close>

lemma sint_ucast_count:
  assumes "unat (x :: u64) < 2 ^ 31"
  shows "sint (ucast x :: i32) = int (unat x)"
proof -
  have "uint x < 2 ^ 31" using assms by (simp add: nat_less_iff flip: nat_uint_eq)
  moreover have "- (2 ^ 31) \<le> uint x" by (rule order_trans [OF _ uint_ge_0]) simp
  ultimately have "signed_take_bit 31 (uint x) = uint x"
    by (intro signed_take_bit_int_eq_self)
  then show ?thesis by (simp add: sint_sbintrunc' signed_ucast_eq)
qed

lemma ucast_mask32: "k < 31 \<Longrightarrow> ucast (mask k :: u32) = (mask k :: u64)"
  by (rule bit_word_eqI) (auto simp: bit_simps)

section \<open>Flat memory\<close>

definition seg :: "nat \<Rightarrow> nat \<Rightarrow> 'a list \<Rightarrow> 'a list" where
  "seg off n mem = take n (drop off mem)"

definition blit :: "nat \<Rightarrow> 'a list \<Rightarrow> 'a list \<Rightarrow> 'a list" where
  "blit off xs mem = take off mem @ xs @ drop (off + length xs) mem"

text \<open>
  \<^verbatim>\<open>struct iovec\<close>: \<^term>\<open>None\<close> is the null pointer, \<open>Some a\<close> points at offset \<open>a\<close> of the pool's
  allocation. \<open>gather\<close> is what a vectored send reads through it.
\<close>

record iovec =
  iov_base :: "nat option"
  iov_len :: u64

definition gather :: "'a list \<Rightarrow> iovec \<Rightarrow> 'a list" where
  "gather mem v = (case iov_base v of None \<Rightarrow> [] | Some a \<Rightarrow> seg a (unat (iov_len v)) mem)"

text \<open>\<^verbatim>\<open>std::copy\<close> of \<open>xs\<close> to offset \<open>off\<close> of an allocation; \<^term>\<open>None\<close> outside it.\<close>

definition copy_in :: "nat \<Rightarrow> 'a list \<Rightarrow> 'a list \<Rightarrow> 'a list option" where
  "copy_in off xs mem = (if off + length xs \<le> length mem then Some (blit off xs mem) else None)"

lemma length_blit [simp]: "off + length xs \<le> length mem \<Longrightarrow> length (blit off xs mem) = length mem"
  by (simp add: blit_def)

lemma blit_Nil [simp]: "blit off [] mem = mem"
  by (simp add: blit_def)

lemma length_seg: "off + n \<le> length mem \<Longrightarrow> length (seg off n mem) = n"
  by (simp add: seg_def)

lemma seg_0 [simp]: "seg off 0 mem = []"
  by (simp add: seg_def)

lemma take_seg: "take k (seg off n mem) = seg off (min k n) mem"
  by (simp add: seg_def)

lemma drop_seg: "k \<le> n \<Longrightarrow> drop k (seg off n mem) = seg (off + k) (n - k) mem"
  by (simp add: seg_def drop_take add.commute)

lemma seg_blit_other:
  assumes "off + length xs \<le> length mem" and "a + n \<le> off \<or> off + length xs \<le> a"
  shows "seg a n (blit off xs mem) = seg a n mem"
  using assms by (auto simp: seg_def blit_def min_def drop_take)

lemma seg_blit_extend:
  assumes "a + n + length xs \<le> length mem"
  shows "seg a (n + length xs) (blit (a + n) xs mem) = seg a n mem @ xs"
  using assms by (auto simp: seg_def blit_def drop_take)

lemma block_disjoint:
  fixes i j b :: nat
  assumes "i \<noteq> j" and "x \<le> b" and "y \<le> b"
  shows "i * b + x \<le> j * b \<or> j * b + y \<le> i * b"
proof (cases "i < j")
  case True
  then have "Suc i * b \<le> j * b" by (intro mult_right_mono) auto
  then show ?thesis using assms by simp
next
  case False
  then have "Suc j * b \<le> i * b" using assms by (intro mult_right_mono) auto
  then show ?thesis using assms by simp
qed

lemma block_inside:
  fixes i n b :: nat
  assumes "i < n" and "x \<le> b"
  shows "i * b + x \<le> n * b"
proof -
  have "Suc i * b \<le> n * b" using assms by (intro mult_right_mono) auto
  then show ?thesis using assms by simp
qed

section \<open>Powers of two\<close>

text \<open>The test \<^verbatim>\<open>n > 0 && (n & (n - 1)) == 0\<close> on a C++ \<^verbatim>\<open>int\<close>.\<close>

definition is_power_of_two :: "i32 \<Rightarrow> bool" where
  "is_power_of_two n \<longleftrightarrow> 0 < sint n \<and> n AND (n - 1) = 0"

lemma nat_and_pred_pow2:
  fixes n :: nat
  assumes "0 < n" and "n AND (n - 1) = 0"
  shows "\<exists>k. n = 2 ^ k"
  using assms
proof (induction n rule: less_induct)
  case (less n)
  show ?case
  proof (cases "even n")
    case True
    then obtain m where m: "n = 2 * m" by blast
    with less.prems have "0 < m" by simp
    then have "(2 * m - 1) div 2 = m - 1" by arith
    then have "(2 * m) AND (2 * m - 1) = 2 * (m AND (m - 1))"
      by (subst and_nat_rec) simp
    with less.prems m have "m AND (m - 1) = 0" by simp
    with less.IH [of m] m \<open>0 < m\<close> obtain k where "m = 2 ^ k" by auto
    with m have "n = 2 ^ Suc k" by simp
    then show ?thesis by blast
  next
    case False
    then obtain m where m: "n = Suc (2 * m)" by (metis oddE Suc_eq_plus1)
    have "Suc (2 * m) AND (2 * m) = 2 * (m AND m)"
      by (subst and_nat_rec) simp
    with less.prems m have "m = 0" by simp
    with m have "n = 2 ^ 0" by simp
    then show ?thesis by blast
  qed
qed

lemma unat_nonneg_sint:
  fixes n :: i32
  assumes "0 \<le> sint n"
  shows "int (unat n) = sint n"
proof -
  have "sint n < 2 ^ 32" using sint_lt [of n] by simp
  then have "take_bit 32 (sint n) = sint n"
    using assms by (simp add: take_bit_int_eq_self)
  then show ?thesis using uint_sint [of n] by simp
qed

lemma is_power_of_twoE:
  assumes "is_power_of_two n"
  obtains k where "k < 31" and "n = 2 ^ k" and "unat n = 2 ^ k"
proof -
  from assms have pos: "0 < sint n" and z: "n AND (n - 1) = 0"
    by (auto simp: is_power_of_two_def)
  have lt: "unat n < 2 ^ 31"
  proof -
    have "int (unat n) < int (2 ^ 31)"
      using pos sint_lt [of n] by (subst unat_nonneg_sint) simp_all
    then show ?thesis by (simp only: of_nat_less_iff)
  qed
  have ne: "n \<noteq> 0" using pos by auto
  have "unat n AND (unat n - 1) = 0"
    using z ne by (metis unat_minus_one unsigned_0 unsigned_and_eq)
  with ne obtain k where k: "unat n = 2 ^ k"
    using nat_and_pred_pow2 [of "unat n"] by (auto simp: unat_gt_0)
  then have "(2::nat) ^ k < 2 ^ 31" using lt by simp
  then have "k < 31" by (rule power_less_imp_less_exp [rotated]) simp
  moreover have "n = 2 ^ k"
  proof -
    have "(of_nat (unat n) :: i32) = 2 ^ k" by (subst k) simp
    then show ?thesis by simp
  qed
  ultimately show ?thesis using that k by blast
qed

text \<open>A non-negative \<^verbatim>\<open>int\<close> widened to \<^verbatim>\<open>uint64_t\<close>.\<close>

lemma scast_nonneg: "0 \<le> sint (x :: i32) \<Longrightarrow> unat (scast x :: u64) = unat x"
proof -
  assume "0 \<le> sint x"
  then have "sint x = int (unat x)" by (rule unat_nonneg_sint [symmetric])
  then have "(scast x :: u64) = of_nat (unat x)"
    by (simp only: scast_eq of_int_of_nat_eq)
  moreover have "unat x < 2 ^ 64" using unat_u32_less [of x] by simp
  ultimately show ?thesis by (simp add: unat_of_nat take_bit_nat_eq_self)
qed

lemma sint_of_nat_small:
  assumes "n < 2 ^ 31"
  shows "sint (of_nat n :: i32) = int n"
proof -
  have "signed_take_bit 31 (int n) = int n"
    using assms by (intro signed_take_bit_int_eq_self) simp_all
  then show ?thesis by (simp add: signed_of_nat)
qed

lemma unat_scast_of_nat:
  assumes "n < 2 ^ 31"
  shows "unat (scast (of_nat n :: i32) :: u64) = n"
proof -
  have n: "unat (of_nat n :: i32) = n" using assms by (simp add: unat_of_nat take_bit_nat_eq_self)
  have "0 \<le> sint (of_nat n :: i32)" using sint_of_nat_small [OF assms] by simp
  then show ?thesis using n by (simp add: scast_nonneg)
qed

end
