(* ===== verification/Ring_Array.thy ===== *)
theory Ring_Array
  imports Prelude
begin

text \<open>
  The circular arrays of the sources. A power-of-two array \<open>q\<close> is addressed by free-running
  unsigned counters: \<^verbatim>\<open>q[head_++ & mask_]\<close> takes, \<^verbatim>\<open>q[tail_++ & mask_] = x\<close> puts, and
  \<^verbatim>\<open>tail_ - head_\<close> is the number of elements, across the wrap-around of the counters.
  \<open>ring_list\<close> is the abstraction to a list; the lemmas say that taking, putting and
  un-taking at either end act on that list, for counters of any width. Every pool and queue of
  the program (\<^verbatim>\<open>BufPool\<close>, \<^verbatim>\<open>MsghdrPool\<close>, \<^verbatim>\<open>ReadBufBase\<close>, \<^verbatim>\<open>WriteBufBase\<close>, \<^verbatim>\<open>WriteBufDgram\<close>,
  \<^verbatim>\<open>TcpChannelPool\<close>) uses them.
\<close>

section \<open>Slots, contents, well-formedness\<close>

text \<open>The array index of counter \<open>c\<close> under mask \<open>m\<close>: \<^verbatim>\<open>c & m\<close>.\<close>

definition ring_slot :: "'w::len word \<Rightarrow> 'w word \<Rightarrow> nat" where
  "ring_slot m c = unat (c AND m)"

definition ring_list :: "'a list \<Rightarrow> 'w::len word \<Rightarrow> 'w word \<Rightarrow> 'w word \<Rightarrow> 'a list" where
  "ring_list q m h t = map (\<lambda>i. q ! ring_slot m (h + of_nat i)) [0..<unat (t - h)]"

definition ring_ok :: "'a list \<Rightarrow> 'w::len word \<Rightarrow> 'w word \<Rightarrow> 'w word \<Rightarrow> bool" where
  "ring_ok q m h t \<longleftrightarrow>
     (\<exists>k < LENGTH('w). m = mask k \<and> length q = 2 ^ k \<and> unat (t - h) \<le> 2 ^ k)"

lemma ring_ok_update: "ring_ok (q[j := x]) m h t \<longleftrightarrow> ring_ok q m h t"
  by (simp add: ring_ok_def)

section \<open>Distinct slots for live elements\<close>

lemma ring_slot_mask: "ring_slot (mask k) c = unat c mod 2 ^ k"
proof -
  have "ring_slot (mask k) c = take_bit k (unat c)"
    by (simp add: ring_slot_def unsigned_take_bit_eq flip: take_bit_eq_mask)
  then show ?thesis by (simp add: take_bit_eq_mod)
qed

lemma ring_slot_less: "ring_ok q m h t \<Longrightarrow> ring_slot m c < length q"
  by (auto simp: ring_ok_def ring_slot_mask)

lemma unat_add_of_nat_mod:
  fixes h :: "'w::len word"
  assumes "k < LENGTH('w)"
  shows "unat (h + of_nat i) mod 2 ^ k = (unat h + i) mod 2 ^ k"
proof -
  have d: "(2::nat) ^ k dvd 2 ^ LENGTH('w)"
    using assms by (simp add: le_imp_power_dvd)
  have "unat (h + of_nat i) = (unat h + i) mod 2 ^ LENGTH('w)"
    by (simp add: unat_word_ariths unat_of_nat take_bit_eq_mod mod_simps)
  then show ?thesis
    by (simp add: mod_mod_cancel [OF d])
qed

lemma mod_add_inj:
  fixes a :: nat
  assumes "i < n" and "j < n" and "(a + i) mod n = (a + j) mod n"
  shows "i = j"
proof -
  have aux: "x = y" if "x \<le> y" "y < n" "(a + x) mod n = (a + y) mod n" for x y
  proof -
    have "n dvd (a + y) - (a + x)"
      using that by (intro mod_eq_dvd_iff_nat [THEN iffD1]) auto
    then have "n dvd y - x" by simp
    moreover have "y - x < n" using that by simp
    ultimately have "y - x = 0" by (metis dvd_imp_le gr0I not_le)
    then show ?thesis using that by simp
  qed
  show ?thesis
    using aux [of i j] aux [of j i] assms by (cases "i \<le> j") auto
qed

lemma ring_slot_inj:
  assumes "ring_ok q m h t" and "i < length q" and "j < length q"
    and "ring_slot m (c + of_nat i) = ring_slot m (c + of_nat j)"
  shows "i = j"
  using assms by (auto simp: ring_ok_def ring_slot_mask unat_add_of_nat_mod dest: mod_add_inj)

section \<open>Taking and putting at both ends\<close>

lemma length_ring_list [simp]: "length (ring_list q m h t) = unat (t - h)"
  by (simp add: ring_list_def)

lemma ring_list_nth:
  "i < unat (t - h) \<Longrightarrow> ring_list q m h t ! i = q ! ring_slot m (h + of_nat i)"
  by (simp add: ring_list_def)

lemma ring_list_Nil_iff: "ring_list q m h t = [] \<longleftrightarrow> h = t"
  by (auto simp: ring_list_def unat_eq_zero)

lemma unat_word_diff_Suc:
  fixes h t :: "'w::len word"
  assumes "h \<noteq> t"
  shows "unat (t - h) = Suc (unat (t - (h + 1)))"
    and "unat (t - h) = Suc (unat (t - 1 - h))"
proof -
  have "t - h \<noteq> 0" using assms by simp
  then have "unat (t - h) = Suc (unat (t - h - 1))"
    by (simp add: unat_minus_one Suc_pred unat_gt_0)
  then show "unat (t - h) = Suc (unat (t - (h + 1)))"
    and "unat (t - h) = Suc (unat (t - 1 - h))"
    by (simp_all add: algebra_simps)
qed

lemma unat_word_diff_inc:
  fixes h t :: "'w::len word"
  assumes "k < LENGTH('w)" and "unat (t - h) < 2 ^ k"
  shows "unat (t + 1 - h) = Suc (unat (t - h))"
    and "unat (t - (h - 1)) = Suc (unat (t - h))"
proof -
  have "(2::nat) ^ k < 2 ^ LENGTH('w)" using assms by simp
  then have lt: "Suc (unat (t - h)) < 2 ^ LENGTH('w)" using assms by linarith
  have "unat (t - h + 1) = Suc (unat (t - h))"
    using lt by (simp add: unat_word_ariths)
  then show "unat (t + 1 - h) = Suc (unat (t - h))"
    and "unat (t - (h - 1)) = Suc (unat (t - h))"
    by (simp_all add: algebra_simps)
qed

lemma ring_list_pop:
  assumes "h \<noteq> t"
  shows "ring_list q m h t = q ! ring_slot m h # ring_list q m (h + 1) t"
  using assms
  by (simp add: ring_list_def unat_word_diff_Suc(1) upt_conv_Cons map_Suc_upt [symmetric]
      algebra_simps del: upt_Suc)

lemma ring_list_pop_back:
  assumes "h \<noteq> t"
  shows "ring_list q m h t = ring_list q m h (t - 1) @ [q ! ring_slot m (t - 1)]"
proof -
  have "h + of_nat (unat (t - 1 - h)) = t - 1"
    by simp
  then show ?thesis
    using assms by (simp add: ring_list_def unat_word_diff_Suc(2))
qed

lemma ring_slot_fresh:
  assumes ok: "ring_ok q m h t" and "i < unat (t - h)" and "unat (t - h) < length q"
  shows "ring_slot m (h + of_nat i) \<noteq> ring_slot m t"
    and "ring_slot m (h + of_nat i) \<noteq> ring_slot m (h - 1)"
proof -
  have t: "t = h + of_nat (unat (t - h))" by simp
  show "ring_slot m (h + of_nat i) \<noteq> ring_slot m t"
    using ring_slot_inj [OF ok, of i "unat (t - h)" h] assms t by auto
  have "h + of_nat i = (h - 1) + of_nat (Suc i)" by (simp add: algebra_simps)
  then show "ring_slot m (h + of_nat i) \<noteq> ring_slot m (h - 1)"
    using ring_slot_inj [OF ok, of "Suc i" 0 "h - 1"] assms by fastforce
qed

lemma ring_list_frame:
  assumes "ring_ok q m h t" and "unat (t - h) < length q"
  shows "ring_list (q[ring_slot m t := x]) m h t = ring_list q m h t"
    and "ring_list (q[ring_slot m (h - 1) := x]) m h t = ring_list q m h t"
  using ring_slot_fresh [OF assms(1) _ assms(2), THEN not_sym]
  by (auto simp: ring_list_def)

lemma ring_ok_push:
  assumes "ring_ok q m h t" and "unat (t - h) < length q"
  shows "ring_ok (q[j := x]) m h (t + 1)" and "ring_ok (q[j := x]) m (h - 1) t"
  using assms by (auto simp: ring_ok_def unat_word_diff_inc)

lemma ring_ok_pop:
  assumes "ring_ok q m h t" and "h \<noteq> t"
  shows "ring_ok q m (h + 1) t" and "ring_ok q m h (t - 1)"
  using assms unat_word_diff_Suc [OF assms(2)] by (auto simp: ring_ok_def)

lemma ring_list_push:
  assumes ok: "ring_ok q m h t" and lt: "unat (t - h) < length q"
  shows "ring_list (q[ring_slot m t := x]) m h (t + 1) = ring_list q m h t @ [x]"
proof -
  from ok lt have "unat (t + 1 - h) = Suc (unat (t - h))"
    by (auto simp: ring_ok_def intro: unat_word_diff_inc(1))
  then have ne: "h \<noteq> t + 1" by auto
  then show ?thesis
    using ring_list_pop_back [OF ne, of "q[ring_slot m t := x]" m]
      ring_list_frame(1) [OF ok lt] ring_slot_less [OF ok] by simp
qed

lemma ring_list_push_front:
  assumes ok: "ring_ok q m h t" and lt: "unat (t - h) < length q"
  shows "ring_list (q[ring_slot m (h - 1) := x]) m (h - 1) t = x # ring_list q m h t"
proof -
  from ok lt have "unat (t - (h - 1)) = Suc (unat (t - h))"
    by (auto simp: ring_ok_def intro: unat_word_diff_inc(2))
  then have ne: "h - 1 \<noteq> t" by auto
  then show ?thesis
    using ring_list_pop [OF ne, of "q[ring_slot m (h - 1) := x]" m]
      ring_list_frame(2) [OF ok lt] ring_slot_less [OF ok] by simp
qed

section \<open>Prefixes, suffixes and whole ranges\<close>

lemma unat_of_nat_le:
  fixes w :: "'w::len word"
  assumes "n \<le> unat w"
  shows "unat (of_nat n :: 'w word) = n"
proof -
  have "n < 2 ^ LENGTH('w)"
    using assms unsigned_less [of w, where 'a = nat] by (rule le_less_trans)
  then show ?thesis by (simp add: unat_of_nat)
qed

lemma ring_list_take:
  assumes "n \<le> unat (t - h)"
  shows "ring_list q m h (h + of_nat n) = take n (ring_list q m h t)"
  using assms by (simp add: ring_list_def take_map unat_of_nat_le)

lemma ring_list_drop:
  assumes "n \<le> unat (t - h)"
  shows "ring_list q m (h + of_nat n) t = drop n (ring_list q m h t)"
proof -
  have "unat (t - (h + of_nat n)) = unat (t - h) - n"
    using unat_sub [of "of_nat n" "t - h"] assms
    by (simp add: word_le_nat_alt unat_of_nat_le diff_diff_eq algebra_simps)
  then show ?thesis
    using assms by (simp add: ring_list_def drop_map list_eq_iff_nth_eq add.assoc)
qed

lemma ring_ok_take:
  assumes "ring_ok q m h t" and "n \<le> unat (t - h)"
  shows "ring_ok q m h (h + of_nat n)"
  using assms by (auto simp: ring_ok_def unat_of_nat_le)

lemma ring_ok_empty: "ring_ok q m h t \<Longrightarrow> ring_ok q m c c"
  by (auto simp: ring_ok_def)

lemma ring_count: "ring_ok q m h t \<Longrightarrow> unat (t - h) \<le> length q"
  by (auto simp: ring_ok_def)

text \<open>Filling a gap before the live elements, as \<^verbatim>\<open>prepend\<close> does.\<close>

lemma ring_list_split:
  "n \<le> unat (t - h) \<Longrightarrow> ring_list q m h t = ring_list q m h (h + of_nat n) @ ring_list q m (h + of_nat n) t"
  by (simp add: ring_list_take ring_list_drop)

lemma ring_list_fill:
  assumes ok: "ring_ok q m h t" and n: "n < unat (t - h)"
  shows "ring_list (q[ring_slot m (h + of_nat n) := x]) m h (h + of_nat (Suc n))
           = ring_list q m h (h + of_nat n) @ [x]"
proof -
  have "unat (h + of_nat n - h) < length q"
    using n ring_count [OF ok] unat_of_nat_le [OF less_imp_le [OF n]] by simp
  from ring_list_push [OF ring_ok_take [OF ok less_imp_le [OF n]] this, of x]
  show ?thesis by (simp add: algebra_simps)
qed

lemma ring_list_fill_other:
  assumes ok: "ring_ok q m h t" and n: "n < b" "b \<le> unat (t - h)"
  shows "ring_list (q[ring_slot m (h + of_nat n) := x]) m (h + of_nat b) t = ring_list q m (h + of_nat b) t"
proof -
  let ?q = "q[ring_slot m (h + of_nat n) := x]"
  have "ring_slot m (h + of_nat n) \<noteq> ring_slot m (h + of_nat j)" if "b \<le> j" "j < unat (t - h)" for j
    using ring_slot_inj [OF ok, of j n h] ring_count [OF ok] n that by auto
  then have "ring_list ?q m h t ! j = ring_list q m h t ! j" if "b \<le> j" "j < unat (t - h)" for j
    using that by (simp add: ring_list_nth)
  then have "drop b (ring_list ?q m h t) = drop b (ring_list q m h t)"
    by (intro nth_equalityI) simp_all
  then show ?thesis using n(2) by (simp only: ring_list_drop)
qed

end
