(* ===== verification/Pool_Interface.thy ===== *)
theory Pool_Interface
  imports Prelude
begin

text \<open>
  The contract of a free-list pool: \<^verbatim>\<open>BufPool\<close> hands out block indices, \<^verbatim>\<open>MsghdrPool\<close> hands out
  message slots. A pool owns a fixed set of handles; \<open>free\<close> lists the ones it can hand out.
  The client lemmas say what any sequence of acquisitions and releases keeps: every handle is
  free or held, by one holder.
\<close>

primrec release_all :: "('a \<Rightarrow> 's \<Rightarrow> 's option) \<Rightarrow> 'a list \<Rightarrow> 's \<Rightarrow> 's option" where
  "release_all rel [] s = Some s"
| "release_all rel (x # xs) s = do { s' \<leftarrow> rel x s; release_all rel xs s' }"

lemma release_all_append:
  "release_all rel (xs @ ys) s = do { s' \<leftarrow> release_all rel xs s; release_all rel ys s' }"
  by (induction xs arbitrary: s) (auto split: bind_splits)

text \<open>
  The runs of a pool together with the handles its clients hold. A client only releases what it
  holds.
\<close>

inductive pool_run ::
  "('s \<Rightarrow> 'a option \<times> 's) \<Rightarrow> ('a \<Rightarrow> 's \<Rightarrow> 's option) \<Rightarrow> 's \<Rightarrow> 's \<Rightarrow> 'a list \<Rightarrow> bool"
  for acq rel s0 where
  pool_start: "pool_run acq rel s0 s0 []"
| pool_acquire: "pool_run acq rel s0 s held \<Longrightarrow> acq s = (Some x, s') \<Longrightarrow>
    pool_run acq rel s0 s' (x # held)"
| pool_release: "pool_run acq rel s0 s held \<Longrightarrow> x \<in> set held \<Longrightarrow> rel x s = Some s' \<Longrightarrow>
    pool_run acq rel s0 s' (remove1 x held)"

locale free_pool =
  fixes acq :: "'s \<Rightarrow> 'a option \<times> 's"
    and rel :: "'a \<Rightarrow> 's \<Rightarrow> 's option"
    and free :: "'s \<Rightarrow> 'a list"
    and handles :: "'s \<Rightarrow> 'a set"
    and invar :: "'s \<Rightarrow> bool"
  assumes free_handles: "invar s \<Longrightarrow> set (free s) \<subseteq> handles s"
    and free_distinct: "invar s \<Longrightarrow> distinct (free s)"
    and acq_empty: "invar s \<Longrightarrow> free s = [] \<Longrightarrow> acq s = (None, s)"
    and acq_first: "invar s \<Longrightarrow> free s = x # xs \<Longrightarrow>
      \<exists>s'. acq s = (Some x, s') \<and> invar s' \<and> free s' = xs \<and> handles s' = handles s"
    and rel_last: "invar s \<Longrightarrow> x \<in> handles s \<Longrightarrow> x \<notin> set (free s) \<Longrightarrow>
      \<exists>s'. rel x s = Some s' \<and> invar s' \<and> free s' = free s @ [x] \<and> handles s' = handles s"
    and rel_full: "invar s \<Longrightarrow> set (free s) = handles s \<Longrightarrow> rel x s = None"
begin

lemma acq_SomeD:
  assumes "invar s" and "acq s = (Some x, s')"
  shows "free s = x # free s'" and "invar s'" and "handles s' = handles s"
proof -
  obtain y ys where "free s = y # ys"
    using assms acq_empty by (cases "free s") auto
  then show "free s = x # free s'" and "invar s'" and "handles s' = handles s"
    using acq_first [OF assms(1)] assms(2) by auto
qed

lemma rel_SomeD:
  assumes "invar s" and "x \<in> handles s" and "x \<notin> set (free s)" and "rel x s = Some s'"
  shows "free s' = free s @ [x]" and "invar s'" and "handles s' = handles s"
  using rel_last [OF assms(1-3)] assms(4) by auto

lemma release_all_ok:
  assumes "invar s" and "distinct xs" and "set xs \<subseteq> handles s" and "set xs \<inter> set (free s) = {}"
  shows "\<exists>s'. release_all rel xs s = Some s' \<and> invar s' \<and> free s' = free s @ xs \<and>
           handles s' = handles s"
  using assms
proof (induction xs arbitrary: s)
  case Nil
  then show ?case by simp
next
  case (Cons x xs)
  then obtain s1 where s1: "rel x s = Some s1" "invar s1" "free s1 = free s @ [x]"
      "handles s1 = handles s"
    using rel_last [of s x] by auto
  with Cons.prems Cons.IH [of s1] show ?case by auto
qed

text \<open>Conservation and exclusive ownership over every run.\<close>

lemma pool_run_inv:
  assumes "pool_run acq rel s0 s held" and "invar s0" and "set (free s0) = handles s0"
  shows "invar s \<and> handles s = handles s0 \<and> distinct (held @ free s) \<and>
         set (held @ free s) = handles s0"
  using assms
proof (induction rule: pool_run.induct)
  case pool_start
  then show ?case by (simp add: free_distinct)
next
  case (pool_acquire s held x s')
  then have inv: "invar s" by simp
  show ?case
    using pool_acquire acq_SomeD [OF inv pool_acquire.hyps(2)] by auto
next
  case (pool_release s held x s')
  then have inv: "invar s" and xs: "x \<in> handles s" "x \<notin> set (free s)" by auto
  show ?case
    using pool_release rel_SomeD [OF inv xs pool_release.hyps(3)] by auto
qed

lemma pool_run_release_ok:
  assumes "pool_run acq rel s0 s held" and "invar s0" and "set (free s0) = handles s0"
    and "x \<in> set held"
  shows "\<exists>s'. rel x s = Some s'"
  using pool_run_inv [OF assms(1-3)] rel_last [of s x] assms(4) by auto

lemma pool_run_acquire_iff:
  assumes "pool_run acq rel s0 s held" and "invar s0" and "set (free s0) = handles s0"
  shows "fst (acq s) = None \<longleftrightarrow> set held = handles s0"
proof (cases "free s")
  case Nil
  then show ?thesis using pool_run_inv [OF assms] acq_empty [of s] by auto
next
  case (Cons x xs)
  then show ?thesis using pool_run_inv [OF assms] acq_first [of s x xs] by auto
qed

end

end
