(* ===== verification/Buf_Pool.thy ===== *)
theory Buf_Pool
  imports Ring_Array Pool_Interface
begin

text \<open>
  \<^verbatim>\<open>BufPool\<close> (\<^verbatim>\<open>include/buffer/buf_pool.hpp\<close>, \<^verbatim>\<open>src/buffer/buf_pool.cpp\<close>): the per-worker pool of
  fixed-size write blocks. The blocks lie in one allocation \<open>bp_bufs\<close>; an address is an offset
  into it. \<open>bp_queue\<close> is the ring of free block indices.
\<close>

section \<open>State and operations\<close>

record buf_pool =
  bp_num :: i32
  bp_mask :: i32
  bp_bsize :: i32
  bp_bufs :: "byte list"
  bp_dsize :: "u32 list"
  bp_queue :: "u32 list"
  bp_head :: u32
  bp_tail :: u32

definition invalid_idx :: u32 where
  "invalid_idx = NOT 0"

text \<open>\<^verbatim>\<open>(buf - bufs_) / buf_size_\<close> and \<^verbatim>\<open>bufs_ + idx * buf_size_\<close>; the product is an unsigned 32-bit one.\<close>

definition bp_buf_index :: "buf_pool \<Rightarrow> nat \<Rightarrow> u32" where
  "bp_buf_index p buf = of_nat (buf div unat (bp_bsize p))"

definition bp_buf_addr :: "buf_pool \<Rightarrow> u32 \<Rightarrow> nat" where
  "bp_buf_addr p idx = unat (idx * bp_bsize p)"

definition bp_data_size :: "buf_pool \<Rightarrow> u32 \<Rightarrow> u32" where
  "bp_data_size p idx = bp_dsize p ! unat idx"

definition bp_set_data_size :: "u32 \<Rightarrow> u32 \<Rightarrow> buf_pool \<Rightarrow> buf_pool" where
  "bp_set_data_size idx sz p = p\<lparr>bp_dsize := (bp_dsize p)[unat idx := sz]\<rparr>"

definition bp_acquire :: "buf_pool \<Rightarrow> u32 \<times> buf_pool" where
  "bp_acquire p =
     (if bp_head p = bp_tail p then (invalid_idx, p)
      else (bp_queue p ! ring_slot (bp_mask p) (bp_head p), p\<lparr>bp_head := bp_head p + 1\<rparr>))"

text \<open>
  \<^verbatim>\<open>release\<close> asserts that the free queue is not full; \<^term>\<open>None\<close> is the failed assertion, or an index that is none of
  \<^verbatim>\<open>data_size_\<close>.
\<close>

definition bp_release :: "u32 \<Rightarrow> buf_pool \<Rightarrow> buf_pool option" where
  "bp_release idx p =
     (if bp_tail p - bp_head p < bp_num p \<and> unat idx < length (bp_dsize p)
      then Some (p\<lparr>bp_queue := (bp_queue p)[ring_slot (bp_mask p) (bp_tail p) := idx],
                   bp_tail := bp_tail p + 1,
                   bp_dsize := (bp_dsize p)[unat idx := 0]\<rparr>)
      else None)"

definition bp_release_ptr :: "nat \<Rightarrow> buf_pool \<Rightarrow> buf_pool option" where
  "bp_release_ptr buf p = bp_release (bp_buf_index p buf) p"

text \<open>
  The constructor. The two arrays come uninitialised from \<^verbatim>\<open>new[]\<close>, so their contents are
  arguments; the loop releases every index once.
\<close>

definition buf_pool_new :: "byte list \<Rightarrow> u32 list \<Rightarrow> i32 \<Rightarrow> i32 \<Rightarrow> buf_pool option" where
  "buf_pool_new bufs queue buf_num buf_size =
     (if is_power_of_two buf_num
      then release_all bp_release (map of_nat [0..<unat buf_num])
             \<lparr>bp_num = buf_num, bp_mask = buf_num - 1, bp_bsize = buf_size,
              bp_bufs = bufs, bp_dsize = replicate (unat buf_num) 0, bp_queue = queue,
              bp_head = 0, bp_tail = 0\<rparr>
      else None)"

text \<open>The \<^verbatim>\<open>std::copy\<close> of the write buffers to \<^verbatim>\<open>buf_addr(idx) + off\<close>.\<close>

definition bp_write :: "u32 \<Rightarrow> nat \<Rightarrow> byte list \<Rightarrow> buf_pool \<Rightarrow> buf_pool option" where
  "bp_write idx off data p =
     map_option (\<lambda>b. p\<lparr>bp_bufs := b\<rparr>) (copy_in (bp_buf_addr p idx + off) data (bp_bufs p))"

section \<open>Abstraction and invariant\<close>

text \<open>The free indices in hand-out order, the set of all blocks, and the bytes held by a block.\<close>

definition bp_free :: "buf_pool \<Rightarrow> u32 list" where
  "bp_free p = ring_list (bp_queue p) (bp_mask p) (bp_head p) (bp_tail p)"

definition bp_blocks :: "buf_pool \<Rightarrow> u32 set" where
  "bp_blocks p = {i. i < bp_num p}"

text \<open>
  \<open>bp_shape\<close>: sizes and ring are consistent, and the allocation is smaller than \<^verbatim>\<open>INT_MAX\<close>, which
  the \<^verbatim>\<open>int\<close> product \<^verbatim>\<open>buf_num * buf_size_\<close> of the constructor needs. \<open>bp_inv\<close>: no block is listed
  free twice, free blocks are empty, no block holds more than its size.
\<close>

definition bp_shape :: "buf_pool \<Rightarrow> bool" where
  "bp_shape p \<longleftrightarrow>
     (\<exists>k < 31. bp_num p = 2 ^ k \<and> bp_mask p = mask k \<and> unat (bp_num p) = 2 ^ k) \<and>
     ring_ok (bp_queue p) (bp_mask p) (bp_head p) (bp_tail p) \<and>
     length (bp_queue p) = unat (bp_num p) \<and>
     length (bp_dsize p) = unat (bp_num p) \<and>
     length (bp_bufs p) = unat (bp_num p) * unat (bp_bsize p) \<and>
     0 < unat (bp_bsize p) \<and> unat (bp_num p) * unat (bp_bsize p) < 2 ^ 31"

definition bp_inv :: "buf_pool \<Rightarrow> bool" where
  "bp_inv p \<longleftrightarrow> bp_shape p \<and> distinct (bp_free p) \<and> set (bp_free p) \<subseteq> bp_blocks p \<and>
     (\<forall>i \<in> set (bp_free p). bp_data_size p i = 0) \<and>
     (\<forall>i \<in> bp_blocks p. unat (bp_data_size p i) \<le> unat (bp_bsize p))"

definition bp_block :: "buf_pool \<Rightarrow> u32 \<Rightarrow> byte list" where
  "bp_block p i = seg (bp_buf_addr p i) (unat (bp_data_size p i)) (bp_bufs p)"

section \<open>Addresses\<close>

lemma bp_buf_addr_unat:
  assumes "bp_shape p" and "i \<in> bp_blocks p"
  shows "bp_buf_addr p i = unat i * unat (bp_bsize p)"
proof -
  have "unat i < unat (bp_num p)"
    using assms by (simp add: bp_blocks_def word_less_nat_alt)
  then have "unat i * unat (bp_bsize p) + 0 \<le> unat (bp_num p) * unat (bp_bsize p)"
    by (rule block_inside) simp
  also have "\<dots> < 2 ^ 31" using assms by (simp add: bp_shape_def)
  finally have "unat i * unat (bp_bsize p) < 2 ^ 32" by simp
  then show ?thesis by (simp add: bp_buf_addr_def unat_word_ariths)
qed

lemma bp_buf_index_addr:
  assumes "bp_shape p" and "i \<in> bp_blocks p"
  shows "bp_buf_index p (bp_buf_addr p i) = i"
  using assms by (simp add: bp_buf_addr_unat bp_buf_index_def bp_shape_def)

section \<open>Acquire and release on the ring\<close>

lemma bp_acquire_shape: "bp_shape p \<Longrightarrow> bp_shape (snd (bp_acquire p))"
  by (auto simp: bp_acquire_def bp_shape_def intro: ring_ok_pop)

lemma bp_acquire_free:
  assumes "bp_free p = x # xs"
  shows "bp_acquire p = (x, p\<lparr>bp_head := bp_head p + 1\<rparr>)"
    and "bp_free (p\<lparr>bp_head := bp_head p + 1\<rparr>) = xs"
proof -
  have ne: "bp_head p \<noteq> bp_tail p"
    using assms ring_list_Nil_iff [of "bp_queue p" "bp_mask p"] by (metis bp_free_def list.distinct(1))
  with ring_list_pop [OF ne, of "bp_queue p" "bp_mask p"] assms
  show "bp_acquire p = (x, p\<lparr>bp_head := bp_head p + 1\<rparr>)"
    and "bp_free (p\<lparr>bp_head := bp_head p + 1\<rparr>) = xs"
    by (simp_all add: bp_acquire_def bp_free_def)
qed

lemma bp_acquire_empty: "bp_free p = [] \<longleftrightarrow> bp_head p = bp_tail p"
  by (simp add: bp_free_def ring_list_Nil_iff)

lemma bp_free_count: "length (bp_free p) = unat (bp_tail p - bp_head p)"
  by (simp add: bp_free_def)

lemma bp_blocks_upt: "bp_blocks p = set (map of_nat [0..<unat (bp_num p)])"
proof (intro set_eqI iffI)
  fix i assume "i \<in> bp_blocks p"
  then have "unat i \<in> {0..<unat (bp_num p)}"
    by (simp add: bp_blocks_def word_less_nat_alt)
  then show "i \<in> set (map of_nat [0..<unat (bp_num p)])"
    by (simp only: set_map set_upt) (rule rev_image_eqI, assumption, simp)
next
  fix i :: u32 assume "i \<in> set (map of_nat [0..<unat (bp_num p)])"
  then show "i \<in> bp_blocks p"
    using unat_u32_less [of "bp_num p"]
    by (auto simp: bp_blocks_def word_less_nat_alt unat_of_nat take_bit_eq_mod)
qed

lemma distinct_u32_upt: "distinct (map of_nat [0..<unat (n :: u32)] :: u32 list)"
  using unat_u32_less [of n]
  by (auto simp: distinct_map inj_on_def word_unat_eq_iff unat_of_nat take_bit_eq_mod)

lemma card_bp_blocks: "card (bp_blocks p) = unat (bp_num p)"
  using distinct_card [OF distinct_u32_upt [of "bp_num p"]] by (simp add: bp_blocks_upt)

lemma bp_release_room:
  assumes "bp_inv p" and "i \<in> bp_blocks p" and "i \<notin> set (bp_free p)"
  shows "bp_tail p - bp_head p < bp_num p"
proof -
  have "card (set (bp_free p)) < card (bp_blocks p)"
    using assms card_bp_blocks [of p]
    by (intro psubset_card_mono) (auto simp: bp_inv_def card_ge_0_finite)
  then show ?thesis
    using assms by (simp add: card_bp_blocks bp_inv_def distinct_card bp_free_count word_less_nat_alt)
qed

lemma bp_release_effect:
  assumes "bp_shape p" and "bp_tail p - bp_head p < bp_num p" and "i \<in> bp_blocks p"
  shows "\<exists>p'. bp_release i p = Some p' \<and> bp_shape p' \<and> bp_free p' = bp_free p @ [i]"
  using assms
  by (auto simp: bp_release_def bp_shape_def bp_free_def bp_blocks_def ring_list_push word_less_nat_alt
      intro: ring_ok_push)


section \<open>Frames: which blocks an operation leaves alone\<close>

definition bp_frame :: "u32 set \<Rightarrow> buf_pool \<Rightarrow> buf_pool \<Rightarrow> bool" where
  "bp_frame S p p' \<longleftrightarrow> bp_num p' = bp_num p \<and> bp_bsize p' = bp_bsize p \<and>
     (\<forall>j \<in> bp_blocks p - S. bp_data_size p' j = bp_data_size p j \<and> bp_block p' j = bp_block p j)"

lemma bp_frame_refl [simp]: "bp_frame S p p"
  by (simp add: bp_frame_def)

lemma bp_frame_trans: "bp_frame S p p' \<Longrightarrow> bp_frame T p' p'' \<Longrightarrow> bp_frame (S \<union> T) p p''"
  by (auto simp: bp_frame_def bp_blocks_def)

lemma bp_frame_mono: "bp_frame S p p' \<Longrightarrow> S \<subseteq> T \<Longrightarrow> bp_frame T p p'"
  by (auto simp: bp_frame_def)

lemma bp_frame_blocks: "bp_frame S p p' \<Longrightarrow> bp_blocks p' = bp_blocks p"
  by (simp add: bp_frame_def bp_blocks_def)

lemma bp_frame_block:
  "bp_frame S p p' \<Longrightarrow> j \<in> bp_blocks p \<Longrightarrow> j \<notin> S \<Longrightarrow> bp_block p' j = bp_block p j"
  "bp_frame S p p' \<Longrightarrow> j \<in> bp_blocks p \<Longrightarrow> j \<notin> S \<Longrightarrow> bp_data_size p' j = bp_data_size p j"
  by (simp_all add: bp_frame_def)

lemma bp_blocks_nth:
  assumes "bp_shape p" and "i \<in> bp_blocks p"
  shows "unat i < length (bp_dsize p)"
  using assms by (simp add: bp_shape_def bp_blocks_def word_less_nat_alt)

lemma bp_block_not_invalid:
  assumes "bp_shape p" and "i \<in> bp_blocks p"
  shows "i \<noteq> invalid_idx"
proof
  assume "i = invalid_idx"
  then have "bp_num p \<le> i"
    by (simp add: invalid_idx_def)
  with assms(2) show False by (simp add: bp_blocks_def not_le)
qed

section \<open>Acquire and release keep the invariant\<close>

lemma bp_acquire_inv:
  assumes "bp_inv p" and "bp_free p = x # xs"
  shows "\<exists>p'. bp_acquire p = (x, p') \<and> bp_inv p' \<and> bp_free p' = xs \<and> bp_frame {} p p' \<and>
           x \<in> bp_blocks p \<and> bp_data_size p' x = 0"
proof -
  let ?p = "p\<lparr>bp_head := bp_head p + 1\<rparr>"
  note acq = bp_acquire_free [OF assms(2)]
  have "bp_shape ?p"
    using assms(1) bp_acquire_shape [of p] acq(1) by (simp add: bp_inv_def)
  then have "bp_inv ?p"
    using assms acq(2) by (auto simp: bp_inv_def bp_blocks_def bp_data_size_def)
  moreover have "bp_frame {} p ?p"
    by (simp add: bp_frame_def bp_data_size_def bp_block_def bp_buf_addr_def)
  ultimately show ?thesis
    using acq assms by (auto simp: bp_inv_def bp_data_size_def)
qed

lemma bp_release_inv:
  assumes inv: "bp_inv p" and i: "i \<in> bp_blocks p" "i \<notin> set (bp_free p)"
  shows "\<exists>p'. bp_release i p = Some p' \<and> bp_inv p' \<and> bp_free p' = bp_free p @ [i] \<and>
           bp_frame {i} p p'"
proof -
  obtain p' where p': "bp_release i p = Some p'" "bp_shape p'" "bp_free p' = bp_free p @ [i]"
    using bp_release_effect [OF _ bp_release_room [OF inv i] i(1)] inv by (auto simp: bp_inv_def)
  have upd: "bp_num p' = bp_num p" "bp_bsize p' = bp_bsize p" "bp_bufs p' = bp_bufs p"
      "bp_dsize p' = (bp_dsize p)[unat i := 0]"
    using p'(1) by (auto simp: bp_release_def split: if_splits)
  have dsz: "bp_data_size p' j = (if j = i then 0 else bp_data_size p j)" if "j \<in> bp_blocks p" for j
    using that upd i inv bp_blocks_nth [of p]
    by (auto simp: bp_data_size_def bp_inv_def nth_list_update word_unat_eq_iff)
  have fr: "bp_frame {i} p p'"
    using upd dsz by (simp add: bp_frame_def bp_block_def bp_buf_addr_def)
  moreover have "bp_inv p'"
    using inv p' i dsz bp_frame_blocks [OF fr] upd by (auto simp: bp_inv_def)
  ultimately show ?thesis using p' by blast
qed

text \<open>\<^verbatim>\<open>acquire\<close> with \<^verbatim>\<open>invalid_idx\<close> read as no block: the interface the pool contract is stated on.\<close>

definition bp_acq :: "buf_pool \<Rightarrow> u32 option \<times> buf_pool" where
  "bp_acq p = (let (i, p') = bp_acquire p in (if i = invalid_idx then None else Some i, p'))"

interpretation bp: free_pool bp_acq bp_release bp_free bp_blocks bp_inv
proof unfold_locales
  fix p :: buf_pool and x :: u32 and xs
  show "set (bp_free p) \<subseteq> bp_blocks p" and "distinct (bp_free p)" if "bp_inv p"
    using that by (auto simp: bp_inv_def)
  show "bp_acq p = (None, p)" if "bp_inv p" "bp_free p = []"
    using that by (simp add: bp_acq_def bp_acquire_def bp_acquire_empty)
  show "\<exists>p'. bp_acq p = (Some x, p') \<and> bp_inv p' \<and> bp_free p' = xs \<and> bp_blocks p' = bp_blocks p"
    if "bp_inv p" "bp_free p = x # xs"
    using bp_acquire_inv [OF that] that bp_block_not_invalid [of p x]
    by (auto simp: bp_acq_def bp_inv_def dest: bp_frame_blocks)
  show "\<exists>p'. bp_release x p = Some p' \<and> bp_inv p' \<and> bp_free p' = bp_free p @ [x] \<and>
      bp_blocks p' = bp_blocks p"
    if "bp_inv p" "x \<in> bp_blocks p" "x \<notin> set (bp_free p)"
    using bp_release_inv [OF that] by (auto dest: bp_frame_blocks)
  show "bp_release x p = None" if "bp_inv p" "set (bp_free p) = bp_blocks p"
  proof -
    have "card (set (bp_free p)) = unat (bp_num p)" using that(2) by (simp add: card_bp_blocks)
    then have "unat (bp_tail p - bp_head p) = unat (bp_num p)"
      using that(1) by (simp add: bp_inv_def distinct_card bp_free_count)
    then show ?thesis by (simp add: bp_release_def word_less_nat_alt)
  qed
qed


section \<open>Releasing and filling blocks\<close>

lemma bp_release_all_ok:
  assumes "bp_inv p" and "distinct xs" and "set xs \<subseteq> bp_blocks p" and "set xs \<inter> set (bp_free p) = {}"
  shows "\<exists>p'. release_all bp_release xs p = Some p' \<and> bp_inv p' \<and> bp_free p' = bp_free p @ xs \<and>
           bp_frame (set xs) p p'"
  using assms
proof (induction xs arbitrary: p)
  case Nil
  then show ?case by simp
next
  case (Cons x xs)
  then obtain p1 where p1: "bp_release x p = Some p1" "bp_inv p1" "bp_free p1 = bp_free p @ [x]"
      "bp_frame {x} p p1"
    using bp_release_inv [of p x] by auto
  with Cons.prems Cons.IH [of p1] obtain p2 where "release_all bp_release xs p1 = Some p2"
      "bp_inv p2" "bp_free p2 = bp_free p1 @ xs" "bp_frame (set xs) p1 p2"
    by (auto simp: bp_frame_blocks [OF p1(4)])
  with p1 bp_frame_trans [OF p1(4), of "set xs" p2] show ?case by simp
qed

text \<open>Filling a block: the copy and the size update of \<^verbatim>\<open>append\<close> and \<^verbatim>\<open>prepend\<close>.\<close>

lemma bp_fill:
  assumes inv: "bp_inv p" and i: "i \<in> bp_blocks p" "i \<notin> set (bp_free p)"
    and n: "unat (bp_data_size p i) + length xs \<le> unat (bp_bsize p)"
    and sz: "unat sz = unat (bp_data_size p i) + length xs"
  shows "\<exists>p1 p'. bp_write i (unat (bp_data_size p i)) xs p = Some p1 \<and> p' = bp_set_data_size i sz p1 \<and>
    bp_inv p' \<and> bp_free p' = bp_free p \<and> bp_frame {i} p p' \<and> bp_data_size p' i = sz \<and>
    bp_block p' i = bp_block p i @ xs"
proof -
  let ?a = "unat i * unat (bp_bsize p)" and ?d = "unat (bp_data_size p i)"
  let ?b = "blit (?a + ?d) xs (bp_bufs p)"
  let ?p1 = "p\<lparr>bp_bufs := ?b\<rparr>" and ?p = "p\<lparr>bp_bufs := ?b, bp_dsize := (bp_dsize p)[unat i := sz]\<rparr>"
  from inv have sh: "bp_shape p" by (simp add: bp_inv_def)
  have lt: "unat i < unat (bp_num p)" using i(1) by (simp add: bp_blocks_def word_less_nat_alt)
  have "?a + (?d + length xs) \<le> length (bp_bufs p)"
    using block_inside [OF lt n] sh by (simp add: bp_shape_def)
  then have fits: "?a + ?d + length xs \<le> length (bp_bufs p)" by simp
  have wr: "bp_write i ?d xs p = Some ?p1"
    using fits by (simp add: bp_write_def copy_in_def bp_buf_addr_unat [OF sh i(1)])
  have dsz: "bp_data_size ?p j = (if j = i then sz else bp_data_size p j)" if "j \<in> bp_blocks p" for j
    using that bp_blocks_nth [OF sh i(1)]
    by (auto simp: bp_data_size_def nth_list_update word_unat_eq_iff)
  have sh': "bp_shape ?p" using sh fits by (simp add: bp_shape_def)
  have blk: "bp_blocks ?p = bp_blocks p" by (simp add: bp_blocks_def)
  have oth: "bp_block ?p j = bp_block p j" if "j \<in> bp_blocks p" "j \<noteq> i" for j
  proof -
    have "unat (bp_data_size p j) \<le> unat (bp_bsize p)" using inv that by (simp add: bp_inv_def)
    then have "?a + (?d + length xs) \<le> unat j * unat (bp_bsize p) \<or>
               unat j * unat (bp_bsize p) + unat (bp_data_size p j) \<le> ?a"
      using that n by (intro block_disjoint) (auto simp: word_unat_eq_iff)
    then show ?thesis
      using dsz [OF that(1)] that fits sh sh' blk
      by (auto simp: bp_block_def bp_buf_addr_unat intro!: seg_blit_other)
  qed
  have "bp_block ?p i = bp_block p i @ xs"
    using dsz [OF i(1)] sh sh' blk i fits sz
    by (simp add: bp_block_def bp_buf_addr_unat seg_blit_extend)
  moreover have "bp_inv ?p"
    using inv sh' dsz blk i n sz by (auto simp: bp_inv_def bp_free_def)
  moreover have "bp_frame {i} p ?p"
    using dsz oth by (simp add: bp_frame_def)
  ultimately show ?thesis
    using wr dsz [OF i(1)] by (simp add: bp_set_data_size_def bp_free_def)
qed

lemma bp_block_empty: "bp_data_size p i = 0 \<Longrightarrow> bp_block p i = []"
  by (simp add: bp_block_def)

lemma length_bp_block:
  assumes "bp_inv p" and "i \<in> bp_blocks p"
  shows "length (bp_block p i) = unat (bp_data_size p i)"
proof -
  from assms have sh: "bp_shape p" and "unat (bp_data_size p i) \<le> unat (bp_bsize p)"
    and "unat i < unat (bp_num p)"
    by (auto simp: bp_inv_def bp_blocks_def word_less_nat_alt)
  then have "unat i * unat (bp_bsize p) + unat (bp_data_size p i) \<le> length (bp_bufs p)"
    using block_inside by (simp add: bp_shape_def)
  then show ?thesis by (simp add: bp_block_def length_seg bp_buf_addr_unat [OF sh assms(2)])
qed


section \<open>The constructor\<close>

lemma buf_pool_new_ok:
  assumes pow: "is_power_of_two n" and mem: "length mem = unat n * unat bs"
    and q: "length q = unat n" and bs: "0 < unat bs" "unat n * unat bs < 2 ^ 31"
  shows "\<exists>p. buf_pool_new mem q n bs = Some p \<and> bp_inv p \<and> bp_free p = map of_nat [0..<unat n] \<and>
           bp_num p = n \<and> bp_bsize p = bs"
proof -
  obtain k where k: "k < 31" "n = 2 ^ k" "unat n = 2 ^ k"
    using pow by (rule is_power_of_twoE)
  let ?p = "\<lparr>bp_num = n, bp_mask = n - 1, bp_bsize = bs, bp_bufs = mem,
    bp_dsize = replicate (unat n) 0, bp_queue = q, bp_head = 0, bp_tail = 0\<rparr>"
  let ?xs = "map of_nat [0..<unat n] :: u32 list"
  have m: "n - 1 = mask k" using k(2) by (simp add: mask_eq_exp_minus_1)
  have "bp_shape ?p"
    using k m mem q bs by (auto simp: bp_shape_def ring_ok_def)
  moreover have "bp_free ?p = []" by (simp add: bp_free_def ring_list_def)
  moreover have "bp_data_size ?p i = 0" if "i \<in> bp_blocks ?p" for i
    using that by (simp add: bp_data_size_def bp_blocks_def word_less_nat_alt)
  ultimately have inv: "bp_inv ?p" by (simp add: bp_inv_def)
  have xs: "distinct ?xs" "set ?xs \<subseteq> bp_blocks ?p"
    using distinct_u32_upt [of n] bp_blocks_upt [of ?p] by simp_all
  from bp_release_all_ok [OF inv xs] \<open>bp_free ?p = []\<close>
  show ?thesis
    using pow by (auto simp: buf_pool_new_def bp_frame_def)
qed


text \<open>
  C1: exclusive ownership in \<^verbatim>\<open>BufPool\<close>. After the constructor, over every sequence of
  acquisitions and releases by clients that release only what they hold: no block is handed out
  twice, every block is either held or free, releasing a held block never trips the assertion in
  \<^verbatim>\<open>release\<close>, and \<^verbatim>\<open>acquire\<close> answers \<^verbatim>\<open>invalid_idx\<close> exactly when all blocks are held.
\<close>

theorem buf_pool_exclusive:
  assumes "is_power_of_two n" and "length mem = unat n * unat bs" and "length q = unat n"
    and "0 < unat bs" and "unat n * unat bs < 2 ^ 31"
    and "buf_pool_new mem q n bs = Some p0"
    and "pool_run bp_acq bp_release p0 p held"
  shows "distinct (held @ bp_free p) \<and> set (held @ bp_free p) = {i. i < n} \<and>
    (\<forall>i \<in> set held. \<exists>p'. bp_release i p = Some p') \<and>
    (fst (bp_acquire p) = invalid_idx \<longleftrightarrow> set held = {i. i < n})"
proof -
  have p0: "bp_inv p0" "set (bp_free p0) = bp_blocks p0" "bp_num p0 = n"
    using buf_pool_new_ok [OF assms(1-5)] assms(6) by (auto simp: bp_blocks_upt)
  have b: "bp_blocks p0 = {i. i < n}" using p0(3) by (simp add: bp_blocks_def)
  have "fst (bp_acquire p) = invalid_idx \<longleftrightarrow> fst (bp_acq p) = None"
    by (simp add: bp_acq_def split: prod.split)
  then show ?thesis
    using bp.pool_run_inv [OF assms(7) p0(1,2)] bp.pool_run_acquire_iff [OF assms(7) p0(1,2)]
      bp.pool_run_release_ok [OF assms(7) p0(1,2)] b by auto
qed

theorem buf_pool_exclusive_witness:
  "\<exists>p0 p. buf_pool_new (replicate 8 0) [7, 7] 2 4 = Some p0 \<and> pool_run bp_acq bp_release p0 p [0] \<and>
     distinct ([0] @ bp_free p) \<and> set ([0] @ bp_free p) = {i. i < 2}"
proof -
  obtain p0 where p0: "buf_pool_new (replicate 8 0) [7, 7] 2 4 = Some p0" "bp_inv p0" "bp_free p0 = [0, 1]"
    using buf_pool_new_ok [of 2 "replicate 8 0" 4 "[7, 7]"]
    by (auto simp: is_power_of_two_def upt_rec)
  then have "bp_acq p0 = (Some 0, snd (bp_acq p0))"
    using bp.acq_first [OF p0(2,3)] by auto
  then have run: "pool_run bp_acq bp_release p0 (snd (bp_acq p0)) [0]"
    by (rule pool_acquire [OF pool_start])
  show ?thesis
    using p0(1) run buf_pool_exclusive [OF _ _ _ _ _ p0(1) run]
    by (auto simp: is_power_of_two_def)
qed

end
