(* ===== verification/Block_Ownership.thy ===== *)
theory Block_Ownership
  imports Buf_Pool
begin

text \<open>
  Ownership of pool blocks by the clients of a worker's \<^verbatim>\<open>BufPool\<close>. \<open>bp_owned p held\<close> says that
  \<open>held\<close> lists every block that is not free, each once: the write buffers of all channels, and the
  datagrams in flight, partition the pool. \<open>bp_bytes p is\<close> is the byte string a list of blocks
  holds. The lemmas are the facts the write buffers use: acquiring, releasing and truncating
  blocks keep ownership and leave the bytes of other holders alone.
\<close>

definition bp_owned :: "buf_pool \<Rightarrow> u32 list \<Rightarrow> bool" where
  "bp_owned p held \<longleftrightarrow> bp_inv p \<and> distinct (held @ bp_free p) \<and> set (held @ bp_free p) = bp_blocks p"

definition bp_bytes :: "buf_pool \<Rightarrow> u32 list \<Rightarrow> byte list" where
  "bp_bytes p is = concat (map (bp_block p) is)"

lemma bp_owned_perm: "mset xs = mset ys \<Longrightarrow> bp_owned p xs \<longleftrightarrow> bp_owned p ys"
  using mset_eq_imp_distinct_iff [of "xs @ bp_free p" "ys @ bp_free p"] mset_eq_setD [of xs ys]
  by (simp only: bp_owned_def mset_append set_append)

lemma bp_ownedD:
  assumes "bp_owned p held"
  shows "bp_inv p" and "i \<in> set held \<Longrightarrow> i \<in> bp_blocks p" and "i \<in> set held \<Longrightarrow> i \<notin> set (bp_free p)"
    and "i \<in> set (bp_free p) \<Longrightarrow> i \<in> bp_blocks p" and "distinct held"
  using assms by (auto simp: bp_owned_def)

lemma bp_owned_acquire:
  assumes "bp_owned p held" and "bp_free p = x # xs"
  shows "\<exists>p'. bp_acquire p = (x, p') \<and> bp_owned p' (x # held) \<and> bp_free p' = xs \<and> bp_frame {} p p' \<and>
           x \<noteq> invalid_idx \<and> x \<notin> set held \<and> bp_data_size p' x = 0"
proof -
  from assms have inv: "bp_inv p" by (simp add: bp_owned_def)
  then obtain p' where p': "bp_acquire p = (x, p')" "bp_inv p'" "bp_free p' = xs" "bp_frame {} p p'"
      "x \<in> bp_blocks p" "bp_data_size p' x = 0"
    using bp_acquire_inv [OF inv assms(2)] by blast
  with assms inv show ?thesis
    using bp_block_not_invalid [of p x] bp_frame_blocks [OF p'(4)]
    by (auto simp: bp_owned_def bp_inv_def)
qed

lemma bp_acquire_none:
  assumes "bp_free p = []"
  shows "bp_acquire p = (invalid_idx, p)"
  using assms by (simp add: bp_acquire_def bp_acquire_empty)

lemma bp_owned_release_all:
  assumes "bp_owned p (xs @ ys)"
  shows "\<exists>p'. release_all bp_release xs p = Some p' \<and> bp_owned p' ys \<and> bp_free p' = bp_free p @ xs \<and>
           bp_frame (set xs) p p'"
proof -
  from assms have "bp_inv p" "distinct xs" "set xs \<subseteq> bp_blocks p" "set xs \<inter> set (bp_free p) = {}"
    by (auto simp: bp_owned_def)
  from bp_release_all_ok [OF this] obtain p' where
    p': "release_all bp_release xs p = Some p'" "bp_inv p'" "bp_free p' = bp_free p @ xs"
      "bp_frame (set xs) p p'" by blast
  with assms bp_frame_blocks [OF p'(4)] show ?thesis
    by (auto simp: bp_owned_def)
qed

lemma bp_owned_frame_bytes:
  assumes "bp_frame S p p'" and "set is \<subseteq> bp_blocks p" and "set is \<inter> S = {}"
  shows "bp_bytes p' is = bp_bytes p is"
proof -
  have "map (bp_block p') is = map (bp_block p) is"
    using assms by (auto intro: bp_frame_block(1))
  then show ?thesis by (simp only: bp_bytes_def)
qed

lemma bp_bytes_append [simp]: "bp_bytes p (xs @ ys) = bp_bytes p xs @ bp_bytes p ys"
  and bp_bytes_Cons [simp]: "bp_bytes p (x # xs) = bp_block p x @ bp_bytes p xs"
  and bp_bytes_Nil [simp]: "bp_bytes p [] = []"
  by (simp_all add: bp_bytes_def)


lemma bp_size_bound:
  assumes "bp_owned p held"
  shows "unat (bp_bsize p) < 2 ^ 31" and "0 < unat (bp_bsize p)"
    and "i \<in> bp_blocks p \<Longrightarrow> unat (bp_data_size p i) \<le> unat (bp_bsize p)"
proof -
  from assms have sh: "bp_shape p" by (simp add: bp_owned_def bp_inv_def)
  then have "0 < unat (bp_num p)" "unat (bp_num p) * unat (bp_bsize p) < 2 ^ 31"
    by (auto simp: bp_shape_def)
  moreover from this(1) have "unat (bp_bsize p) \<le> unat (bp_num p) * unat (bp_bsize p)"
    by simp
  ultimately show "unat (bp_bsize p) < 2 ^ 31" by linarith
  show "0 < unat (bp_bsize p)" using sh by (simp add: bp_shape_def)
  show "i \<in> bp_blocks p \<Longrightarrow> unat (bp_data_size p i) \<le> unat (bp_bsize p)"
    using assms by (simp add: bp_owned_def bp_inv_def)
qed

lemma bp_owned_cong:
  assumes "bp_owned p held" and "bp_inv p'" and "bp_free p' = bp_free p" and "bp_frame S p p'"
  shows "bp_owned p' held"
  using assms bp_frame_blocks [OF assms(4)] by (simp add: bp_owned_def)

lemma set_size_truncate:
  assumes own: "bp_owned p held" and i: "i \<in> set held" and sz: "unat sz \<le> unat (bp_data_size p i)"
  defines "p' \<equiv> bp_set_data_size i sz p"
  shows "bp_owned p' held" and "bp_free p' = bp_free p" and "bp_frame {i} p p'"
    and "bp_block p' i = take (unat sz) (bp_block p i)"
proof -
  note D = bp_ownedD [OF own] and bd = bp_size_bound [OF own]
  have i': "i \<in> bp_blocks p" "i \<notin> set (bp_free p)" using D(2,3) i by blast+
  have sh: "bp_shape p" using D(1) by (simp add: bp_inv_def)
  have dsz: "bp_data_size p' j = (if j = i then sz else bp_data_size p j)" if "j \<in> bp_blocks p" for j
    using that bp_blocks_nth [OF sh i'(1)]
    by (auto simp: p'_def bp_set_data_size_def bp_data_size_def nth_list_update word_unat_eq_iff)
  have [simp]: "bp_num p' = bp_num p" "bp_bsize p' = bp_bsize p" "bp_bufs p' = bp_bufs p"
    by (simp_all add: p'_def bp_set_data_size_def)
  show fr: "bp_frame {i} p p'"
    using dsz by (simp add: bp_frame_def bp_block_def bp_buf_addr_def)
  show free: "bp_free p' = bp_free p"
    by (simp add: p'_def bp_set_data_size_def bp_free_def)
  have "bp_shape p'"
    using sh by (simp add: p'_def bp_set_data_size_def bp_shape_def)
  moreover have "bp_data_size p' j = 0" if "j \<in> set (bp_free p)" for j
  proof -
    have "j \<in> bp_blocks p" "j \<noteq> i" using D(4) that i'(2) by auto
    then show ?thesis using dsz [of j] D(1) that by (simp add: bp_inv_def)
  qed
  moreover have "unat (bp_data_size p' j) \<le> unat (bp_bsize p)" if "j \<in> bp_blocks p" for j
    using dsz [OF that] bd(3) [OF that] sz by (simp split: if_splits)
  ultimately have "bp_inv p'"
    using D(1) free bp_frame_blocks [OF fr] by (simp add: bp_inv_def)
  then show "bp_owned p' held" by (rule bp_owned_cong [OF own _ free fr])
  show "bp_block p' i = take (unat sz) (bp_block p i)"
    using dsz [OF i'(1)] sz by (simp add: bp_block_def bp_buf_addr_def take_seg)
qed

lemma bp_bytes_extend_last:
  assumes "pl \<noteq> []" and "distinct pl" and "set pl \<subseteq> bp_blocks p" and "bp_frame {last pl} p p1"
    and "bp_block p1 (last pl) = bp_block p (last pl) @ xs"
  shows "bp_bytes p1 pl = bp_bytes p pl @ xs"
proof -
  obtain ps x where pl: "pl = ps @ [x]" using assms(1) by (cases pl rule: rev_cases) auto
  then have "bp_bytes p1 ps = bp_bytes p ps"
    using assms by (intro bp_owned_frame_bytes) auto
  with assms pl show ?thesis by simp
qed

text \<open>Owned blocks hold no more than the pool's allocation, so byte counts fit an \<^verbatim>\<open>unsigned\<close>.\<close>

lemma bp_bytes_bound:
  assumes own: "bp_owned p (xs @ rest)"
  shows "length (bp_bytes p xs) < 2 ^ 31"
proof -
  note D = bp_ownedD [OF own] and bd = bp_size_bound [OF own]
  have sh: "bp_shape p" using D(1) by (simp add: bp_inv_def)
  have "length (bp_block p i) \<le> unat (bp_bsize p)" if "i \<in> set xs" for i
    using that D(1) D(2) [of i] bd(3) [of i] length_bp_block [of p i] by simp
  then have "length (bp_bytes p xs) \<le> length xs * unat (bp_bsize p)"
    by (induction xs) (auto simp: add_mono)
  also have "length xs = card (set xs)" using D(5) by (simp add: distinct_card)
  also have "\<dots> \<le> card (bp_blocks p)"
    using D(2) by (intro card_mono) (auto simp: bp_blocks_def)
  also have "\<dots> = unat (bp_num p)" by (rule card_bp_blocks)
  finally have "length (bp_bytes p xs) \<le> unat (bp_num p) * unat (bp_bsize p)" by simp
  then show ?thesis using sh by (simp add: bp_shape_def)
qed

section \<open>A sample pool\<close>

text \<open>Four blocks of four bytes, as the constructor leaves them; the examples use it.\<close>

definition sample_pool :: buf_pool where
  "sample_pool = \<lparr>bp_num = 4, bp_mask = 3, bp_bsize = 4, bp_bufs = replicate 16 0,
     bp_dsize = replicate 4 0, bp_queue = [0, 1, 2, 3], bp_head = 0, bp_tail = 4\<rparr>"

lemma sample_pool_new: "buf_pool_new (replicate 16 0) (replicate 4 0) 4 4 = Some sample_pool"
  by code_simp

lemma sample_pool_owned: "bp_owned sample_pool []"
proof -
  obtain p where p: "buf_pool_new (replicate 16 0) (replicate 4 0) 4 4 = Some p" "bp_inv p"
      "bp_free p = map of_nat [0..<4]" "bp_num p = 4"
    using buf_pool_new_ok [of 4 "replicate 16 0" 4 "replicate 4 0"] by (auto simp: is_power_of_two_def)
  then have "p = sample_pool" using sample_pool_new by simp
  moreover have "distinct (bp_free sample_pool)" "set (bp_free sample_pool) = bp_blocks sample_pool"
    using p bp_blocks_upt [of sample_pool] \<open>p = sample_pool\<close> by (simp_all add: upt_rec)
  ultimately show ?thesis using p(2) by (simp add: bp_owned_def)
qed

end
