(* ===== verification/Buf_Ring.thy ===== *)
theory Buf_Ring
  imports Block_Ownership
begin

text \<open>
  \<^verbatim>\<open>BufRing\<close> (\<^verbatim>\<open>include/core/buf_ring.hpp\<close>, \<^verbatim>\<open>src/core/buf_ring.cpp\<close>): the receive buffers of a worker,
  lent to the kernel through a provided-buffer ring. The two liburing calls that change that ring,
  \<^verbatim>\<open>io_uring_buf_ring_add\<close> and \<^verbatim>\<open>io_uring_buf_ring_advance\<close>, are logged in \<open>br_log\<close>; \<open>br_published\<close> reads
  from the log which buffers the kernel has been given.
\<close>

section \<open>State and operations\<close>

text \<open>The arguments: address, length, buffer id, mask and offset; and the number of entries.\<close>

datatype br_call = Ring_Add nat i32 u16 i32 i32 | Ring_Advance u32

record buf_ring =
  br_group :: i32
  br_bsize :: i32
  br_bufs :: "byte list"
  br_num :: i32
  br_mask :: i32
  br_dsize :: "u32 list"
  br_log :: "br_call list"

definition br_buf_index :: "buf_ring \<Rightarrow> nat \<Rightarrow> u32" where
  "br_buf_index b buf = of_nat (buf div unat (br_bsize b))"

definition br_buf_addr :: "buf_ring \<Rightarrow> u32 \<Rightarrow> nat" where
  "br_buf_addr b idx = unat (idx * br_bsize b)"

definition br_data_size :: "buf_ring \<Rightarrow> u32 \<Rightarrow> u32" where
  "br_data_size b idx = br_dsize b ! unat idx"

definition br_set_data_size :: "u32 \<Rightarrow> u32 \<Rightarrow> buf_ring \<Rightarrow> buf_ring" where
  "br_set_data_size idx sz b = b\<lparr>br_dsize := (br_dsize b)[unat idx := sz]\<rparr>"

text \<open>The buffer id of \<^verbatim>\<open>io_uring_buf_ring_add\<close> is an \<^verbatim>\<open>unsigned short\<close>.\<close>

definition br_add_buf :: "nat \<Rightarrow> i32 \<Rightarrow> buf_ring \<Rightarrow> buf_ring" where
  "br_add_buf buf offset b =
     b\<lparr>br_log := br_log b @ [Ring_Add buf (br_bsize b) (ucast (br_buf_index b buf)) (br_mask b) offset]\<rparr>"

definition br_advance_ring :: "u32 \<Rightarrow> buf_ring \<Rightarrow> buf_ring" where
  "br_advance_ring nr b = b\<lparr>br_log := br_log b @ [Ring_Advance nr]\<rparr>"

definition br_release :: "u32 \<Rightarrow> buf_ring \<Rightarrow> buf_ring" where
  "br_release idx b =
     (let b1 = br_advance_ring 1 (br_add_buf (br_buf_addr b idx) 0 b)
      in b1\<lparr>br_dsize := (br_dsize b1)[unat idx := 0]\<rparr>)"

definition br_release_ptr :: "nat \<Rightarrow> buf_ring \<Rightarrow> buf_ring" where
  "br_release_ptr buf b = br_release (br_buf_index b buf) b"

text \<open>
  The constructor. \<open>group_id\<close> is the value of the shared counter, \<open>mem\<close> the uninitialised allocation and
  \<open>setup\<close> whether \<^verbatim>\<open>io_uring_setup_buf_ring\<close> returned a ring; both assertions are guards.
\<close>

definition buf_ring_new :: "bool \<Rightarrow> i32 \<Rightarrow> byte list \<Rightarrow> i32 \<Rightarrow> i32 \<Rightarrow> buf_ring option" where
  "buf_ring_new setup group_id mem buf_num buf_size =
     (if is_power_of_two buf_num \<and> setup
      then Some (br_advance_ring buf_num
        (fold (\<lambda>i b. br_add_buf (unat (of_nat i * buf_size)) (of_nat i) b) [0..<unat buf_num]
          \<lparr>br_group = group_id, br_bsize = buf_size, br_bufs = mem, br_num = buf_num, br_mask = buf_num - 1,
           br_dsize = replicate (unat buf_num) 0, br_log = []\<rparr>))
      else None)"

section \<open>What the kernel has been given\<close>

text \<open>
  Reading the log: additions wait at their offset behind the tail until an advance publishes the first
  \<open>nr\<close> of them.
\<close>

definition added_at :: "(i32 \<times> u16) list \<Rightarrow> nat \<Rightarrow> u16 list" where
  "added_at adds k = (case map_of (rev adds) (of_nat k) of None \<Rightarrow> [] | Some bid \<Rightarrow> [bid])"

fun br_publish :: "(i32 \<times> u16) list \<Rightarrow> br_call list \<Rightarrow> u16 list" where
  "br_publish adds [] = []"
| "br_publish adds (Ring_Add buf len bid m off # cs) = br_publish (adds @ [(off, bid)]) cs"
| "br_publish adds (Ring_Advance nr # cs) = concat (map (added_at adds) [0..<unat nr]) @ br_publish [] cs"

definition br_published :: "buf_ring \<Rightarrow> u16 list" where
  "br_published b = br_publish [] (br_log b)"

text \<open>After an advance nothing is waiting.\<close>

lemma br_publish_settled:
  assumes "cs \<noteq> [] \<Longrightarrow> \<exists>n. last cs = Ring_Advance n" and "cs = [] \<Longrightarrow> adds = []"
  shows "br_publish adds (cs @ ds) = br_publish adds cs @ br_publish [] ds"
  using assms
proof (induction adds cs rule: br_publish.induct)
  case (1 adds)
  then show ?case by simp
next
  case (2 adds buf len bid m off cs)
  then show ?case by (cases cs) auto
next
  case (3 adds nr cs)
  then show ?case by (cases cs) auto
qed

definition br_shape :: "buf_ring \<Rightarrow> bool" where
  "br_shape b \<longleftrightarrow>
     (\<exists>k \<le> 15. br_num b = 2 ^ k \<and> br_mask b = mask k \<and> unat (br_num b) = 2 ^ k) \<and>
     length (br_dsize b) = unat (br_num b) \<and>
     length (br_bufs b) = unat (br_num b) * unat (br_bsize b) \<and>
     0 < unat (br_bsize b) \<and> unat (br_num b) * unat (br_bsize b) < 2 ^ 31 \<and>
     br_log b \<noteq> [] \<and> (\<exists>n. last (br_log b) = Ring_Advance n)"

definition br_blocks :: "buf_ring \<Rightarrow> u32 set" where
  "br_blocks b = {i. i < br_num b}"

text \<open>The bytes received into buffer \<open>i\<close>.\<close>

definition br_block :: "buf_ring \<Rightarrow> u32 \<Rightarrow> byte list" where
  "br_block b i = seg (br_buf_addr b i) (unat (br_data_size b i)) (br_bufs b)"

definition br_bytes :: "buf_ring \<Rightarrow> u32 list \<Rightarrow> byte list" where
  "br_bytes b is = concat (map (br_block b) is)"

lemma br_buf_addr_unat:
  assumes "br_shape b" and "i \<in> br_blocks b"
  shows "br_buf_addr b i = unat i * unat (br_bsize b)"
proof -
  have "unat i * unat (br_bsize b) \<le> unat (br_num b) * unat (br_bsize b)"
    using assms(2) by (intro mult_right_mono) (simp_all add: br_blocks_def word_less_nat_alt)
  then have "unat i * unat (br_bsize b) < 2 ^ 32"
    by (rule le_less_trans) (use assms(1) in \<open>simp add: br_shape_def\<close>)
  then show ?thesis by (simp add: br_buf_addr_def unat_word_ariths)
qed

lemma br_buf_index_addr:
  assumes "br_shape b" and "i \<in> br_blocks b"
  shows "br_buf_index b (br_buf_addr b i) = i"
  using assms by (simp add: br_buf_addr_unat br_buf_index_def br_shape_def)

lemma length_br_block:
  assumes sh: "br_shape b" and i: "i \<in> br_blocks b" and le: "unat (br_data_size b i) \<le> unat (br_bsize b)"
  shows "length (br_block b i) = unat (br_data_size b i)"
proof -
  have "unat i < unat (br_num b)" using i by (simp add: br_blocks_def word_less_nat_alt)
  from block_inside [OF this le] sh show ?thesis
    by (simp add: br_block_def br_buf_addr_unat [OF sh i] br_shape_def length_seg)
qed

lemma br_bytes_simps [simp]:
  "br_bytes b [] = []" "br_bytes b (x # xs) = br_block b x @ br_bytes b xs"
  "br_bytes b (xs @ ys) = br_bytes b xs @ br_bytes b ys"
  by (simp_all add: br_bytes_def)

section \<open>Release\<close>

lemma br_release_fields [simp]:
  "br_num (br_release i b) = br_num b" "br_bsize (br_release i b) = br_bsize b"
  "br_bufs (br_release i b) = br_bufs b" "br_mask (br_release i b) = br_mask b"
  "br_group (br_release i b) = br_group b"
  "br_dsize (br_release i b) = (br_dsize b)[unat i := 0]"
  by (simp_all add: br_release_def br_advance_ring_def br_add_buf_def Let_def)

lemma br_release_blocks [simp]: "br_blocks (br_release i b) = br_blocks b"
  by (simp add: br_blocks_def)

lemma br_release_shape: "br_shape b \<Longrightarrow> br_shape (br_release i b)"
  by (auto simp: br_shape_def) (simp_all add: br_release_def br_advance_ring_def br_add_buf_def Let_def)

lemma br_release_other:
  assumes "br_shape b" and "i \<in> br_blocks b" and "j \<in> br_blocks b" and "j \<noteq> i"
  shows "br_data_size (br_release i b) j = br_data_size b j" and "br_block (br_release i b) j = br_block b j"
proof -
  have "unat j \<noteq> unat i" using assms(4) by (simp add: word_unat_eq_iff)
  then show "br_data_size (br_release i b) j = br_data_size b j"
    by (simp add: br_data_size_def)
  then show "br_block (br_release i b) j = br_block b j"
    by (simp add: br_block_def br_buf_addr_def)
qed

lemma br_release_publishes:
  assumes sh: "br_shape b" and i: "i \<in> br_blocks b"
  shows "br_published (br_release i b) = br_published b @ [ucast i]"
proof -
  have log: "br_log (br_release i b) =
      br_log b @ [Ring_Add (br_buf_addr b i) (br_bsize b) (ucast i) (br_mask b) 0, Ring_Advance 1]"
    using br_buf_index_addr [OF sh i] by (simp add: br_release_def br_advance_ring_def br_add_buf_def Let_def)
  have "br_publish [] (br_log (br_release i b)) = br_publish [] (br_log b) @
      br_publish [] [Ring_Add (br_buf_addr b i) (br_bsize b) (ucast i) (br_mask b) 0, Ring_Advance 1]"
    unfolding log using sh by (intro br_publish_settled) (simp_all add: br_shape_def)
  then show ?thesis by (simp add: br_published_def added_at_def upt_rec)
qed

lemma br_release_all_publishes:
  assumes "br_shape b" and "set is \<subseteq> br_blocks b"
  shows "br_published (fold br_release is b) = br_published b @ map ucast is"
  using assms by (induction "is" arbitrary: b) (simp_all add: br_release_publishes br_release_shape)

section \<open>Construction\<close>

lemma br_add_fold:
  "fold (\<lambda>i b. br_add_buf (f i) (g i) b) is b =
     b\<lparr>br_log := br_log b @ map (\<lambda>i. Ring_Add (f i) (br_bsize b) (ucast (br_buf_index b (f i))) (br_mask b) (g i)) is\<rparr>"
  by (induction "is" arbitrary: b) (simp_all add: br_add_buf_def br_buf_index_def)

lemma br_publish_adds:
  "br_publish adds (map (\<lambda>i. Ring_Add (f i) l (h i) m (g i)) is @ cs) = br_publish (adds @ map (\<lambda>i. (g i, h i)) is) cs"
  by (induction "is" arbitrary: adds) simp_all

lemma added_at_upt:
  assumes "k < n" and "n < 2 ^ 32"
  shows "added_at (map (\<lambda>i. (of_nat i, h i)) [0..<n]) k = [h k]"
proof -
  let ?adds = "map (\<lambda>i. (of_nat i :: i32, h i)) [0..<n]"
  have inj: "inj_on (of_nat :: nat \<Rightarrow> i32) {0..<n}"
  proof (rule inj_onI)
    fix x y assume "x \<in> {0..<n}" "y \<in> {0..<n}" "(of_nat x :: i32) = of_nat y"
    then have "unat (of_nat x :: i32) = unat (of_nat y :: i32)" "x < 2 ^ 32" "y < 2 ^ 32" using assms(2) by simp_all
    then show "x = y" by (simp add: unat_of_nat take_bit_nat_eq_self)
  qed
  have "distinct (map fst (rev ?adds))"
    using inj by (simp add: rev_map [symmetric] comp_def distinct_map)
  moreover have "(of_nat k, h k) \<in> set (rev ?adds)" using assms(1) by auto
  ultimately have "map_of (rev ?adds) (of_nat k) = Some (h k)" by (rule map_of_is_SomeI)
  then show ?thesis by (simp add: added_at_def)
qed

lemma buf_ring_new_ok:
  assumes pow: "is_power_of_two n" and small: "unat n \<le> 2 ^ 15" and mem: "length mem = unat n * unat bs"
    and bs: "0 < unat bs" "unat n * unat bs < 2 ^ 31"
  shows "\<exists>b. buf_ring_new True g mem n bs = Some b \<and> br_shape b \<and> br_num b = n \<and> br_bsize b = bs \<and>
    br_bufs b = mem \<and> br_dsize b = replicate (unat n) 0 \<and> br_published b = map of_nat [0..<unat n]"
proof -
  obtain k where k: "k < 31" "n = 2 ^ k" "unat n = 2 ^ k" using pow by (rule is_power_of_twoE)
  have "(2::nat) ^ k \<le> 2 ^ 15" using small unfolding k(3) .
  then have k15: "k \<le> 15" by (rule power_le_imp_le_exp [rotated]) simp
  let ?b0 = "\<lparr>br_group = g, br_bsize = bs, br_bufs = mem, br_num = n, br_mask = n - 1,
           br_dsize = replicate (unat n) 0, br_log = []\<rparr>"
  let ?a = "\<lambda>i. unat (of_nat i * bs)"
  define b where "b = br_advance_ring n (fold (\<lambda>i b. br_add_buf (?a i) (of_nat i) b) [0..<unat n] ?b0)"
  have new: "buf_ring_new True g mem n bs = Some b" using pow by (simp add: buf_ring_new_def b_def)
  have log: "br_log b = map (\<lambda>i. Ring_Add (?a i) bs (ucast (br_buf_index ?b0 (?a i))) (n - 1) (of_nat i)) [0..<unat n] @
      [Ring_Advance n]"
    by (simp add: b_def br_advance_ring_def br_add_fold)
  have f: "br_num b = n" "br_bsize b = bs" "br_bufs b = mem" "br_dsize b = replicate (unat n) 0" "br_mask b = n - 1"
    by (simp_all add: b_def br_advance_ring_def br_add_fold)
  have m: "n - 1 = mask k" using k(2) by (simp add: mask_eq_exp_minus_1)
  have sh: "br_shape b"
    using k k15 m mem bs f log by (auto simp: br_shape_def)
  have idx: "ucast (br_buf_index ?b0 (?a i)) = (of_nat i :: u16)" if "i < unat n" for i
  proof -
    have "of_nat i \<in> br_blocks b"
      using that unat_of_nat_le [of i n] by (simp add: br_blocks_def f word_less_nat_alt)
    then have "br_buf_index b (br_buf_addr b (of_nat i)) = of_nat i" by (rule br_buf_index_addr [OF sh])
    then have "br_buf_index ?b0 (?a i) = of_nat i" by (simp add: br_buf_index_def br_buf_addr_def f)
    moreover have "i < 2 ^ 32" using that unat_u32_less [of n] by simp
    ultimately show ?thesis by (simp add: unsigned_of_nat take_bit_nat_eq_self)
  qed
  have "br_published b = concat (map (added_at (map (\<lambda>i. (of_nat i, ucast (br_buf_index ?b0 (?a i)))) [0..<unat n])) [0..<unat n])"
    by (simp add: br_published_def log br_publish_adds)
  also have "\<dots> = concat (map (\<lambda>i. [of_nat i]) [0..<unat n])"
    using idx unat_u32_less [of n] by (intro arg_cong [of _ _ concat] map_cong) (simp_all add: added_at_upt)
  finally have "br_published b = map of_nat [0..<unat n]" by (simp add: concat_map_singleton)
  then show ?thesis using new sh f by blast
qed

end
