(* ===== verification/Read_Buf.thy ===== *)
theory Read_Buf
  imports Buf_Ring
begin

text \<open>
  \<^verbatim>\<open>ReadBufBase\<close> and \<^verbatim>\<open>ReadBufStream\<close> (\<^verbatim>\<open>include/buffer/buffer.hpp\<close>, \<^verbatim>\<open>src/buffer/buffer.cpp\<close>): the receive side
  of a channel. Filled buffers of the worker's \<^verbatim>\<open>BufRing\<close> are queued by \<^verbatim>\<open>push_buf\<close>; \<^verbatim>\<open>peek\<close> describes the
  first bytes without copying them, \<^verbatim>\<open>consume\<close> drops them and gives used-up buffers back to the kernel.
\<close>

section \<open>State and operations\<close>

text \<open>\<open>rb_pdata\<close>, \<open>rb_psize\<close>, \<open>rb_pcount\<close> are \<^verbatim>\<open>peek_result_\<close>; its pointers are offsets into the ring's buffers.\<close>

record read_buf =
  rb_queue :: "u32 list"
  rb_head :: u32
  rb_tail :: u32
  rb_bytes :: u32
  rb_cap :: i32
  rb_mask :: u32
  rb_pdata :: "nat list"
  rb_psize :: "u32 list"
  rb_pcount :: u32

record read_stream = read_buf +
  rs_off :: u32

text \<open>The arrays come uninitialised from \<^verbatim>\<open>new[]\<close>.\<close>

definition read_buf_new :: "u32 list \<Rightarrow> nat list \<Rightarrow> u32 list \<Rightarrow> u32 \<Rightarrow> buf_ring \<Rightarrow> read_buf" where
  "read_buf_new queue pdata psize pcount b =
     \<lparr>rb_queue = queue, rb_head = 0, rb_tail = 0, rb_bytes = 0, rb_cap = br_num b, rb_mask = br_num b - 1,
      rb_pdata = pdata, rb_psize = psize, rb_pcount = pcount\<rparr>"

definition read_stream_new :: "u32 list \<Rightarrow> nat list \<Rightarrow> u32 list \<Rightarrow> u32 \<Rightarrow> buf_ring \<Rightarrow> read_stream" where
  "read_stream_new queue pdata psize pcount b =
     read_buf.extend (read_buf_new queue pdata psize pcount b) (read_stream.fields 0)"

definition rb_push_buf :: "u32 \<Rightarrow> buf_ring \<Rightarrow> 'a read_buf_scheme \<Rightarrow> bool \<times> 'a read_buf_scheme" where
  "rb_push_buf idx b r =
     (if rb_cap r \<le> rb_tail r - rb_head r then (False, r)
      else (True, r\<lparr>rb_queue := (rb_queue r)[ring_slot (rb_mask r) (rb_tail r) := idx],
              rb_tail := rb_tail r + 1, rb_bytes := rb_bytes r + br_data_size b idx\<rparr>))"

definition rb_empty :: "'a read_buf_scheme \<Rightarrow> bool" where
  "rb_empty r \<longleftrightarrow> rb_head r = rb_tail r"

definition rb_readable_packets :: "'a read_buf_scheme \<Rightarrow> u32" where
  "rb_readable_packets r = rb_tail r - rb_head r"

text \<open>
  The loop of \<^verbatim>\<open>peek\<close>, \<^verbatim>\<open>for (i = head_; i < tail_ && size > 0; ++i)\<close>; a store outside the result arrays
  is \<^term>\<open>None\<close>.
\<close>

lemma unat_Suc_below:
  fixes i t :: u32
  assumes "i < t"
  shows "unat (i + 1) = Suc (unat i)"
proof -
  have "unat i < unat t" using assms by (simp add: word_less_nat_alt)
  moreover have "unat t < 2 ^ 32" using unsigned_less [of t, where ?'a = nat] by simp
  ultimately have "Suc (unat i) < 2 ^ 32" by linarith
  then show ?thesis by (simp add: unat_word_ariths)
qed

function rs_peek_loop ::
  "read_stream \<Rightarrow> buf_ring \<Rightarrow> u32 \<Rightarrow> u32 \<Rightarrow> u32 \<Rightarrow> nat list \<Rightarrow> u32 list \<Rightarrow> (u32 \<times> nat list \<times> u32 list) option" where
  "rs_peek_loop r b i sz idx pdata psize =
     (if i < rb_tail r \<and> 0 < sz
      then
        let offset = (if i = rb_head r then rs_off r else 0);
            bi = rb_queue r ! ring_slot (rb_mask r) i;
            avail = br_data_size b bi - offset;
            start_ptr = br_buf_addr b bi + unat offset;
            block_readable = (if sz < avail then sz else avail)
        in if unat idx < length pdata \<and> unat idx < length psize
           then rs_peek_loop r b (i + 1) (sz - block_readable) (idx + 1)
                  (pdata[unat idx := start_ptr]) (psize[unat idx := block_readable])
           else None
      else Some (idx, pdata, psize))"
  by pat_completeness auto
termination
  by (relation "measure (\<lambda>(r, b, i, _). unat (rb_tail r) - unat i)")
    (auto simp: unat_Suc_below intro!: diff_less_mono2 dest: word_less_nat_alt [THEN iffD1])

declare rs_peek_loop.simps [simp del]

text \<open>\<^verbatim>\<open>peek(size)\<close>: whether the pointer is non-null, and the object with \<^verbatim>\<open>peek_result_\<close> filled.\<close>

definition rs_peek :: "u32 \<Rightarrow> buf_ring \<Rightarrow> read_stream \<Rightarrow> (bool \<times> read_stream) option" where
  "rs_peek sz b r =
     (if rb_bytes r < sz then Some (False, r)
      else do {
        (idx, pdata, psize) \<leftarrow> rs_peek_loop r b (rb_head r) sz 0 (rb_pdata r) (rb_psize r);
        Some (True, r\<lparr>rb_pdata := pdata, rb_psize := psize, rb_pcount := idx\<rparr>) })"

text \<open>The loop of \<^verbatim>\<open>consume\<close>. On a queue with empty buffers it could run forever, hence the partial function.\<close>

partial_function (option) rs_consume_loop ::
  "u32 \<Rightarrow> read_stream \<Rightarrow> buf_ring \<Rightarrow> (read_stream \<times> buf_ring) option" where
  "rs_consume_loop sz r b =
     (if sz = 0 then Some (r, b)
      else
        let idx = rb_queue r ! ring_slot (rb_mask r) (rb_head r);
            avail = br_data_size b idx - rs_off r
        in if sz < avail then Some (r\<lparr>rs_off := rs_off r + sz\<rparr>, b)
           else rs_consume_loop (sz - avail) (r\<lparr>rs_off := 0, rb_head := rb_head r + 1\<rparr>) (br_release idx b))"

declare rs_consume_loop.simps [code]

definition rs_consume :: "u32 \<Rightarrow> read_stream \<Rightarrow> buf_ring \<Rightarrow> (bool \<times> read_stream \<times> buf_ring) option" where
  "rs_consume sz r b =
     (if rb_bytes r < sz then Some (False, r, b)
      else map_option (Pair True) (rs_consume_loop sz (r\<lparr>rb_bytes := rb_bytes r - sz\<rparr>) b))"

definition rs_reset :: "read_stream \<Rightarrow> buf_ring \<Rightarrow> (read_stream \<times> buf_ring) option" where
  "rs_reset r b = do {
     (_, r', b') \<leftarrow> rs_consume (rb_bytes r) r b;
     Some (r'\<lparr>rs_off := 0, rb_head := 0, rb_tail := 0\<rparr>, b') }"

section \<open>Abstraction and invariant\<close>

definition rb_list :: "'a read_buf_scheme \<Rightarrow> u32 list" where
  "rb_list r = ring_list (rb_queue r) (rb_mask r) (rb_head r) (rb_tail r)"

text \<open>The received bytes not yet consumed.\<close>

definition rs_data :: "buf_ring \<Rightarrow> read_stream \<Rightarrow> byte list" where
  "rs_data b r = drop (unat (rs_off r)) (br_bytes b (rb_list r))"

definition rb_shape :: "'a read_buf_scheme \<Rightarrow> bool" where
  "rb_shape r \<longleftrightarrow>
     (\<exists>k \<le> 15. rb_cap r = 2 ^ k \<and> rb_mask r = mask k \<and> length (rb_queue r) = 2 ^ k \<and>
        length (rb_pdata r) = 2 ^ k \<and> length (rb_psize r) = 2 ^ k) \<and>
     ring_ok (rb_queue r) (rb_mask r) (rb_head r) (rb_tail r)"

text \<open>Queued buffers are distinct, filled, and hold no more than their size.\<close>

definition rb_filled :: "buf_ring \<Rightarrow> u32 list \<Rightarrow> bool" where
  "rb_filled b is \<longleftrightarrow> br_shape b \<and> distinct is \<and>
     (\<forall>i \<in> set is. i \<in> br_blocks b \<and> 0 < unat (br_data_size b i) \<and> unat (br_data_size b i) \<le> unat (br_bsize b))"

definition off_ok :: "buf_ring \<Rightarrow> u32 list \<Rightarrow> u32 \<Rightarrow> bool" where
  "off_ok b is off \<longleftrightarrow> (case is of [] \<Rightarrow> off = 0 | i # _ \<Rightarrow> off < br_data_size b i)"

lemma off_ok_simps [simp]:
  "off_ok b [] off \<longleftrightarrow> off = 0" "off_ok b (i # is) off \<longleftrightarrow> off < br_data_size b i"
  by (simp_all add: off_ok_def)

lemma off_ok_append: "rb_filled b (is @ [i]) \<Longrightarrow> off_ok b is off \<Longrightarrow> off_ok b (is @ [i]) off"
  by (cases "is") (simp_all add: rb_filled_def word_less_nat_alt)

lemma off_ok_zero: "rb_filled b is \<Longrightarrow> off_ok b is 0"
  by (cases "is") (simp_all add: rb_filled_def word_less_nat_alt)

definition rs_inv :: "buf_ring \<Rightarrow> read_stream \<Rightarrow> bool" where
  "rs_inv b r \<longleftrightarrow> rb_shape r \<and> rb_filled b (rb_list r) \<and>
     off_ok b (rb_list r) (rs_off r) \<and>
     rb_bytes r = of_nat (length (rs_data b r))"

lemma rb_list_length: "length (rb_list r) = unat (rb_tail r - rb_head r)"
  by (simp add: rb_list_def)

lemma rb_list_empty: "rb_list r = [] \<longleftrightarrow> rb_head r = rb_tail r"
  by (simp add: rb_list_def ring_list_Nil_iff)

lemma rb_cap_unat: "rb_shape r \<Longrightarrow> unat (rb_cap r) = length (rb_queue r)"
  by (auto simp: rb_shape_def unat_pow2)

lemma rb_lengths: "rb_shape r \<Longrightarrow> length (rb_pdata r) = length (rb_queue r) \<and> length (rb_psize r) = length (rb_queue r)"
  by (auto simp: rb_shape_def)

lemma rb_filled_block:
  assumes "rb_filled b is" and "i \<in> set is"
  shows "length (br_block b i) = unat (br_data_size b i)" and "br_block b i \<noteq> []"
proof -
  show l: "length (br_block b i) = unat (br_data_size b i)"
    using assms by (intro length_br_block) (auto simp: rb_filled_def)
  then show "br_block b i \<noteq> []" using assms by (auto simp: rb_filled_def)
qed

lemma rb_filled_length:
  assumes "rb_filled b is"
  shows "length is \<le> unat (br_num b)"
proof -
  have d: "distinct is" and sub: "set is \<subseteq> br_blocks b" using assms by (auto simp: rb_filled_def)
  have "length is = card (unat ` set is)"
    using d by (simp add: card_image inj_on_def word_unat_eq_iff distinct_card)
  also have "\<dots> \<le> card {..<unat (br_num b)}"
    using sub by (intro card_mono) (auto simp: br_blocks_def word_less_nat_alt)
  finally show ?thesis by simp
qed

lemma rb_bytes_bound:
  assumes "rb_filled b is"
  shows "length (br_bytes b is) < 2 ^ 31"
proof -
  have sh: "br_shape b" using assms by (simp add: rb_filled_def)
  have "length (br_block b i) \<le> unat (br_bsize b)" if "i \<in> set is" for i
    using rb_filled_block(1) [OF assms that] assms that by (simp add: rb_filled_def)
  then have "length (br_bytes b is) \<le> length is * unat (br_bsize b)"
    by (induction "is") (auto simp: add_mono)
  also have "\<dots> \<le> unat (br_num b) * unat (br_bsize b)"
    by (rule mult_right_mono [OF rb_filled_length [OF assms]]) simp
  finally have "length (br_bytes b is) \<le> unat (br_num b) * unat (br_bsize b)" .
  then show ?thesis using sh by (simp add: br_shape_def)
qed

lemma rs_inv_bytes:
  assumes "rs_inv b r"
  shows "unat (rb_bytes r) = length (rs_data b r)" and "length (rs_data b r) < 2 ^ 31"
proof -
  show lt: "length (rs_data b r) < 2 ^ 31"
    using rb_bytes_bound [of b "rb_list r"] assms by (simp add: rs_inv_def rs_data_def)
  show "unat (rb_bytes r) = length (rs_data b r)"
    using assms lt by (simp add: rs_inv_def unat_of_nat take_bit_nat_eq_self)
qed

section \<open>Push\<close>

lemma rb_push_ok:
  fixes r :: "'a read_buf_scheme"
  assumes sh: "rb_shape r" and room: "length (rb_list r) < length (rb_queue r)"
  shows "\<exists>r'. rb_push_buf i b r = (True, r') \<and> rb_shape r' \<and> rb_list r' = rb_list r @ [i] \<and>
    rb_bytes r' = rb_bytes r + br_data_size b i \<and> read_buf.more r' = read_buf.more r"
proof -
  have ok: "ring_ok (rb_queue r) (rb_mask r) (rb_head r) (rb_tail r)" using sh by (simp add: rb_shape_def)
  have lt: "unat (rb_tail r - rb_head r) < length (rb_queue r)" using room by (simp add: rb_list_length)
  then have "\<not> rb_cap r \<le> rb_tail r - rb_head r" using rb_cap_unat [OF sh] by (simp add: word_le_nat_alt)
  then show ?thesis
    using sh ring_ok_push(1) [OF ok lt] ring_list_push [OF ok lt]
    by (simp add: rb_push_buf_def rb_shape_def rb_list_def)
qed

lemma rs_push_ok:
  assumes inv: "rs_inv b r" and room: "length (rb_list r) < length (rb_queue r)"
    and new: "rb_filled b (rb_list r @ [i])"
  shows "\<exists>r'. rb_push_buf i b r = (True, r') \<and> rs_inv b r' \<and> rb_list r' = rb_list r @ [i] \<and>
    rs_data b r' = rs_data b r @ br_block b i"
proof -
  obtain r' where r': "rb_push_buf i b r = (True, r')" "rb_shape r'" "rb_list r' = rb_list r @ [i]"
      "rb_bytes r' = rb_bytes r + br_data_size b i" "read_buf.more r' = read_buf.more r"
    using rb_push_ok [OF _ room] inv by (auto simp: rs_inv_def)
  then have off: "rs_off r' = rs_off r" by (cases r; cases r'; simp)
  have i: "i \<in> set (rb_list r @ [i])" by simp
  have le: "unat (rs_off r) \<le> length (br_bytes b (rb_list r))"
  proof (cases "rb_list r")
    case (Cons j js)
    then show ?thesis
      using inv rb_filled_block(1) [of b "rb_list r" j] by (simp add: rs_inv_def word_less_nat_alt)
  qed (use inv in \<open>simp add: rs_inv_def\<close>)
  then have data: "rs_data b r' = rs_data b r @ br_block b i"
    by (simp add: rs_data_def r'(3) off)
  have "rb_bytes r' = of_nat (length (rs_data b r'))"
    using inv r'(4) rb_filled_block(1) [OF new i] by (simp add: rs_inv_def data)
  moreover have "off_ok b (rb_list r') (rs_off r')"
    using off_ok_append [OF new] inv r'(3) off by (simp add: rs_inv_def)
  ultimately have "rs_inv b r'" using r'(2,3) new by (simp add: rs_inv_def)
  then show ?thesis using r' data by blast
qed

section \<open>Peek\<close>

text \<open>The segments that describe the first \<open>n\<close> bytes of the queued buffers, from offset \<open>off\<close> of the first.\<close>

fun peek_segs :: "buf_ring \<Rightarrow> nat \<Rightarrow> u32 list \<Rightarrow> nat \<Rightarrow> (nat \<times> nat) list" where
  "peek_segs b off [] n = []"
| "peek_segs b off (i # is) n =
     (if n = 0 then []
      else let k = min n (unat (br_data_size b i) - off)
           in (br_buf_addr b i + off, k) # peek_segs b 0 is (n - k))"

lemma peek_segs_0 [simp]: "peek_segs b off is 0 = []"
  by (cases "is") simp_all

lemma length_peek_segs: "length (peek_segs b off is n) \<le> length is"
  by (induction b off "is" n rule: peek_segs.induct) (auto simp: Let_def)

text \<open>They denote exactly these bytes.\<close>

lemma peek_segs_bytes:
  assumes "rb_filled b is"
    and "is = [] \<and> off = 0 \<or> is \<noteq> [] \<and> off < unat (br_data_size b (hd is))"
  shows "concat (map (\<lambda>(a, k). seg a k (br_bufs b)) (peek_segs b off is n)) = take n (drop off (br_bytes b is))"
  using assms
proof (induction b off "is" n rule: peek_segs.induct)
  case (2 b off i "is" n)
  define k where "k = min n (unat (br_data_size b i) - off)"
  have len: "length (br_block b i) = unat (br_data_size b i)"
    using rb_filled_block(1) [OF 2(2)] by simp
  have "rb_filled b is" using 2(2) by (simp add: rb_filled_def)
  moreover have "is = [] \<or> 0 < unat (br_data_size b (hd is))"
    using 2(2) by (cases "is") (auto simp: rb_filled_def)
  ultimately have IH: "n \<noteq> 0 \<Longrightarrow>
      concat (map (\<lambda>(a, k). seg a k (br_bufs b)) (peek_segs b 0 is (n - k))) = take (n - k) (br_bytes b is)"
    using 2(1) by (auto simp: k_def)
  have "seg (br_buf_addr b i + off) k (br_bufs b) = take k (drop off (br_block b i))"
    using 2(3) by (simp add: k_def br_block_def take_seg drop_seg)
  moreover have "n - k = n - (length (br_block b i) - off)" by (simp add: k_def len)
  ultimately show ?case
    using 2(3) IH len by (cases "n = 0") (auto simp: Let_def k_def [symmetric] take_append, simp add: k_def min_def)
qed simp

text \<open>While the counters have not wrapped, the loop stores these segments one after the other.\<close>

lemma rs_peek_index:
  assumes "rb_head r \<le> rb_tail r" and "n < length (rb_list r)"
  shows "rb_head r + of_nat n < rb_tail r" and "rb_head r + of_nat n = rb_head r \<longleftrightarrow> n = 0"
    and "unat (of_nat n :: u32) = n"
proof -
  have len: "length (rb_list r) = unat (rb_tail r) - unat (rb_head r)"
    using assms(1) by (simp add: rb_list_length unat_sub)
  then have lt: "unat (rb_head r) + n < unat (rb_tail r)" using assms(2) by simp
  then have "unat (rb_head r) + n < 2 ^ 32" using unat_u32_less [of "rb_tail r"] by linarith
  then have i: "unat (rb_head r + of_nat n) = unat (rb_head r) + n" and n: "unat (of_nat n :: u32) = n"
    by (simp_all add: unat_word_ariths unat_of_nat take_bit_nat_eq_self)
  show "rb_head r + of_nat n < rb_tail r" using i lt by (simp add: word_less_nat_alt)
  show "rb_head r + of_nat n = rb_head r \<longleftrightarrow> n = 0" using i by (simp add: word_unat_eq_iff [where 'a = 32])
  show "unat (of_nat n :: u32) = n" by (rule n)
qed

lemma rs_peek_loop_segs:
  assumes sh: "rb_shape r" and fill: "rb_filled b (rb_list r)" and nowrap: "rb_head r \<le> rb_tail r"
    and off: "off_ok b (rb_list r) (rs_off r)"
    and n: "n \<le> length (rb_list r)"
    and lens: "length pdata = length (rb_queue r)" "length psize = length (rb_queue r)"
    and segs: "segs = peek_segs b (if n = 0 then unat (rs_off r) else 0) (drop n (rb_list r)) (unat sz)"
  shows "rs_peek_loop r b (rb_head r + of_nat n) sz (of_nat n) pdata psize =
    Some (of_nat (n + length segs),
      take n pdata @ map fst segs @ drop (n + length segs) pdata,
      take n psize @ map (of_nat \<circ> snd) segs @ drop (n + length segs) psize)"
  using n lens segs
proof (induction "length (rb_list r) - n" arbitrary: n sz pdata psize segs)
  case 0
  then have n: "n = length (rb_list r)" by simp
  then have "rb_head r + of_nat n = rb_tail r" by (simp add: rb_list_length)
  then show ?case using 0 n by (simp add: rs_peek_loop.simps)
next
  case (Suc d)
  then have lt: "n < length (rb_list r)" by simp
  note idx = rs_peek_index [OF nowrap lt]
  define i where "i = rb_list r ! n"
  define o' where "o' = (if n = 0 then rs_off r else 0)"
  define k where "k = (if sz < br_data_size b i - o' then sz else br_data_size b i - o')"
  have qi: "rb_queue r ! ring_slot (rb_mask r) (rb_head r + of_nat n) = i"
    using lt by (simp add: i_def rb_list_def ring_list_nth)
  have dn: "drop n (rb_list r) = i # drop (Suc n) (rb_list r)"
    using lt by (simp add: i_def Cons_nth_drop_Suc)
  have o: "o' < br_data_size b i"
  proof (cases n)
    case 0
    then show ?thesis using off dn by (cases "rb_list r") (simp_all add: o'_def)
  next
    case (Suc m)
    then show ?thesis using fill lt by (auto simp: o'_def i_def rb_filled_def word_less_nat_alt)
  qed
  have k: "unat k = min (unat sz) (unat (br_data_size b i) - unat o')"
    using o by (auto simp: k_def word_less_nat_alt unat_sub word_le_nat_alt)
  show ?case
  proof (cases "sz = 0")
    case False
    define segs' where "segs' = peek_segs b 0 (drop (Suc n) (rb_list r)) (unat (sz - k))"
    have "unat (sz - k) = unat sz - unat k" using k by (simp add: unat_sub word_le_nat_alt)
    then have segs: "segs = (br_buf_addr b i + unat o', unat k) # segs'"
      using Suc.prems(4) False k by (simp add: dn segs'_def o'_def unat_eq_zero Let_def)
    have room: "n < length pdata" "n < length psize"
      using lt Suc.prems sh by (auto simp: rb_list_length rb_shape_def ring_ok_def)
    have "rs_peek_loop r b (rb_head r + of_nat n) sz (of_nat n) pdata psize =
      rs_peek_loop r b (rb_head r + of_nat (Suc n)) (sz - k) (of_nat (Suc n))
        (pdata[n := br_buf_addr b i + unat o']) (psize[n := k])"
      using idx room False
      by (subst rs_peek_loop.simps)
        (simp add: Let_def qi o'_def [symmetric] k_def [symmetric] word_neq_0_conv add.assoc add.commute [of 1])
    also have "\<dots> = Some (of_nat (n + length segs),
        take n pdata @ map fst segs @ drop (n + length segs) pdata,
        take n psize @ map (of_nat \<circ> snd) segs @ drop (n + length segs) psize)"
      using Suc.hyps(1) [of "Suc n" "pdata[n := br_buf_addr b i + unat o']" "psize[n := k]" segs' "sz - k"]
        Suc.hyps(2) Suc.prems(2,3) lt room
      by (simp add: segs segs'_def [symmetric] take_Suc_conv_app_nth)
    finally show ?thesis .
  qed (use Suc.prems(4) in \<open>simp add: rs_peek_loop.simps\<close>)
qed

end
