(* ===== verification/Read_Stream.thy ===== *)
theory Read_Stream
  imports Read_Buf
begin

text \<open>
  What \<^verbatim>\<open>ReadBufStream\<close> does on every reachable buffer: \<^verbatim>\<open>peek\<close> describes exactly the first bytes received,
  \<^verbatim>\<open>consume\<close> drops exactly the bytes asked for and gives back exactly the buffers they use up.
\<close>

section \<open>Peek\<close>

definition rs_peeked :: "buf_ring \<Rightarrow> 'a read_buf_scheme \<Rightarrow> byte list" where
  "rs_peeked b r = concat (map (\<lambda>(a, k). seg a (unat k) (br_bufs b))
     (zip (take (unat (rb_pcount r)) (rb_pdata r)) (take (unat (rb_pcount r)) (rb_psize r))))"

lemma peek_segs_small:
  "(a, k) \<in> set (peek_segs b off is n) \<Longrightarrow> k < 2 ^ 32"
proof (induction b off "is" n rule: peek_segs.induct)
  case (2 b off i "is" n)
  have "min n (unat (br_data_size b i) - off) \<le> unat (br_data_size b i)" by simp
  then have "min n (unat (br_data_size b i) - off) < 2 ^ 32" using unat_u32_less by (rule le_less_trans)
  then show ?case using 2 by (auto simp: Let_def split: if_splits)
qed simp

lemma concat_segs_word:
  assumes "\<And>a k. (a, k) \<in> set segs \<Longrightarrow> k < 2 ^ 32"
  shows "concat (map (\<lambda>(a, k). seg a (unat k) m) (zip (map fst segs) (map (of_nat \<circ> snd) segs :: u32 list))) =
    concat (map (\<lambda>(a, k). seg a k m) segs)"
  using assms
proof (induction segs)
  case (Cons s segs)
  obtain a k where s: "s = (a, k)" by fastforce
  then have "k < 2 ^ 32" using Cons.prems [of a k] by simp
  moreover have "concat (map (\<lambda>(a, k). seg a (unat k) m) (zip (map fst segs) (map (of_nat \<circ> snd) segs :: u32 list))) =
      concat (map (\<lambda>(a, k). seg a k m) segs)"
    by (rule Cons.IH) (meson Cons.prems list.set_intros(2))
  ultimately show ?case by (simp add: s unat_of_nat take_bit_nat_eq_self comp_def)
qed simp

lemma peek_segs_inside:
  assumes "rb_filled b is" and "(a, k) \<in> set (peek_segs b off is n)"
    and "is = [] \<and> off = 0 \<or> is \<noteq> [] \<and> off < unat (br_data_size b (hd is))"
  shows "a + k \<le> length (br_bufs b)"
  using assms
proof (induction b off "is" n rule: peek_segs.induct)
  case (2 b off i "is" n)
  define l where "l = min n (unat (br_data_size b i) - off)"
  have f: "rb_filled b is" and i: "br_shape b" "i \<in> br_blocks b" "unat (br_data_size b i) \<le> unat (br_bsize b)"
    using 2(2) by (simp_all add: rb_filled_def)
  consider "(a, k) = (br_buf_addr b i + off, l)" | "n \<noteq> 0" "(a, k) \<in> set (peek_segs b 0 is (n - l))"
    using 2(3) by (auto simp: Let_def l_def split: if_splits)
  then show ?case
  proof cases
    case 1
    have "unat i < unat (br_num b)" using i(2) by (simp add: br_blocks_def word_less_nat_alt)
    from block_inside [OF this i(3)] have "br_buf_addr b i + unat (br_data_size b i) \<le> length (br_bufs b)"
      using i(1) br_buf_addr_unat [OF i(1,2)] by (simp add: br_shape_def)
    then show ?thesis using 1 2(4) by (auto simp: l_def min_def split: if_splits)
  next
    case 2
    then show ?thesis using "2.IH" f by (cases "is") (auto simp: l_def rb_filled_def)
  qed
qed simp

text \<open>What \<^verbatim>\<open>peek\<close> stores.\<close>

lemma rs_peek_segs:
  assumes inv: "rs_inv b r" and nowrap: "rb_head r \<le> rb_tail r" and sz: "sz \<le> rb_bytes r"
    and segs: "segs = peek_segs b (unat (rs_off r)) (rb_list r) (unat sz)"
  shows "rs_peek sz b r = Some (True, r\<lparr>rb_pdata := map fst segs @ drop (length segs) (rb_pdata r),
      rb_psize := map (of_nat \<circ> snd) segs @ drop (length segs) (rb_psize r), rb_pcount := of_nat (length segs)\<rparr>)"
    and "unat (of_nat (length segs) :: u32) = length segs" and "length segs \<le> length (rb_queue r)"
    and "concat (map (\<lambda>(a, k). seg a k (br_bufs b)) segs) = take (unat sz) (rs_data b r)"
    and "(a, k) \<in> set segs \<Longrightarrow> length (seg a k (br_bufs b)) = k"
proof -
  have sh: "rb_shape r" and fill: "rb_filled b (rb_list r)" and off: "off_ok b (rb_list r) (rs_off r)"
    using inv by (simp_all add: rs_inv_def)
  have off': "rb_list r = [] \<and> unat (rs_off r) = 0 \<or> rb_list r \<noteq> [] \<and> unat (rs_off r) < unat (br_data_size b (hd (rb_list r)))"
    using off by (cases "rb_list r") (simp_all add: word_less_nat_alt)
  have "rs_peek_loop r b (rb_head r) sz 0 (rb_pdata r) (rb_psize r) =
      Some (of_nat (length segs), map fst segs @ drop (length segs) (rb_pdata r),
        map (of_nat \<circ> snd) segs @ drop (length segs) (rb_psize r))"
    using rs_peek_loop_segs [OF sh fill nowrap off, of 0 "rb_pdata r" "rb_psize r" segs sz] rb_lengths [OF sh]
    by (simp add: segs)
  then show "rs_peek sz b r = Some (True, r\<lparr>rb_pdata := map fst segs @ drop (length segs) (rb_pdata r),
      rb_psize := map (of_nat \<circ> snd) segs @ drop (length segs) (rb_psize r), rb_pcount := of_nat (length segs)\<rparr>)"
    using sz by (simp add: rs_peek_def not_less)
  have le: "length segs \<le> length (rb_list r)" by (simp add: segs length_peek_segs)
  then show "unat (of_nat (length segs) :: u32) = length segs" using unat_of_nat_le by (simp add: rb_list_length)
  show "length segs \<le> length (rb_queue r)" using le sh by (auto simp: rb_list_length rb_shape_def ring_ok_def)
  show "concat (map (\<lambda>(a, k). seg a k (br_bufs b)) segs) = take (unat sz) (rs_data b r)"
    unfolding segs rs_data_def by (rule peek_segs_bytes [OF fill off'])
  show "(a, k) \<in> set segs \<Longrightarrow> length (seg a k (br_bufs b)) = k"
    using peek_segs_inside [OF fill _ off', of a k "unat sz"] by (simp add: segs seg_def)
qed

lemma rs_peek_ok:
  assumes inv: "rs_inv b r" and nowrap: "rb_head r \<le> rb_tail r" and sz: "sz \<le> rb_bytes r"
  shows "\<exists>r'. rs_peek sz b r = Some (True, r') \<and> rs_peeked b r' = take (unat sz) (rs_data b r) \<and>
    rs_inv b r' \<and> rb_list r' = rb_list r \<and> rs_data b r' = rs_data b r"
proof -
  have sh: "rb_shape r" using inv by (simp add: rs_inv_def)
  define segs where "segs = peek_segs b (unat (rs_off r)) (rb_list r) (unat sz)"
  note peek = rs_peek_segs [OF inv nowrap sz segs_def]
  let ?n = "length segs"
  let ?r = "r\<lparr>rb_pdata := map fst segs @ drop ?n (rb_pdata r), rb_psize := map (of_nat \<circ> snd) segs @ drop ?n (rb_psize r),
    rb_pcount := of_nat ?n\<rparr>"
  have "rs_peeked b ?r = concat (map (\<lambda>(a, k). seg a k (br_bufs b)) segs)"
    using concat_segs_word [of segs "br_bufs b"] peek_segs_small [of _ _ b "unat (rs_off r)" "rb_list r" "unat sz"]
    by (simp add: rs_peeked_def peek(2)) (simp add: segs_def)
  then have "rs_peeked b ?r = take (unat sz) (rs_data b r)" using peek(4) by simp
  moreover have "rb_list ?r = rb_list r" "rs_data b ?r = rs_data b r" "rs_off ?r = rs_off r"
    by (simp_all add: rb_list_def rs_data_def)
  moreover have "rb_shape ?r" using sh peek(3) rb_lengths [OF sh] by (auto simp: rb_shape_def)
  then have "rs_inv b ?r" using inv by (simp add: rs_inv_def rb_list_def rs_data_def)
  ultimately show ?thesis using peek(1) by blast
qed

section \<open>Consume\<close>

lemma rb_filled_release:
  assumes "rb_filled b (i # is)"
  shows "rb_filled (br_release i b) is" and "br_bytes (br_release i b) is = br_bytes b is"
proof -
  have sh: "br_shape b" and i: "i \<in> br_blocks b" and ne: "\<And>j. j \<in> set is \<Longrightarrow> j \<noteq> i \<and> j \<in> br_blocks b"
    using assms by (auto simp: rb_filled_def)
  have same: "br_data_size (br_release i b) j = br_data_size b j" "br_block (br_release i b) j = br_block b j"
    if "j \<in> set is" for j
    using br_release_other [OF sh i] ne [OF that] by auto
  show "rb_filled (br_release i b) is"
    using assms same(1) br_release_shape [OF sh] by (auto simp: rb_filled_def)
  show "br_bytes (br_release i b) is = br_bytes b is"
    using same(2) by (simp add: br_bytes_def cong: map_cong)
qed

text \<open>
  Consuming \<open>n\<close> bytes: the first \<open>k\<close> queued buffers go back to the ring in order, the rest of the queue holds
  exactly the bytes after the first \<open>n\<close>.
\<close>

definition consumes :: "nat \<Rightarrow> buf_ring \<Rightarrow> read_stream \<Rightarrow> nat \<Rightarrow> buf_ring \<Rightarrow> read_stream \<Rightarrow> bool" where
  "consumes n b r k b' r' \<longleftrightarrow>
     b' = fold br_release (take k (rb_list r)) b \<and> rb_list r' = drop k (rb_list r) \<and> k \<le> length (rb_list r) \<and>
     rb_shape r' \<and> rb_filled b' (rb_list r') \<and> off_ok b' (rb_list r') (rs_off r') \<and>
     rs_data b' r' = drop n (rs_data b r) \<and> rb_bytes r' = rb_bytes r \<and> rb_queue r' = rb_queue r"

lemma consumes_within:
  assumes "rb_shape r" and "rb_filled b (i # is)" and l: "rb_list r = i # is"
    and lt: "sz < br_data_size b i - rs_off r" and off: "rs_off r < br_data_size b i"
  shows "consumes (unat sz) b r 0 b (r\<lparr>rs_off := rs_off r + sz\<rparr>)"
proof -
  have "unat (rs_off r) + unat sz < unat (br_data_size b i)"
    using lt off by (simp add: word_less_nat_alt unat_sub word_le_nat_alt)
  moreover from this have "unat (rs_off r) + unat sz < 2 ^ 32" using unat_u32_less [of "br_data_size b i"] by linarith
  then have "unat (rs_off r + sz) = unat (rs_off r) + unat sz" by (simp add: unat_word_ariths)
  moreover have "rb_list (r\<lparr>rs_off := rs_off r + sz\<rparr>) = rb_list r" by (simp add: rb_list_def)
  ultimately show ?thesis
    using assms(1,2) by (auto simp: consumes_def l off_ok_def word_less_nat_alt rs_data_def rb_shape_def add.commute simp del: br_bytes_simps)
qed

lemma consumes_step:
  assumes fill: "rb_filled b (i # is)" and l: "rb_list r = i # is"
    and off: "rs_off r < br_data_size b i" and ge: "br_data_size b i - rs_off r \<le> sz"
    and l': "rb_list r1 = is" and o: "rs_off r1 = 0" and q: "rb_bytes r1 = rb_bytes r" "rb_queue r1 = rb_queue r"
    and rest: "consumes (unat (sz - (br_data_size b i - rs_off r))) (br_release i b) r1 k b' r'"
  shows "consumes (unat sz) b r (Suc k) b' r'"
proof -
  have len: "length (br_block b i) = unat (br_data_size b i)" using rb_filled_block(1) [OF fill] by simp
  have "unat (br_data_size b i - rs_off r) = unat (br_data_size b i) - unat (rs_off r)"
    using off by (simp add: unat_sub less_imp_le)
  then have "drop (unat sz) (rs_data b r) = drop (unat (sz - (br_data_size b i - rs_off r))) (br_bytes b is)"
    using ge len off by (simp add: rs_data_def l unat_sub word_le_nat_alt word_less_nat_alt drop_append)
  moreover have "rs_data (br_release i b) r1 = br_bytes b is"
    using rb_filled_release(2) [OF fill] by (simp add: rs_data_def l' o)
  ultimately show ?thesis using rest q unfolding consumes_def l l' by auto
qed

lemma rs_consume_loop_ok:
  assumes "rb_shape r" and "rb_filled b (rb_list r)" and "off_ok b (rb_list r) (rs_off r)"
    and "unat sz \<le> length (rs_data b r)"
  shows "\<exists>k r' b'. rs_consume_loop sz r b = Some (r', b') \<and> consumes (unat sz) b r k b' r'"
  using assms
proof (induction "rb_list r" arbitrary: r b sz)
  case Nil
  then have "sz = 0" by (simp add: rs_data_def unat_eq_zero [symmetric])
  then have "rs_consume_loop sz r b = Some (r, b)" by (simp add: rs_consume_loop.simps)
  then show ?case using Nil \<open>sz = 0\<close> by (intro exI [of _ 0] exI [of _ r]) (simp add: consumes_def)
next
  case (Cons i "is")
  note l = Cons.hyps(2) [symmetric]
  have ht: "rb_head r \<noteq> rb_tail r" using l by (metis rb_list_empty list.distinct(1))
  have hd: "rb_queue r ! ring_slot (rb_mask r) (rb_head r) = i"
    and tl: "ring_list (rb_queue r) (rb_mask r) (rb_head r + 1) (rb_tail r) = is"
    using ring_list_pop [OF ht, of "rb_queue r" "rb_mask r"] l by (simp_all add: rb_list_def)
  have off: "rs_off r < br_data_size b i" using Cons.prems(3) by (simp add: off_ok_def l)
  let ?a = "br_data_size b i - rs_off r"
  consider "sz = 0" | "sz \<noteq> 0" "sz < ?a" | "sz \<noteq> 0" "\<not> sz < ?a" by blast
  then show ?case
  proof cases
    case 1
    then have "rs_consume_loop sz r b = Some (r, b)" by (simp add: rs_consume_loop.simps)
    then show ?thesis using Cons.prems 1 by (intro exI [of _ 0] exI [of _ r]) (simp add: consumes_def)
  next
    case 2
    then have "rs_consume_loop sz r b = Some (r\<lparr>rs_off := rs_off r + sz\<rparr>, b)"
      using hd by (simp add: rs_consume_loop.simps Let_def)
    then show ?thesis using consumes_within [OF Cons.prems(1) _ l 2(2) off] Cons.prems(2) l by auto
  next
    case 3
    let ?r = "r\<lparr>rs_off := 0, rb_head := rb_head r + 1\<rparr>" and ?b = "br_release i b"
    have l': "is = rb_list ?r" by (simp add: rb_list_def tl)
    have sh: "rb_shape ?r" using Cons.prems(1) ring_ok_pop(1) [OF _ ht] by (auto simp: rb_shape_def)
    note fill = Cons.prems(2) [unfolded l]
    note f = rb_filled_release [OF fill]
    have c: "rs_consume_loop sz r b = rs_consume_loop (sz - ?a) ?r ?b"
      using 3 hd by (subst rs_consume_loop.simps) (simp add: Let_def)
    have "unat (sz - ?a) \<le> length (rs_data ?b ?r)"
      using Cons.prems(4) 3(2) off rb_filled_block(1) [OF fill, of i] f(2)
      by (simp add: rs_data_def l l' [symmetric] unat_sub word_less_nat_alt word_le_nat_alt not_less)
    then obtain k r' b' where "rs_consume_loop (sz - ?a) ?r ?b = Some (r', b')"
        "consumes (unat (sz - ?a)) ?b ?r k b' r'"
      using Cons.hyps(1) [OF l' sh, of ?b "sz - ?a"] f(1) off_ok_zero [OF f(1)] by (auto simp: l' [symmetric])
    then show ?thesis
      using c consumes_step [OF fill l off _ l' [symmetric], of sz k b' r'] 3(2) by (auto simp: not_less)
  qed
qed

lemma rs_consume_ok:
  assumes inv: "rs_inv b r" and sz: "sz \<le> rb_bytes r"
  shows "\<exists>k r' b'. rs_consume sz r b = Some (True, r', b') \<and> rs_inv b' r' \<and>
    k \<le> length (rb_list r) \<and> b' = fold br_release (take k (rb_list r)) b \<and> rb_list r' = drop k (rb_list r) \<and>
    rs_data b' r' = drop (unat sz) (rs_data b r) \<and> rb_queue r' = rb_queue r"
proof -
  let ?r = "r\<lparr>rb_bytes := rb_bytes r - sz\<rparr>"
  have l: "rb_list ?r = rb_list r" "rs_data b ?r = rs_data b r" by (simp_all add: rb_list_def rs_data_def)
  have len: "unat sz \<le> length (rs_data b r)" using sz rs_inv_bytes(1) [OF inv] by (simp add: word_le_nat_alt)
  moreover have "rb_shape ?r" using inv by (simp add: rs_inv_def rb_shape_def)
  ultimately obtain k r' b' where c: "rs_consume_loop sz ?r b = Some (r', b')" "consumes (unat sz) b ?r k b' r'"
    using rs_consume_loop_ok [of ?r b sz] inv l by (auto simp: rs_inv_def)
  have "rb_bytes r - sz = of_nat (length (rs_data b r) - unat sz)"
    using inv len by (simp add: rs_inv_def of_nat_diff)
  then have "rs_inv b' r'" using c(2) l unfolding consumes_def rs_inv_def by auto
  then show ?thesis using c l sz by (auto simp: rs_consume_def consumes_def not_less)
qed

lemma rs_data_empty:
  assumes "rb_filled b (rb_list r)" and "off_ok b (rb_list r) (rs_off r)" and "rs_data b r = []"
  shows "rb_list r = []"
proof (cases "rb_list r")
  case (Cons i "is")
  then have "length (br_block b i) = unat (br_data_size b i)"
    using rb_filled_block(1) [OF assms(1), of i] by simp
  then show ?thesis using assms(2,3) Cons by (simp add: rs_data_def word_less_nat_alt)
qed

text \<open>Consuming everything gives every queued buffer back.\<close>

lemma rs_consume_all:
  assumes inv: "rs_inv b r"
  shows "\<exists>r'. rs_consume (rb_bytes r) r b = Some (True, r', fold br_release (rb_list r) b) \<and>
    rs_inv (fold br_release (rb_list r) b) r' \<and> rb_list r' = [] \<and> rb_bytes r' = 0 \<and> rb_queue r' = rb_queue r"
proof -
  obtain k r1 b1 where c: "rs_consume (rb_bytes r) r b = Some (True, r1, b1)" "rs_inv b1 r1"
      "b1 = fold br_release (take k (rb_list r)) b" "rb_list r1 = drop k (rb_list r)"
      "rs_data b1 r1 = drop (unat (rb_bytes r)) (rs_data b r)" "rb_queue r1 = rb_queue r"
    using rs_consume_ok [OF inv order_refl] by blast
  have d: "rs_data b1 r1 = []" using c(5) rs_inv_bytes(1) [OF inv] by simp
  then have e: "rb_list r1 = []" using c(2) by (intro rs_data_empty) (simp_all add: rs_inv_def)
  then have "take k (rb_list r) = rb_list r" using c(4) by simp
  moreover have "rb_bytes r1 = 0" using c(2) d by (simp add: rs_inv_def)
  ultimately show ?thesis using c e by auto
qed

text \<open>\<^verbatim>\<open>reset\<close> gives every queued buffer back and leaves the buffer as new.\<close>

lemma rs_reset_ok:
  assumes inv: "rs_inv b r"
  shows "\<exists>r'. rs_reset r b = Some (r', fold br_release (rb_list r) b) \<and> rs_inv (fold br_release (rb_list r) b) r' \<and>
    rb_list r' = [] \<and> rb_head r' = 0 \<and> rb_tail r' = 0 \<and> rb_queue r' = rb_queue r"
proof -
  let ?b = "fold br_release (rb_list r) b"
  obtain r1 where c: "rs_consume (rb_bytes r) r b = Some (True, r1, ?b)" "rs_inv ?b r1" "rb_list r1 = []" "rb_bytes r1 = 0"
      "rb_queue r1 = rb_queue r" using rs_consume_all [OF inv] by blast
  let ?r = "r1\<lparr>rs_off := 0, rb_head := 0, rb_tail := 0\<rparr>"
  have l: "rb_list ?r = []" by (simp add: rb_list_def ring_list_def)
  have "rb_shape ?r" using c(2) by (auto simp: rs_inv_def rb_shape_def ring_ok_def)
  then have "rs_inv ?b ?r" using c(2-4) by (simp add: rs_inv_def l rs_data_def)
  then show ?thesis using c(1,5) l by (simp add: rs_reset_def)
qed

section \<open>A new stream\<close>

lemma read_stream_new_ok:
  assumes sh: "br_shape b" and len: "length q = unat (br_num b)" "length pd = unat (br_num b)" "length ps = unat (br_num b)"
  shows "rs_inv b (read_stream_new q pd ps n b)" and "rb_list (read_stream_new q pd ps n b) = []"
proof -
  let ?r = "read_stream_new q pd ps n b"
  note defs = read_stream_new_def read_buf_new_def read_buf.defs read_stream.defs
  obtain k where k: "k \<le> 15" "br_num b = 2 ^ k" "unat (br_num b) = 2 ^ k" using sh by (auto simp: br_shape_def)
  have m: "(2 ^ k :: i32) - 1 = mask k" by (simp add: mask_eq_exp_minus_1)
  show l: "rb_list ?r = []" by (simp add: defs rb_list_def ring_list_def)
  have "rb_shape ?r" using k len by (auto simp: defs rb_shape_def m ring_ok_def)
  then show "rs_inv b ?r" using sh by (simp add: rs_inv_def l rb_filled_def rs_data_def) (simp add: defs)
qed

section \<open>Receiving\<close>

lemma br_set_data_size_fields [simp]:
  "br_num (br_set_data_size i n b) = br_num b" "br_bsize (br_set_data_size i n b) = br_bsize b"
  "br_bufs (br_set_data_size i n b) = br_bufs b" "br_group (br_set_data_size i n b) = br_group b"
  "br_log (br_set_data_size i n b) = br_log b" "br_dsize (br_set_data_size i n b) = (br_dsize b)[unat i := n]"
  by (simp_all add: br_set_data_size_def)

lemma br_set_data_size_shape: "br_shape b \<Longrightarrow> br_shape (br_set_data_size i n b)"
  by (simp add: br_shape_def) (simp add: br_set_data_size_def)

lemma br_set_data_size_sizes:
  assumes "br_shape b" and "i \<in> br_blocks b"
  shows "br_data_size (br_set_data_size i n b) i = n" and "j \<noteq> i \<Longrightarrow> br_data_size (br_set_data_size i n b) j = br_data_size b j"
    and "j \<noteq> i \<Longrightarrow> br_block (br_set_data_size i n b) j = br_block b j"
proof -
  show "br_data_size (br_set_data_size i n b) i = n"
    using assms by (simp add: br_data_size_def br_shape_def br_blocks_def word_less_nat_alt)
  show o: "br_data_size (br_set_data_size i n b) j = br_data_size b j" if "j \<noteq> i"
  proof -
    have "unat j \<noteq> unat i" using that by (simp add: word_unat_eq_iff)
    then show ?thesis by (simp add: br_data_size_def)
  qed
  show "br_block (br_set_data_size i n b) j = br_block b j" if "j \<noteq> i"
    using o [OF that] by (simp add: br_block_def br_buf_addr_def)
qed

text \<open>Recording the size of a buffer nobody holds changes no stream.\<close>

lemma rs_inv_set_other:
  assumes inv: "rs_inv b r" and i: "i \<in> br_blocks b" "i \<notin> set (rb_list r)"
  shows "rs_inv (br_set_data_size i n b) r" and "rs_data (br_set_data_size i n b) r = rs_data b r"
proof -
  have sh: "br_shape b" using inv by (simp add: rs_inv_def rb_filled_def)
  have same: "br_data_size (br_set_data_size i n b) j = br_data_size b j" "br_block (br_set_data_size i n b) j = br_block b j"
    if "j \<in> set (rb_list r)" for j
    using that i br_set_data_size_sizes(2,3) [OF sh i(1)] by metis+
  show d: "rs_data (br_set_data_size i n b) r = rs_data b r"
    using same(2) by (simp add: rs_data_def br_bytes_def cong: map_cong)
  have "br_blocks (br_set_data_size i n b) = br_blocks b" by (simp add: br_blocks_def)
  then have "rb_filled (br_set_data_size i n b) (rb_list r)"
    using inv same(1) br_set_data_size_shape [OF sh] by (auto simp: rs_inv_def rb_filled_def)
  moreover have "off_ok (br_set_data_size i n b) (rb_list r) (rs_off r)"
    using inv same(1) by (cases "rb_list r") (auto simp: rs_inv_def)
  ultimately show "rs_inv (br_set_data_size i n b) r" using inv d by (simp add: rs_inv_def)
qed

lemma rs_receive_ok:
  assumes inv: "rs_inv b r" and i: "i \<in> br_blocks b" "i \<notin> set (rb_list r)"
    and n: "0 < unat n" "unat n \<le> unat (br_bsize b)" and room: "length (rb_list r) < length (rb_queue r)"
  shows "\<exists>r'. rb_push_buf i (br_set_data_size i n b) r = (True, r') \<and> rs_inv (br_set_data_size i n b) r' \<and>
    rb_list r' = rb_list r @ [i] \<and>
    rs_data (br_set_data_size i n b) r' = rs_data b r @ seg (br_buf_addr b i) (unat n) (br_bufs b)"
proof -
  let ?b = "br_set_data_size i n b"
  have sh: "br_shape b" using inv by (simp add: rs_inv_def rb_filled_def)
  note s = br_set_data_size_sizes [OF sh i(1)] and o = rs_inv_set_other [OF inv i]
  have "rb_filled ?b (rb_list r @ [i])"
    using o(1) [of n] i n s(1) by (auto simp: rs_inv_def rb_filled_def br_blocks_def)
  from rs_push_ok [OF o(1) room this] show ?thesis
    using o(2) [of n] s(1) by (simp add: br_block_def br_buf_addr_def)
qed

section \<open>The promises of the receive buffer\<close>

text \<open>
  C12: \<^verbatim>\<open>ReadBufStream::peek(size)\<close> on every reachable buffer whose counters have not wrapped: the result is
  null exactly when fewer than \<open>size\<close> bytes are readable. Otherwise its segments, read one after the other from
  the receive buffers, are exactly the first \<open>size\<close> bytes received and not yet consumed. No buffer or byte is
  given up by it, and no store leaves the result arrays.
\<close>

theorem read_peek_exact:
  assumes "rs_inv b r" and "rb_head r \<le> rb_tail r"
  shows "\<exists>ok r'. rs_peek sz b r = Some (ok, r') \<and> (ok \<longleftrightarrow> unat sz \<le> length (rs_data b r)) \<and>
    (ok \<longrightarrow> rs_peeked b r' = take (unat sz) (rs_data b r)) \<and>
    rs_inv b r' \<and> rb_list r' = rb_list r \<and> rs_data b r' = rs_data b r"
proof (cases "sz \<le> rb_bytes r")
  case True
  then have "unat sz \<le> length (rs_data b r)" using rs_inv_bytes(1) [OF assms(1)] by (simp add: word_le_nat_alt)
  then show ?thesis using rs_peek_ok [OF assms True] by auto
next
  case False
  then have "rs_peek sz b r = Some (False, r)" by (simp add: rs_peek_def not_le)
  moreover have "\<not> unat sz \<le> length (rs_data b r)"
    using False rs_inv_bytes(1) [OF assms(1)] by (simp add: word_le_nat_alt)
  ultimately show ?thesis using assms(1) by auto
qed

text \<open>A ring of two buffers of four bytes, filled with three and two; the stream holds both, one byte consumed.\<close>

definition sample_br :: buf_ring where
  "sample_br = \<lparr>br_group = 0, br_bsize = 4, br_bufs = [1, 2, 3, 0, 4, 5, 0, 0], br_num = 2, br_mask = 1,
     br_dsize = [3, 2], br_log = [Ring_Add 0 4 0 1 0, Ring_Add 4 4 1 1 1, Ring_Advance 2]\<rparr>"

definition sample_rs :: read_stream where
  "sample_rs = \<lparr>rb_queue = [0, 1], rb_head = 0, rb_tail = 2, rb_bytes = 4, rb_cap = 2, rb_mask = 1,
     rb_pdata = [0, 0], rb_psize = [0, 0], rb_pcount = 0, rs_off = 1\<rparr>"

definition sample_wrapped :: read_stream where
  "sample_wrapped = sample_rs\<lparr>rb_queue := [1, 0], rb_head := 4294967295, rb_tail := 1\<rparr>"

lemma sample_br_shape: "br_shape sample_br"
  unfolding br_shape_def
  by (intro conjI exI [of _ "1::nat"]) (simp_all add: sample_br_def mask_eq_exp_minus_1)

lemma sample_rb_shape: "rb_shape sample_rs" "rb_shape sample_wrapped"
  unfolding rb_shape_def ring_ok_def
  by (intro conjI exI [of _ 1]; simp add: sample_wrapped_def sample_rs_def mask_eq_exp_minus_1)+

lemma sample_rb_list: "rb_list sample_rs = [0, 1]" "rb_list sample_wrapped = [0, 1]"
  by (simp_all add: sample_wrapped_def sample_rs_def rb_list_def ring_list_def ring_slot_def upt_rec)

lemma sample_filled: "rb_filled sample_br [0, 1]"
  using sample_br_shape by (simp add: rb_filled_def) (simp add: sample_br_def br_blocks_def br_data_size_def)

lemma sample_rs_data: "rs_data sample_br sample_rs = [2, 3, 4, 5]" "rs_data sample_br sample_wrapped = [2, 3, 4, 5]"
  by (simp_all add: rs_data_def sample_rb_list br_block_def seg_def br_buf_addr_def br_data_size_def)
    (simp_all add: sample_wrapped_def sample_rs_def sample_br_def)

lemma sample_rs_inv: "rs_inv sample_br sample_rs" "rs_inv sample_br sample_wrapped"
  unfolding rs_inv_def using sample_rb_shape sample_filled
  by (simp_all add: sample_rb_list sample_rs_data)
    (simp_all add: sample_wrapped_def sample_rs_def sample_br_def br_data_size_def)

theorem read_peek_exact_witness:
  "\<exists>r'. rs_peek 3 sample_br sample_rs = Some (True, r') \<and> rs_peeked sample_br r' = [2, 3, 4]"
  using read_peek_exact [OF sample_rs_inv(1), of 3] by (auto simp: sample_rs_data) (auto simp: sample_rs_def)

text \<open>
  C11: \<^verbatim>\<open>ReadBufStream::consume(size)\<close> always returns. It refuses without any change when fewer bytes are readable,
  and otherwise drops exactly the first \<open>size\<close> of them. The buffers given back to the kernel are exactly those
  whose last byte has been dropped: each once, in the order they were received, and none still holding an
  unread byte.
\<close>

theorem read_consume_releases:
  assumes "rs_inv b r"
  shows "\<exists>ok r' b'. rs_consume sz r b = Some (ok, r', b') \<and> (ok \<longleftrightarrow> unat sz \<le> length (rs_data b r)) \<and>
    (\<not> ok \<longrightarrow> r' = r \<and> b' = b) \<and>
    (ok \<longrightarrow> rs_inv b' r' \<and> rs_data b' r' = drop (unat sz) (rs_data b r) \<and>
      (\<exists>given. rb_list r = given @ rb_list r' \<and> br_published b' = br_published b @ map ucast given))"
proof (cases "sz \<le> rb_bytes r")
  case True
  then have le: "unat sz \<le> length (rs_data b r)" using rs_inv_bytes(1) [OF assms] by (simp add: word_le_nat_alt)
  obtain k r' b' where c: "rs_consume sz r b = Some (True, r', b')" "rs_inv b' r'"
      "b' = fold br_release (take k (rb_list r)) b" "rb_list r' = drop k (rb_list r)"
      "rs_data b' r' = drop (unat sz) (rs_data b r)"
    using rs_consume_ok [OF assms True] by blast
  have "br_published b' = br_published b @ map ucast (take k (rb_list r))"
    unfolding c(3) using assms by (intro br_release_all_publishes) (auto simp: rs_inv_def rb_filled_def dest: in_set_takeD)
  moreover have "rb_list r = take k (rb_list r) @ rb_list r'" using c(4) by simp
  ultimately show ?thesis using c(1,2,5) le by auto
next
  case False
  then have "rs_consume sz r b = Some (False, r, b)" by (simp add: rs_consume_def not_le)
  moreover have "\<not> unat sz \<le> length (rs_data b r)"
    using False rs_inv_bytes(1) [OF assms] by (simp add: word_le_nat_alt)
  ultimately show ?thesis by auto
qed

theorem read_consume_releases_witness:
  "\<exists>r' b'. rs_consume 3 sample_rs sample_br = Some (True, r', b') \<and> rs_data b' r' = [5]"
  using read_consume_releases [OF sample_rs_inv(1), of 3] by (auto simp: sample_rs_data)

text \<open>
  C22: where \<^verbatim>\<open>peek\<close> fails. Its loop compares the 32-bit counters by \<^verbatim>\<open><\<close> although they wrap. When the tail has
  wrapped and the head has not, \<^verbatim>\<open>peek\<close> reports success with no segment at all, however many bytes are
  readable, and goes on doing so until the head wraps as well.
\<close>

theorem read_peek_wrapped_empty:
  assumes "rb_tail r < rb_head r" and "sz \<le> rb_bytes r"
  shows "\<exists>r'. rs_peek sz b r = Some (True, r') \<and> rb_pcount r' = 0 \<and> rs_peeked b r' = []"
  using assms by (auto simp: rs_peek_def rs_peek_loop.simps rs_peeked_def not_less less_imp_le)

theorem read_peek_wrapped_empty_witness:
  "rs_inv sample_br sample_wrapped \<and> rs_data sample_br sample_wrapped = [2, 3, 4, 5] \<and>
   (\<exists>r'. rs_peek 4 sample_br sample_wrapped = Some (True, r') \<and> rs_peeked sample_br r' = [])"
  using read_peek_wrapped_empty [of sample_wrapped 4 sample_br] sample_rs_inv(2) sample_rs_data(2)
  by (auto simp: sample_wrapped_def sample_rs_def)

end
