(* ===== verification/Write_Buf.thy ===== *)
theory Write_Buf
  imports Block_Ownership
begin

text \<open>
  \<^verbatim>\<open>WriteBufBase\<close> (\<^verbatim>\<open>include/buffer/buffer.hpp\<close>, \<^verbatim>\<open>src/buffer/buffer.cpp\<close>): a write buffer builds
  its output in pool blocks listed in the ring \<^verbatim>\<open>pending_bufs_\<close>. The pool is shared by the channels
  of a worker, so every operation takes it as a second state component and returns it.
\<close>

section \<open>State and operations\<close>

record write_buf =
  wb_pending :: "u32 list"
  wb_sendq :: "u32 list"
  wb_send_head :: u64
  wb_pending_head :: u64
  wb_pending_tail :: u64
  wb_send_tail :: u64
  wb_capacity :: i32
  wb_mask :: u32

text \<open>
  \<^verbatim>\<open>WriteBufBase(buf_pool, capacity)\<close>; the two arrays come uninitialised from \<^verbatim>\<open>new[]\<close>.
\<close>

definition write_buf_new :: "u32 list \<Rightarrow> u32 list \<Rightarrow> i32 \<Rightarrow> write_buf" where
  "write_buf_new pending_bufs send_queue capacity =
     \<lparr>wb_pending = pending_bufs, wb_sendq = send_queue, wb_send_head = 0, wb_pending_head = 0,
      wb_pending_tail = 0, wb_send_tail = 0, wb_capacity = capacity, wb_mask = capacity - 1\<rparr>"

text \<open>The masks and the capacity as they enter the \<^verbatim>\<open>uint64_t\<close> expressions.\<close>

abbreviation wb_m :: "'a write_buf_scheme \<Rightarrow> u64" where
  "wb_m w \<equiv> ucast (wb_mask w)"

abbreviation wb_cap :: "'a write_buf_scheme \<Rightarrow> u64" where
  "wb_cap w \<equiv> scast (wb_capacity w)"

text \<open>\<^verbatim>\<open>while (h != t) buf_pool_->release(q[h++ & mask_])\<close>\<close>

function release_range :: "u32 list \<Rightarrow> u64 \<Rightarrow> u64 \<Rightarrow> u64 \<Rightarrow> buf_pool \<Rightarrow> buf_pool option" where
  "release_range q m h t p =
     (if h = t then Some p
      else do { p' \<leftarrow> bp_release (q ! ring_slot m h) p; release_range q m (h + 1) t p' })"
  by pat_completeness auto
termination
  by (relation "measure (\<lambda>(q, m, h, t, p). unat (t - h))") (auto simp: unat_word_diff_Suc(1))

declare release_range.simps [simp del]

text \<open>\<^verbatim>\<open>while (t != t0) buf_pool_->release(q[--t & mask_])\<close>\<close>

function release_back :: "u32 list \<Rightarrow> u64 \<Rightarrow> u64 \<Rightarrow> u64 \<Rightarrow> buf_pool \<Rightarrow> buf_pool option" where
  "release_back q m t t0 p =
     (if t = t0 then Some p
      else do { p' \<leftarrow> bp_release (q ! ring_slot m (t - 1)) p; release_back q m (t - 1) t0 p' })"
  by pat_completeness auto
termination
  by (relation "measure (\<lambda>(q, m, t, t0, p). unat (t - t0))")
    (auto simp: unat_word_diff_Suc(2) [OF not_sym])

declare release_back.simps [simp del]

definition wb_discard_pending ::
  "'a write_buf_scheme \<Rightarrow> buf_pool \<Rightarrow> ('a write_buf_scheme \<times> buf_pool) option" where
  "wb_discard_pending w p = do {
     p' \<leftarrow> release_range (wb_pending w) (wb_m w) (wb_pending_head w) (wb_pending_tail w) p;
     Some (w\<lparr>wb_pending_head := 0, wb_pending_tail := 0\<rparr>, p') }"

text \<open>
  The rollback of \<^verbatim>\<open>append\<close>: restore the size of the block that was the tail before the call and
  release the blocks added since.
\<close>

definition append_rollback ::
  "bool \<Rightarrow> u64 \<Rightarrow> u32 \<Rightarrow> 'a write_buf_scheme \<Rightarrow> buf_pool \<Rightarrow>
     (bool \<times> 'a write_buf_scheme \<times> buf_pool) option" where
  "append_rollback was_empty original_tail original_tail_size w p = do {
     p' \<leftarrow> release_back (wb_pending w) (wb_m w) (wb_pending_tail w) original_tail
       (if was_empty then p
        else bp_set_data_size (wb_pending w ! ring_slot (wb_m w) (original_tail - 1))
               original_tail_size p);
     Some (False, w\<lparr>wb_pending_tail := original_tail\<rparr>, p') }"

text \<open>One pass of the copy in the loop of \<^verbatim>\<open>append\<close>: fill the tail block.\<close>

definition append_fill :: "u32 \<Rightarrow> byte list \<Rightarrow> u32 \<Rightarrow> buf_pool \<Rightarrow> buf_pool option" where
  "append_fill idx data to_copy p =
     (if 0 < to_copy
      then map_option (bp_set_data_size idx (bp_data_size p idx + to_copy))
             (bp_write idx (unat (bp_data_size p idx)) (take (unat to_copy) data) p)
      else Some p)"

definition push_pending :: "u32 \<Rightarrow> 'a write_buf_scheme \<Rightarrow> 'a write_buf_scheme" where
  "push_pending idx w =
     w\<lparr>wb_pending := (wb_pending w)[ring_slot (wb_m w) (wb_pending_tail w) := idx],
       wb_pending_tail := wb_pending_tail w + 1\<rparr>"

lemma append_fill_ring:
  assumes "append_fill idx data n p = Some p'"
  shows "bp_head p' = bp_head p \<and> bp_tail p' = bp_tail p"
  using assms by (auto simp: append_fill_def bp_write_def bp_set_data_size_def split: if_splits)

lemma bp_acquire_ring:
  assumes "bp_acquire p = (idx, p')" and "idx \<noteq> invalid_idx"
  shows "unat (bp_tail p' - bp_head p') < unat (bp_tail p - bp_head p)"
  using assms by (auto simp: bp_acquire_def unat_word_diff_Suc(1) split: if_splits)

function append_loop ::
  "bool \<Rightarrow> u64 \<Rightarrow> u32 \<Rightarrow> byte list \<Rightarrow> u32 \<Rightarrow> 'a write_buf_scheme \<Rightarrow> buf_pool \<Rightarrow>
     (bool \<times> 'a write_buf_scheme \<times> buf_pool) option" where
  "append_loop was_empty original_tail original_tail_size data sz w p =
     (if sz = 0 then Some (True, w, p)
      else
        let idx = wb_pending w ! ring_slot (wb_m w) (wb_pending_tail w - 1);
            writable = bp_bsize p - bp_data_size p idx;
            to_copy = min writable sz
        in do {
          p1 \<leftarrow> append_fill idx data to_copy p;
          if sz - to_copy = 0 then Some (True, w, p1)
          else if wb_cap w \<le> wb_pending_tail w - wb_pending_head w
          then append_rollback was_empty original_tail original_tail_size w p1
          else case bp_acquire p1 of (idx', p2) \<Rightarrow>
            if idx' = invalid_idx
            then append_rollback was_empty original_tail original_tail_size w p2
            else append_loop was_empty original_tail original_tail_size
                   (drop (unat to_copy) data) (sz - to_copy) (push_pending idx' w) p2 })"
  by pat_completeness auto
termination
  by (relation "measure (\<lambda>(_, _, _, _, _, w, p). unat (bp_tail p - bp_head p))")
    (auto dest!: append_fill_ring bp_acquire_ring [OF sym])

declare append_loop.simps [simp del]

definition wb_append ::
  "byte list \<Rightarrow> u32 \<Rightarrow> 'a write_buf_scheme \<Rightarrow> buf_pool \<Rightarrow>
     (bool \<times> 'a write_buf_scheme \<times> buf_pool) option" where
  "wb_append data sz w p =
     (if wb_pending_head w = wb_pending_tail w
      then case bp_acquire p of (idx, p1) \<Rightarrow>
        if idx = invalid_idx then Some (False, w, p1)
        else append_loop True (wb_pending_tail w) 0 data sz (push_pending idx w) p1
      else append_loop False (wb_pending_tail w)
             (bp_data_size p (wb_pending w ! ring_slot (wb_m w) (wb_pending_tail w - 1)))
             data sz w p)"

text \<open>The loop of \<^verbatim>\<open>prepend\<close>: \<open>i\<close> runs from \<open>new_head\<close> up to the old head.\<close>

function prepend_loop ::
  "u64 \<Rightarrow> u64 \<Rightarrow> byte list \<Rightarrow> u32 \<Rightarrow> 'a write_buf_scheme \<Rightarrow> buf_pool \<Rightarrow>
     (bool \<times> 'a write_buf_scheme \<times> buf_pool) option" where
  "prepend_loop new_head i data sz w p =
     (if i = wb_pending_head w then Some (True, w\<lparr>wb_pending_head := new_head\<rparr>, p)
      else case bp_acquire p of (idx, p1) \<Rightarrow>
        if idx = invalid_idx
        then do { p2 \<leftarrow> release_range (wb_pending w) (wb_m w) new_head i p1; Some (False, w, p2) }
        else
          let to_copy = min sz (bp_bsize p1)
          in do {
            p2 \<leftarrow> bp_write idx 0 (take (unat to_copy) data) p1;
            prepend_loop new_head (i + 1) (drop (unat to_copy) data) (sz - to_copy)
              (w\<lparr>wb_pending := (wb_pending w)[ring_slot (wb_m w) i := idx]\<rparr>)
              (bp_set_data_size idx to_copy p2) })"
  by pat_completeness auto
termination
  by (relation "measure (\<lambda>(_, i, _, _, w, p). unat (wb_pending_head w - i))")
    (auto simp: unat_word_diff_Suc(1))

declare prepend_loop.simps [simp del]

definition wb_prepend ::
  "byte list \<Rightarrow> u32 \<Rightarrow> 'a write_buf_scheme \<Rightarrow> buf_pool \<Rightarrow>
     (bool \<times> 'a write_buf_scheme \<times> buf_pool) option" where
  "wb_prepend data sz w p =
     (let block_to_write = (sz + bp_bsize p - 1) div bp_bsize p;
          pending_count = wb_pending_tail w - wb_pending_head w
      in if wb_cap w - pending_count < ucast block_to_write then Some (False, w, p)
         else let new_head = wb_pending_head w - ucast block_to_write
              in prepend_loop new_head new_head data sz w p)"


section \<open>Abstraction and invariant\<close>

definition wb_plist :: "'a write_buf_scheme \<Rightarrow> u32 list" where
  "wb_plist w = ring_list (wb_pending w) (wb_m w) (wb_pending_head w) (wb_pending_tail w)"

definition wb_slist :: "'a write_buf_scheme \<Rightarrow> u32 list" where
  "wb_slist w = ring_list (wb_sendq w) (wb_m w) (wb_send_head w) (wb_send_tail w)"

definition wb_shape :: "'a write_buf_scheme \<Rightarrow> bool" where
  "wb_shape w \<longleftrightarrow>
     (\<exists>k < 31. wb_capacity w = 2 ^ k \<and> wb_mask w = mask k \<and>
        length (wb_pending w) = 2 ^ k \<and> length (wb_sendq w) = 2 ^ k) \<and>
     ring_ok (wb_pending w) (wb_m w) (wb_pending_head w) (wb_pending_tail w) \<and>
     ring_ok (wb_sendq w) (wb_m w) (wb_send_head w) (wb_send_tail w)"

text \<open>What the shape says of the \<^verbatim>\<open>uint64_t\<close> capacity and of the two rings.\<close>

lemma wb_cap_unat:
  "wb_shape w \<Longrightarrow> unat (wb_cap w) = length (wb_pending w)"
  "wb_shape w \<Longrightarrow> length (wb_sendq w) = length (wb_pending w)"
  by (auto simp: wb_shape_def scast_pow2 unat_pow2)

lemma wb_pending_bound:
  assumes "wb_shape w"
  shows "length (wb_pending w) < 2 ^ 31"
proof -
  obtain k where "k < 31" "length (wb_pending w) = 2 ^ k" using assms by (auto simp: wb_shape_def)
  moreover from this(1) have "(2::nat) ^ k < 2 ^ 31" by (rule power_strict_increasing) simp
  ultimately show ?thesis by simp
qed

lemma wb_rings:
  assumes "wb_shape w"
  shows "ring_ok (wb_pending w) (wb_m w) (wb_pending_head w) (wb_pending_tail w)"
    and "ring_ok (wb_sendq w) (wb_m w) (wb_send_head w) (wb_send_tail w)"
  using assms by (simp_all add: wb_shape_def)

lemma wb_plist_length: "length (wb_plist w) = unat (wb_pending_tail w - wb_pending_head w)"
  by (simp add: wb_plist_def)

lemma wb_plist_last:
  assumes "wb_plist w \<noteq> []"
  shows "wb_pending w ! ring_slot (wb_m w) (wb_pending_tail w - 1) = last (wb_plist w)"
proof -
  have "wb_pending_head w \<noteq> wb_pending_tail w"
    using assms by (simp add: wb_plist_def ring_list_Nil_iff)
  then show ?thesis
    using ring_list_pop_back [of "wb_pending_head w" "wb_pending_tail w" "wb_pending w" "wb_m w"]
    by (simp add: wb_plist_def)
qed

lemma push_pending_ok:
  assumes "wb_shape w" and "length (wb_plist w) < length (wb_pending w)"
  shows "wb_shape (push_pending i w)" and "wb_plist (push_pending i w) = wb_plist w @ [i]"
    and "wb_slist (push_pending i w) = wb_slist w"
    and "wb_pending_head (push_pending i w) = wb_pending_head w"
    and "wb_pending_tail (push_pending i w) = wb_pending_tail w + 1"
    and "length (wb_pending (push_pending i w)) = length (wb_pending w)"
proof -
  note ok = wb_rings [OF assms(1)]
  have lt: "unat (wb_pending_tail w - wb_pending_head w) < length (wb_pending w)"
    using assms(2) by (simp add: wb_plist_length)
  show "wb_shape (push_pending i w)"
    using assms(1) ring_ok_push(1) [OF ok(1) lt] by (simp add: push_pending_def wb_shape_def)
  show "wb_plist (push_pending i w) = wb_plist w @ [i]"
    using ring_list_push [OF ok(1) lt] by (simp add: push_pending_def wb_plist_def)
qed (simp_all add: push_pending_def wb_slist_def)

lemma wb_truncate:
  assumes "wb_shape w" and "n \<le> length (wb_plist w)" and "t = wb_pending_head w + of_nat n"
  shows "wb_shape (w\<lparr>wb_pending_tail := t\<rparr>)" and "wb_plist (w\<lparr>wb_pending_tail := t\<rparr>) = take n (wb_plist w)"
proof -
  note ok = wb_rings [OF assms(1)]
  have le: "n \<le> unat (wb_pending_tail w - wb_pending_head w)"
    using assms(2) by (simp add: wb_plist_length)
  show "wb_shape (w\<lparr>wb_pending_tail := t\<rparr>)"
    using assms(1,3) ring_ok_take [OF ok(1) le] by (simp add: wb_shape_def)
  show "wb_plist (w\<lparr>wb_pending_tail := t\<rparr>) = take n (wb_plist w)"
    using assms(3) ring_list_take [OF le] by (simp add: wb_plist_def)
qed

lemma release_range_eq: "release_range q m h t p = release_all bp_release (ring_list q m h t) p"
proof (induction q m h t p rule: release_range.induct)
  case (1 q m h t p)
  show ?case
  proof (cases "h = t")
    case True
    then show ?thesis by (simp add: release_range.simps ring_list_def)
  next
    case False
    with 1 show ?thesis
      by (subst release_range.simps, subst ring_list_pop [OF False])
        (simp cong: Option.bind_cong)
  qed
qed

lemma release_back_eq: "release_back q m t t0 p = release_all bp_release (rev (ring_list q m t0 t)) p"
proof (induction q m t t0 p rule: release_back.induct)
  case (1 q m t t0 p)
  show ?case
  proof (cases "t = t0")
    case True
    then show ?thesis by (simp add: release_back.simps ring_list_def)
  next
    case False
    with 1 show ?thesis
      by (subst release_back.simps, subst ring_list_pop_back [OF not_sym [OF False]])
        (simp cong: Option.bind_cong)
  qed
qed

lemma append_fill_ok:
  assumes own: "bp_owned p held" and i: "i \<in> set held"
    and n: "unat n \<le> unat (bp_bsize p) - unat (bp_data_size p i)" "unat n \<le> length data"
  shows "\<exists>p1. append_fill i data n p = Some p1 \<and> bp_owned p1 held \<and> bp_free p1 = bp_free p \<and>
    bp_frame {i} p p1 \<and> bp_block p1 i = bp_block p i @ take (unat n) data \<and>
    unat (bp_data_size p1 i) = unat (bp_data_size p i) + unat n"
proof (cases "0 < n")
  case False
  then have "n = 0" by (simp add: word_gt_0)
  then show ?thesis using own by (simp add: append_fill_def)
next
  case True
  note D = bp_ownedD [OF own] and bd = bp_size_bound [OF own]
  let ?d = "bp_data_size p i"
  have le: "unat ?d \<le> unat (bp_bsize p)" using bd(3) D(2) i by blast
  have sum: "unat (?d + n) = unat ?d + unat n"
    using n(1) le bd(1) by (simp add: unat_word_ariths)
  have "unat ?d + length (take (unat n) data) \<le> unat (bp_bsize p)"
    using n le by simp
  moreover have "unat (?d + n) = unat ?d + length (take (unat n) data)"
    using n(2) sum by simp
  ultimately obtain p1 p' where "bp_write i (unat ?d) (take (unat n) data) p = Some p1"
      "p' = bp_set_data_size i (?d + n) p1" "bp_inv p'" "bp_free p' = bp_free p" "bp_frame {i} p p'"
      "bp_data_size p' i = ?d + n" "bp_block p' i = bp_block p i @ take (unat n) data"
    using bp_fill [OF D(1) D(2) [OF i] D(3) [OF i]] by blast
  with True sum own show ?thesis
    by (auto simp: append_fill_def intro: bp_owned_cong)
qed

lemma append_rollback_ok:
  assumes sh: "wb_shape w" and own: "bp_owned p (wb_plist w @ rest)"
    and n: "n \<le> length (wb_plist w)" "was_empty \<longleftrightarrow> n = 0" "otail = wb_pending_head w + of_nat n"
    and osz: "0 < n \<Longrightarrow> unat osz \<le> unat (bp_data_size p (wb_plist w ! (n - 1)))"
  shows "\<exists>p'. append_rollback was_empty otail osz w p = Some (False, w\<lparr>wb_pending_tail := otail\<rparr>, p') \<and>
    bp_owned p' (take n (wb_plist w) @ rest) \<and> bp_frame (set (wb_plist w)) p p' \<and>
    map (bp_block p') (take n (wb_plist w)) =
      (if n = 0 then [] else map (bp_block p) (take (n - 1) (wb_plist w)) @
         [take (unat osz) (bp_block p (wb_plist w ! (n - 1)))])"
proof -
  let ?pl = "wb_plist w"
  define p1 where "p1 = (if was_empty then p
    else bp_set_data_size (wb_pending w ! ring_slot (wb_m w) (otail - 1)) osz p)"
  have tl: "wb_plist (w\<lparr>wb_pending_tail := otail\<rparr>) = take n ?pl"
    by (rule wb_truncate [OF sh n(1) n(3)])
  have idx: "wb_pending w ! ring_slot (wb_m w) (otail - 1) = ?pl ! (n - 1)" if "0 < n"
  proof -
    have "take n ?pl \<noteq> []" using that n(1) by auto
    then show ?thesis
      using wb_plist_last [of "w\<lparr>wb_pending_tail := otail\<rparr>"] tl that n(1)
      by (simp add: last_conv_nth min_def)
  qed
  have p1: "bp_owned p1 (?pl @ rest)" "bp_frame (if n = 0 then {} else {?pl ! (n - 1)}) p p1"
      "0 < n \<Longrightarrow> bp_block p1 (?pl ! (n - 1)) = take (unat osz) (bp_block p (?pl ! (n - 1)))"
    using own idx n(1,2) osz set_size_truncate [OF own, of "?pl ! (n - 1)" osz]
    by (auto simp: p1_def nth_mem)
  have rl: "ring_list (wb_pending w) (wb_m w) otail (wb_pending_tail w) = drop n ?pl"
    using n(1) unfolding n(3) wb_plist_def by (intro ring_list_drop) simp
  have "bp_owned p1 (rev (drop n ?pl) @ (take n ?pl @ rest))"
    using p1(1) by (rule bp_owned_perm [THEN iffD1, rotated])
      (metis append_take_drop_id mset_append mset_rev union_assoc union_commute)
  then obtain p' where p': "release_all bp_release (rev (drop n ?pl)) p1 = Some p'"
      "bp_owned p' (take n ?pl @ rest)" "bp_frame (set (drop n ?pl)) p1 p'"
    using bp_owned_release_all by fastforce
  have res: "append_rollback was_empty otail osz w p = Some (False, w\<lparr>wb_pending_tail := otail\<rparr>, p')"
    using p'(1) by (simp add: append_rollback_def release_back_eq rl p1_def)
  have fr: "bp_frame (set ?pl) p p'"
  proof -
    have "(if n = 0 then {} else {?pl ! (n - 1)}) \<union> set (drop n ?pl) \<subseteq> set ?pl"
      using n(1) by (auto dest: in_set_dropD)
    then show ?thesis using bp_frame_trans [OF p1(2) p'(3)] bp_frame_mono by blast
  qed
  have blocks: "map (bp_block p') (take n ?pl) = map (bp_block p1) (take n ?pl)"
  proof -
    have "set (take n ?pl) \<inter> set (drop n ?pl) = {}"
      using bp_ownedD(5) [OF own] by (simp add: set_take_disj_set_drop_if_distinct)
    moreover have "set (take n ?pl) \<subseteq> bp_blocks p1"
      using bp_ownedD(2) [OF p1(1)] by (auto dest: in_set_takeD)
    ultimately show ?thesis using p'(3) by (auto intro!: bp_frame_block(1))
  qed
  have "map (bp_block p1) (take n ?pl) = map (bp_block p) (take (n - 1) ?pl) @
         [take (unat osz) (bp_block p (?pl ! (n - 1)))]" if pos: "0 < n"
  proof -
    have split: "take n ?pl = take (n - 1) ?pl @ [?pl ! (n - 1)]"
      using pos n(1) take_Suc_conv_app_nth [of "n - 1" ?pl] by simp
    have "distinct (take n ?pl)" using bp_ownedD(5) [OF own] by simp
    then have "?pl ! (n - 1) \<notin> set (take (n - 1) ?pl)" using split by simp
    then have "map (bp_block p1) (take (n - 1) ?pl) = map (bp_block p) (take (n - 1) ?pl)"
      using p1(2) pos bp_ownedD(2) [OF own]
      by (auto intro!: bp_frame_block(1) dest: in_set_takeD)
    then show ?thesis using split p1(3) [OF pos] by simp
  qed
  then have "map (bp_block p') (take n ?pl) =
      (if n = 0 then [] else map (bp_block p) (take (n - 1) ?pl) @
         [take (unat osz) (bp_block p (?pl ! (n - 1)))])"
    by (simp only: blocks) simp
  then show ?thesis using res p'(2) fr by blast
qed


section \<open>The loop of append\<close>

text \<open>The blocks \<open>n\<close> bytes need beyond a tail block with \<open>room\<close> free bytes.\<close>

definition append_need :: "nat \<Rightarrow> nat \<Rightarrow> nat \<Rightarrow> nat" where
  "append_need bs room n = (n - room + bs - 1) div bs"

lemma append_need_0: "0 < bs \<Longrightarrow> n \<le> room \<Longrightarrow> append_need bs room n = 0"
  by (simp add: append_need_def)

lemma append_need_Suc:
  assumes "0 < bs" and "room < n"
  shows "append_need bs room n = Suc (append_need bs bs (n - room))"
proof -
  have "n - room + bs - 1 = (n - room - 1) + bs" using assms by arith
  then have "append_need bs room n = Suc ((n - room - 1) div bs)"
    using assms(1) by (simp only: append_need_def div_add_self2)
  also have "(n - room - 1) div bs = (n - room - bs + bs - 1) div bs"
  proof (cases "n - room < bs")
    case True
    then have "n - room - bs = 0" "n - room - 1 < bs" by arith+
    then show ?thesis using assms(1) by simp
  next
    case False
    then have "n - room - bs + bs = n - room" by arith
    then show ?thesis by (simp only:)
  qed
  finally show ?thesis by (simp only: append_need_def)
qed

definition wb_pending_only :: "'a write_buf_scheme \<Rightarrow> 'a write_buf_scheme \<Rightarrow> bool" where
  "wb_pending_only w w' \<longleftrightarrow>
     wb_sendq w' = wb_sendq w \<and> wb_send_head w' = wb_send_head w \<and> wb_send_tail w' = wb_send_tail w \<and>
     wb_capacity w' = wb_capacity w \<and> wb_mask w' = wb_mask w \<and>
     length (wb_pending w') = length (wb_pending w) \<and> write_buf.more w' = write_buf.more w"

lemma wb_pending_only_refl [simp]: "wb_pending_only w w"
  and wb_pending_only_push [simp]: "wb_pending_only w (push_pending i w)"
  and wb_pending_only_tail [simp]: "wb_pending_only w (w\<lparr>wb_pending_tail := t\<rparr>)"
  and wb_pending_only_head [simp]: "wb_pending_only w (w\<lparr>wb_pending_head := t\<rparr>)"
  by (simp_all add: wb_pending_only_def push_pending_def)

lemma wb_pending_only_trans: "wb_pending_only w w' \<Longrightarrow> wb_pending_only w' w'' \<Longrightarrow> wb_pending_only w w''"
  by (simp add: wb_pending_only_def)

lemma wb_pending_only_slist: "wb_pending_only w w' \<Longrightarrow> wb_slist w' = wb_slist w"
  by (simp add: wb_pending_only_def wb_slist_def)

definition append_post ::
  "byte list \<Rightarrow> u32 \<Rightarrow> nat \<Rightarrow> u32 list \<Rightarrow> 'a write_buf_scheme \<Rightarrow> buf_pool \<Rightarrow>
     bool \<Rightarrow> 'a write_buf_scheme \<Rightarrow> buf_pool \<Rightarrow> bool" where
  "append_post data osz n rest w p b w' p' \<longleftrightarrow>
     wb_shape w' \<and> wb_pending_only w w' \<and> bp_owned p' (wb_plist w' @ rest) \<and>
     bp_frame (set (wb_plist w) \<union> set (bp_free p)) p p' \<and>
     (if b then bp_bytes p' (wb_plist w') = bp_bytes p (wb_plist w) @ data
      else wb_plist w' = take n (wb_plist w) \<and>
        map (bp_block p') (take n (wb_plist w)) =
          (if n = 0 then [] else map (bp_block p) (take (n - 1) (wb_plist w)) @
             [take (unat osz) (bp_block p (wb_plist w ! (n - 1)))]))"

text \<open>Extending the tail block keeps what the rollback restores.\<close>

lemma append_extend_blocks:
  assumes own: "bp_owned p (pl @ rest)" and own1: "bp_owned p1 (pl @ rest)" and ne: "pl \<noteq> []"
    and n: "0 < n" "n \<le> length pl" and osz: "unat osz \<le> unat (bp_data_size p (pl ! (n - 1)))"
    and fr: "bp_frame {last pl} p p1" and ext: "bp_block p1 (last pl) = bp_block p (last pl) @ xs"
  shows "map (bp_block p1) (take (n - 1) pl) = map (bp_block p) (take (n - 1) pl)"
    and "take (unat osz) (bp_block p1 (pl ! (n - 1))) = take (unat osz) (bp_block p (pl ! (n - 1)))"
    and "unat osz \<le> unat (bp_data_size p1 (pl ! (n - 1)))"
proof -
  have mem: "pl ! (n - 1) \<in> set pl" using n by (intro nth_mem) simp
  have len: "length (bp_block q i) = unat (bp_data_size q i)"
    if "bp_owned q (pl @ rest)" "i \<in> set pl" for q i
    using that bp_ownedD(1,2) [OF that(1)] by (intro length_bp_block) auto
  have "\<exists>ys. bp_block p1 i = bp_block p i @ ys" if "i \<in> set pl" for i
    using that ext bp_ownedD(2) [OF own, of i] bp_frame_block(1) [OF fr, of i]
    by (cases "i = last pl") auto
  from this [OF mem] osz len [OF own mem] len [OF own1 mem]
  show "take (unat osz) (bp_block p1 (pl ! (n - 1))) = take (unat osz) (bp_block p (pl ! (n - 1)))"
    and "unat osz \<le> unat (bp_data_size p1 (pl ! (n - 1)))"
    by auto
  have "last pl \<notin> set (take (n - 1) pl)"
    using bp_ownedD(5) [OF own] ne n
    by (auto simp: last_conv_nth in_set_conv_nth nth_eq_iff_index_eq)
  then show "map (bp_block p1) (take (n - 1) pl) = map (bp_block p) (take (n - 1) pl)"
    using bp_ownedD(2) [OF own] by (auto intro!: bp_frame_block(1) [OF fr] dest: in_set_takeD)
qed

text \<open>The tail block has been filled and more bytes remain, but no block can be added.\<close>

lemma append_loop_fail:
  assumes sh: "wb_shape w" and own: "bp_owned p (wb_plist w @ rest)" and ne: "wb_plist w \<noteq> []"
    and n: "n \<le> length (wb_plist w)" "was_empty \<longleftrightarrow> n = 0" "otail = wb_pending_head w + of_nat n"
    and osz: "0 < n \<Longrightarrow> unat osz \<le> unat (bp_data_size p (wb_plist w ! (n - 1)))"
    and p1: "bp_owned p1 (wb_plist w @ rest)" "bp_frame {last (wb_plist w)} p p1"
      "bp_block p1 (last (wb_plist w)) = bp_block p (last (wb_plist w)) @ xs"
  shows "\<exists>w' p'. append_rollback was_empty otail osz w p1 = Some (False, w', p') \<and>
           append_post data osz n rest w p False w' p'"
proof -
  let ?pl = "wb_plist w"
  note ext = append_extend_blocks [OF own p1(1) ne _ n(1) osz p1(2,3)]
  obtain p' where p': "append_rollback was_empty otail osz w p1 = Some (False, w\<lparr>wb_pending_tail := otail\<rparr>, p')"
      "bp_owned p' (take n ?pl @ rest)" "bp_frame (set ?pl) p1 p'"
      "map (bp_block p') (take n ?pl) = (if n = 0 then [] else map (bp_block p1) (take (n - 1) ?pl) @
         [take (unat osz) (bp_block p1 (?pl ! (n - 1)))])"
    using append_rollback_ok [OF sh p1(1) n ext(3)] by blast
  have "bp_frame (set ?pl \<union> set (bp_free p)) p p'"
    by (rule bp_frame_mono [OF bp_frame_trans [OF p1(2) p'(3)]]) (use ne in auto)
  then have "append_post data osz n rest w p False (w\<lparr>wb_pending_tail := otail\<rparr>) p'"
    using wb_truncate [OF sh n(1,3)] p'(2,4) ext(1,2) by (simp add: append_post_def)
  with p'(1) show ?thesis by blast
qed

text \<open>One more block was added and the loop went on from there.\<close>

lemma append_loop_step:
  assumes own: "bp_owned p (wb_plist w @ rest)" and ne: "wb_plist w \<noteq> []"
    and n: "n \<le> length (wb_plist w)"
    and osz: "0 < n \<Longrightarrow> unat osz \<le> unat (bp_data_size p (wb_plist w ! (n - 1)))"
    and p1: "bp_owned p1 (wb_plist w @ rest)" "bp_frame {last (wb_plist w)} p p1"
      "bp_block p1 (last (wb_plist w)) = bp_block p (last (wb_plist w)) @ xs"
    and free: "bp_free p = x # bp_free p2" and p2: "bp_frame {} p1 p2" "bp_data_size p2 x = 0"
    and w2: "wb_plist w2 = wb_plist w @ [x]" "wb_pending_only w w2"
    and post: "append_post ys osz n rest w2 p2 b w' p'"
  shows "append_post (xs @ ys) osz n rest w p b w' p'"
proof -
  let ?pl = "wb_plist w"
  note ext = append_extend_blocks [OF own p1(1) ne _ n osz p1(2,3)]
  have sub: "set ?pl \<subseteq> bp_blocks p" "set ?pl \<subseteq> bp_blocks p1"
    using bp_ownedD(2) [OF own] bp_ownedD(2) [OF p1(1)] by auto
  have same: "bp_block p2 i = bp_block p1 i" if "i \<in> set ?pl" for i
    using bp_frame_block(1) [OF p2(1)] that sub by blast
  have fr: "bp_frame (set ?pl \<union> set (bp_free p)) p p'"
  proof -
    have "bp_frame (set (wb_plist w2) \<union> set (bp_free p2)) p2 p'"
      using post by (simp add: append_post_def)
    from bp_frame_trans [OF bp_frame_trans [OF p1(2) p2(1)] this] show ?thesis
      by (rule bp_frame_mono) (use ne w2 free in auto)
  qed
  have "bp_bytes p2 ?pl = bp_bytes p1 ?pl"
    using bp_owned_frame_bytes [OF p2(1) sub(2)] by simp
  also have "\<dots> = bp_bytes p ?pl @ xs"
    using bp_ownedD(5) [OF own] sub(1) p1(2,3) ne by (intro bp_bytes_extend_last) auto
  finally have bytes: "bp_bytes p2 (wb_plist w2) = bp_bytes p ?pl @ xs"
    using w2(1) p2(2) by (simp add: bp_block_empty)
  have tk: "take n (wb_plist w2) = take n ?pl" "take (n - 1) (wb_plist w2) = take (n - 1) ?pl"
    using n w2(1) by simp_all
  have restored: "map (bp_block p2) (take (n - 1) ?pl) = map (bp_block p) (take (n - 1) ?pl)"
      "take (unat osz) (bp_block p2 (wb_plist w2 ! (n - 1))) = take (unat osz) (bp_block p (?pl ! (n - 1)))"
    if "0 < n"
  proof -
    have "map (bp_block p2) (take (n - 1) ?pl) = map (bp_block p1) (take (n - 1) ?pl)"
      using same by (auto dest: in_set_takeD)
    then show "map (bp_block p2) (take (n - 1) ?pl) = map (bp_block p) (take (n - 1) ?pl)"
      using ext(1) [OF that that] by (simp only:)
    have "n - 1 < length ?pl" using that n by linarith
    then have "wb_plist w2 ! (n - 1) = ?pl ! (n - 1)" "?pl ! (n - 1) \<in> set ?pl"
      using w2(1) by (simp_all add: nth_append)
    then show "take (unat osz) (bp_block p2 (wb_plist w2 ! (n - 1))) = take (unat osz) (bp_block p (?pl ! (n - 1)))"
      using ext(2) [OF that that] same by simp
  qed
  show ?thesis
    using post fr bytes tk restored wb_pending_only_trans [OF w2(2)]
    by (auto simp: append_post_def split: if_splits)
qed


lemma append_loop_ok:
  assumes "wb_shape w" and "bp_owned p (wb_plist w @ rest)" and "wb_plist w \<noteq> []"
    and "length data = unat sz"
    and "n \<le> length (wb_plist w)" and "was_empty \<longleftrightarrow> n = 0" and "otail = wb_pending_head w + of_nat n"
    and "0 < n \<Longrightarrow> unat osz \<le> unat (bp_data_size p (wb_plist w ! (n - 1)))"
  shows "\<exists>b w' p'. append_loop was_empty otail osz data sz w p = Some (b, w', p') \<and>
    append_post data osz n rest w p b w' p' \<and>
    (b \<longleftrightarrow> append_need (unat (bp_bsize p)) (unat (bp_bsize p) - unat (bp_data_size p (last (wb_plist w))))
             (unat sz) \<le> min (length (wb_pending w) - length (wb_plist w)) (length (bp_free p)))"
  using assms
proof (induction "length (bp_free p)" arbitrary: w p data sz rule: less_induct)
  case (less p w data sz)
  note sh = less.prems(1) and own = less.prems(2) and ne = less.prems(3) and len = less.prems(4)
    and n = less.prems(5-7) and osz = less.prems(8)
  let ?pl = "wb_plist w"
  let ?idx = "last ?pl"
  let ?bs = "unat (bp_bsize p)" and ?d = "unat (bp_data_size p (last (wb_plist w)))"
  define tc where "tc = min (bp_bsize p - bp_data_size p ?idx) sz"
  have bd: "0 < ?bs" "?d \<le> ?bs"
    using bp_size_bound [OF own] bp_ownedD(2) [OF own, of ?idx] ne by auto
  have tc: "unat tc = min (?bs - ?d) (unat sz)"
    using bd(2) by (simp add: tc_def min_def unat_sub word_le_nat_alt)
  have idx: "wb_pending w ! ring_slot (wb_m w) (wb_pending_tail w - 1) = ?idx"
    by (rule wb_plist_last [OF ne])
  have r: "unat (sz - tc) = unat sz - unat tc"
    using tc by (simp add: unat_sub word_le_nat_alt)
  obtain p1 where p1: "append_fill ?idx data tc p = Some p1" "bp_owned p1 (?pl @ rest)"
      "bp_free p1 = bp_free p" "bp_frame {?idx} p p1"
      "bp_block p1 ?idx = bp_block p ?idx @ take (unat tc) data"
    using append_fill_ok [OF own, of ?idx tc data] ne tc len by auto
  have unfold: "append_loop was_empty otail osz data sz w p =
      (if sz = 0 then Some (True, w, p)
       else if sz - tc = 0 then Some (True, w, p1)
       else if wb_cap w \<le> wb_pending_tail w - wb_pending_head w then append_rollback was_empty otail osz w p1
       else case bp_acquire p1 of (idx', p2) \<Rightarrow>
            if idx' = invalid_idx then append_rollback was_empty otail osz w p2
            else append_loop was_empty otail osz (drop (unat tc) data) (sz - tc) (push_pending idx' w) p2)"
    by (subst append_loop.simps) (simp only: idx Let_def tc_def [symmetric] p1(1) bind.bind_lunit)
  have room: "?bs - ?d < unat sz" if "sz - tc \<noteq> 0"
  proof -
    have "unat sz - unat tc \<noteq> 0" using that r by (metis unat_eq_zero)
    then show ?thesis unfolding tc by linarith
  qed
  consider "sz - tc = 0" | "sz - tc \<noteq> 0" "length (wb_pending w) \<le> length ?pl \<or> bp_free p = []"
    | x xs where "sz - tc \<noteq> 0" "length ?pl < length (wb_pending w)" "bp_free p = x # xs"
    by (cases "bp_free p"; cases "length (wb_pending w) \<le> length ?pl"; cases "sz - tc = 0") auto
  then show ?case
  proof cases
    case 1
    then have "tc = sz" by simp
    then have "append_loop was_empty otail osz data sz w p = Some (True, w, p1)"
      using 1 p1(1) by (auto simp: unfold append_fill_def)
    moreover have "bp_bytes p1 ?pl = bp_bytes p ?pl @ data"
      using bp_bytes_extend_last [OF ne _ _ p1(4,5)] bp_ownedD(2,5) [OF own] \<open>tc = sz\<close> len by auto
    then have "append_post data osz n rest w p True w p1"
      using sh p1(2,4) ne by (auto simp: append_post_def intro: bp_frame_mono)
    moreover have "append_need ?bs (?bs - ?d) (unat sz) = 0"
      using bd tc \<open>tc = sz\<close> by (intro append_need_0) auto
    ultimately show ?thesis by auto
  next
    case 2
    note room = room [OF 2(1)]
    have "wb_cap w \<le> wb_pending_tail w - wb_pending_head w \<or> bp_acquire p1 = (invalid_idx, p1)"
      using 2(2) p1(3) wb_cap_unat(1) [OF sh]
      by (auto simp: word_le_nat_alt wb_plist_length bp_acquire_none)
    then have "append_loop was_empty otail osz data sz w p = append_rollback was_empty otail osz w p1"
      using 2(1) room by (auto simp: unfold)
    moreover obtain w' p' where "append_rollback was_empty otail osz w p1 = Some (False, w', p')"
        "append_post data osz n rest w p False w' p'"
      using append_loop_fail [OF sh own ne n osz p1(2,4,5)] by blast
    ultimately show ?thesis
      using append_need_Suc [OF bd(1) room] 2(2) by auto
  next
    case (3 x xs)
    note room = room [OF 3(1)]
    obtain p2 where p2: "bp_acquire p1 = (x, p2)" "bp_owned p2 (x # ?pl @ rest)" "bp_free p2 = xs"
        "bp_frame {} p1 p2" "x \<noteq> invalid_idx" "bp_data_size p2 x = 0"
      using bp_owned_acquire [OF p1(2)] p1(3) 3(3) by auto
    let ?w2 = "push_pending x w"
    note w2 = push_pending_ok [OF sh 3(2), of x]
    have bs2: "bp_bsize p2 = bp_bsize p" using p1(4) p2(4) by (simp add: bp_frame_def)
    have own2: "bp_owned p2 (wb_plist ?w2 @ rest)"
      using p2(2) by (rule bp_owned_perm [THEN iffD1, rotated]) (simp add: w2(2))
    have osz2: "unat osz \<le> unat (bp_data_size p2 (wb_plist ?w2 ! (n - 1)))" if "0 < n"
    proof -
      have "n - 1 < length ?pl" using that n(1) by linarith
      then have "wb_plist ?w2 ! (n - 1) = ?pl ! (n - 1)" "?pl ! (n - 1) \<in> bp_blocks p1"
        using w2(2) bp_ownedD(2) [OF p1(2)] by (simp_all add: nth_append)
      then show ?thesis
        using append_extend_blocks(3) [OF own p1(2) ne that n(1) osz p1(4,5)] that
          bp_frame_block(2) [OF p2(4)] by simp
    qed
    have cap: "\<not> wb_cap w \<le> wb_pending_tail w - wb_pending_head w"
      using 3(2) wb_cap_unat(1) [OF sh] by (simp add: word_le_nat_alt wb_plist_length)
    have go: "append_loop was_empty otail osz data sz w p =
        append_loop was_empty otail osz (drop (unat tc) data) (sz - tc) ?w2 p2"
      using 3(1) room cap p2(1,5) by (auto simp: unfold)
    obtain b w' p' where IH:
        "append_loop was_empty otail osz (drop (unat tc) data) (sz - tc) ?w2 p2 = Some (b, w', p')"
        "append_post (drop (unat tc) data) osz n rest ?w2 p2 b w' p'"
        "b \<longleftrightarrow> append_need ?bs ?bs (unat (sz - tc)) \<le>
           min (length (wb_pending w) - Suc (length ?pl)) (length xs)"
      using less.hyps [of p2 ?w2 "drop (unat tc) data" "sz - tc"] 3(3) p2(3,6) w2 own2 osz2 n len r bs2
      by auto
    have "append_post (take (unat tc) data @ drop (unat tc) data) osz n rest w p b w' p'"
      by (rule append_loop_step [OF own ne n(1) osz p1(2,4,5) _ p2(4,6) w2(2) _ IH(2)])
        (use 3(3) p2(3) in auto)
    then have post: "append_post data osz n rest w p b w' p'" by simp
    have "unat (sz - tc) = unat sz - (?bs - ?d)" using tc room r by simp
    then have "append_need ?bs (?bs - ?d) (unat sz) = Suc (append_need ?bs ?bs (unat (sz - tc)))"
      using append_need_Suc [OF bd(1) room] by simp
    then have "b \<longleftrightarrow> append_need ?bs (?bs - ?d) (unat sz) \<le>
        min (length (wb_pending w) - length ?pl) (length (bp_free p))"
      using IH(3) 3(2,3) by (simp only: list.size) arith
    then show ?thesis using go IH(1) post by auto
  qed
qed


section \<open>Append\<close>

text \<open>
  When \<open>n\<close> more bytes fit: enough room in the pending ring and enough free blocks. An append to an
  empty buffer always takes a block, even for no bytes.
\<close>

definition append_fits :: "'a write_buf_scheme \<Rightarrow> buf_pool \<Rightarrow> nat \<Rightarrow> bool" where
  "append_fits w p n \<longleftrightarrow>
     (let pl = wb_plist w; cap = length (wb_pending w); bs = unat (bp_bsize p) in
      if pl = [] then max 1 (append_need bs 0 n) \<le> min cap (length (bp_free p))
      else append_need bs (bs - unat (bp_data_size p (last pl))) n
             \<le> min (cap - length pl) (length (bp_free p)))"

lemma wb_pending_room: "wb_shape w \<Longrightarrow> 0 < length (wb_pending w)"
  by (auto simp: wb_shape_def)

lemma wb_plist_tail: "wb_pending_tail w = wb_pending_head w + of_nat (length (wb_plist w))"
  by (simp add: wb_plist_length)

lemma wb_plist_empty: "wb_plist w = [] \<longleftrightarrow> wb_pending_head w = wb_pending_tail w"
  by (simp add: wb_plist_def ring_list_Nil_iff)

definition append_result ::
  "byte list \<Rightarrow> u32 list \<Rightarrow> 'a write_buf_scheme \<Rightarrow> buf_pool \<Rightarrow> bool \<Rightarrow> 'a write_buf_scheme \<Rightarrow> buf_pool \<Rightarrow> bool"
where
  "append_result data rest w p b w' p' \<longleftrightarrow>
     wb_shape w' \<and> wb_pending_only w w' \<and> bp_owned p' (wb_plist w' @ rest) \<and>
     bp_frame (set (wb_plist w) \<union> set (bp_free p)) p p' \<and>
     (if b then bp_bytes p' (wb_plist w') = bp_bytes p (wb_plist w) @ data
      else wb_plist w' = wb_plist w \<and> map (bp_block p') (wb_plist w) = map (bp_block p) (wb_plist w))"

lemma wb_append_nonempty:
  assumes sh: "wb_shape w" and own: "bp_owned p (wb_plist w @ rest)" and len: "length data = unat sz"
    and ne: "wb_plist w \<noteq> []"
  shows "\<exists>b w' p'. wb_append data sz w p = Some (b, w', p') \<and> append_result data rest w p b w' p' \<and>
           (b \<longleftrightarrow> append_fits w p (unat sz))"
proof -
  let ?pl = "wb_plist w"
  let ?n = "length ?pl" and ?osz = "bp_data_size p (last ?pl)"
  have last: "?pl ! (?n - 1) = last ?pl" using ne by (simp add: last_conv_nth)
  have call: "wb_append data sz w p = append_loop False (wb_pending_tail w) ?osz data sz w p"
    using ne by (simp add: wb_append_def wb_plist_empty wb_plist_last)
  have full: "map (bp_block p) (take (?n - 1) ?pl) @ [take (unat ?osz) (bp_block p (?pl ! (?n - 1)))]
      = map (bp_block p) ?pl"
  proof -
    have "length (bp_block p (last ?pl)) = unat ?osz"
      using bp_ownedD(1,2) [OF own] ne by (intro length_bp_block) auto
    then show ?thesis
      using ne last by (cases ?pl rule: rev_cases) (simp_all add: butlast_conv_take [symmetric])
  qed
  obtain b w' p' where "append_loop False (wb_pending_tail w) ?osz data sz w p = Some (b, w', p')"
      "append_post data ?osz ?n rest w p b w' p'"
      "b \<longleftrightarrow> append_need (unat (bp_bsize p)) (unat (bp_bsize p) - unat ?osz) (unat sz)
             \<le> min (length (wb_pending w) - ?n) (length (bp_free p))"
    using append_loop_ok [OF sh own ne len order_refl _ wb_plist_tail, of False ?osz] ne last by auto
  with call full ne show ?thesis
    by (auto simp: append_post_def append_result_def append_fits_def Let_def split: if_splits)
qed

lemma wb_append_empty:
  assumes sh: "wb_shape w" and own: "bp_owned p (wb_plist w @ rest)" and len: "length data = unat sz"
    and nil: "wb_plist w = []"
  shows "\<exists>b w' p'. wb_append data sz w p = Some (b, w', p') \<and> append_result data rest w p b w' p' \<and>
           (b \<longleftrightarrow> append_fits w p (unat sz))"
proof (cases "bp_free p")
  case Nil
  then have "wb_append data sz w p = Some (False, w, p)"
    using nil by (simp add: wb_append_def wb_plist_empty bp_acquire_none)
  then show ?thesis
    using sh own nil Nil by (auto simp: append_result_def append_fits_def)
next
  case (Cons x xs)
  have own0: "bp_owned p rest" using own nil by simp
  obtain p2 where p2: "bp_acquire p = (x, p2)" "bp_owned p2 (x # rest)" "bp_free p2 = xs"
      "bp_frame {} p p2" "x \<noteq> invalid_idx" "bp_data_size p2 x = 0"
    using bp_owned_acquire [OF own0 Cons] by auto
  let ?w2 = "push_pending x w"
  have w2: "wb_shape ?w2" "wb_plist ?w2 = [x]" "wb_pending_head ?w2 = wb_pending_head w"
      "length (wb_pending ?w2) = length (wb_pending w)"
    using push_pending_ok [OF sh, of x] nil wb_pending_room [OF sh] by simp_all
  have bs: "bp_bsize p2 = bp_bsize p" "0 < unat (bp_bsize p)"
    using p2(4) bp_size_bound(2) [OF own0] by (simp_all add: bp_frame_def)
  have call: "wb_append data sz w p = append_loop True (wb_pending_tail w) 0 data sz ?w2 p2"
    using nil p2(1,5) by (simp add: wb_append_def wb_plist_empty)
  obtain b w' p' where res: "append_loop True (wb_pending_tail w) 0 data sz ?w2 p2 = Some (b, w', p')"
      "append_post data 0 0 rest ?w2 p2 b w' p'"
      "b \<longleftrightarrow> append_need (unat (bp_bsize p)) (unat (bp_bsize p)) (unat sz)
             \<le> min (length (wb_pending w) - 1) (length xs)"
    using append_loop_ok [of ?w2 p2 rest data sz 0 True "wb_pending_tail w" 0] w2 p2 len nil bs
    by (auto simp: wb_plist_empty)
  have "bp_frame (set (wb_plist w) \<union> set (bp_free p)) p p'"
  proof -
    have "bp_frame ({} \<union> (set [x] \<union> set xs)) p p'"
      using res(2) w2(2) p2(3) by (intro bp_frame_trans [OF p2(4)]) (simp add: append_post_def)
    then show ?thesis by (rule bp_frame_mono) (use Cons in auto)
  qed
  then have result: "append_result data rest w p b w' p'"
    using res(2) w2(2) nil p2(6) wb_pending_only_trans [OF wb_pending_only_push]
    by (auto simp: append_result_def append_post_def bp_block_empty split: if_splits)
  have "max 1 (append_need (unat (bp_bsize p)) 0 (unat sz)) =
      Suc (append_need (unat (bp_bsize p)) (unat (bp_bsize p)) (unat sz))"
    using bs(2) append_need_Suc [of "unat (bp_bsize p)" 0 "unat sz"] append_need_0
    by (cases "unat sz = 0") simp_all
  moreover obtain c where "length (wb_pending w) = Suc c"
    using wb_pending_room [OF sh] by (auto simp: gr0_conv_Suc)
  ultimately have "b \<longleftrightarrow> append_fits w p (unat sz)"
    using res(3) nil Cons by (simp add: append_fits_def Let_def)
  with result show ?thesis using call res(1) by auto
qed

lemma wb_append_ok:
  assumes "wb_shape w" and "bp_owned p (wb_plist w @ rest)" and "length data = unat sz"
  shows "\<exists>b w' p'. wb_append data sz w p = Some (b, w', p') \<and> append_result data rest w p b w' p' \<and>
           (b \<longleftrightarrow> append_fits w p (unat sz))"
  using wb_append_nonempty [OF assms] wb_append_empty [OF assms] by blast

text \<open>
  C5: \<^verbatim>\<open>append\<close> is all or nothing, and refuses only when it must. It reports success exactly when
  the pending ring and the pool have the blocks the bytes need (counting the room left in the last
  pending block); then the bytes are at the end of the pending ones. When it reports failure the
  pending blocks and their contents are what they were and every block taken on the way is back in
  the pool. Blocks of other holders are untouched in both cases.
\<close>

theorem append_all_or_nothing:
  fixes w :: "'a write_buf_scheme"
  assumes "wb_shape w" and "bp_owned p (wb_plist w @ rest)" and "length data = unat sz"
  shows "\<exists>b w' p'. wb_append data sz w p = Some (b, w', p') \<and>
    wb_shape w' \<and> bp_owned p' (wb_plist w' @ rest) \<and> wb_slist w' = wb_slist w \<and>
    map (bp_block p') rest = map (bp_block p) rest \<and>
    (b \<longleftrightarrow> append_fits w p (unat sz)) \<and>
    (b \<longrightarrow> bp_bytes p' (wb_plist w') = bp_bytes p (wb_plist w) @ data) \<and>
    (\<not> b \<longrightarrow> wb_plist w' = wb_plist w \<and> map (bp_block p') (wb_plist w) = map (bp_block p) (wb_plist w) \<and>
           set (bp_free p') = set (bp_free p))"
proof -
  obtain b w' p' where res: "wb_append data sz w p = Some (b, w', p')" "append_result data rest w p b w' p'"
      "b \<longleftrightarrow> append_fits w p (unat sz)"
    using wb_append_ok [OF assms] by blast
  have fr: "bp_frame (set (wb_plist w) \<union> set (bp_free p)) p p'" and own: "bp_owned p' (wb_plist w' @ rest)"
    using res(2) by (simp_all add: append_result_def)
  have "map (bp_block p') rest = map (bp_block p) rest"
    using assms(2) by (auto simp: bp_owned_def intro!: bp_frame_block(1) [OF fr])
  moreover have "set (bp_free p') = set (bp_free p)" if "wb_plist w' = wb_plist w"
    using own assms(2) that bp_frame_blocks [OF fr] by (auto simp: bp_owned_def)
  ultimately show ?thesis
    using res wb_pending_only_slist [of w w'] by (auto simp: append_result_def split: if_splits)
qed

theorem append_all_or_nothing_witness:
  "\<exists>w. wb_shape w \<and> wb_append [1, 2, 3, 4, 5] 5 (w :: write_buf) sample_pool \<noteq> None"
proof -
  let ?w = "write_buf_new [0, 0] [0, 0] 2"
  have sh: "wb_shape ?w"
    by (auto simp: wb_shape_def write_buf_new_def ring_ok_def mask_eq_exp_minus_1 intro!: exI [of _ "1::nat"])
  moreover have "wb_plist ?w = []" by (simp add: wb_plist_def write_buf_new_def ring_list_def)
  ultimately show ?thesis
    using append_all_or_nothing [of ?w sample_pool "[]" "[1, 2, 3, 4, 5]" 5] sample_pool_owned by force
qed

end
