(* ===== verification/Write_Prepend.thy ===== *)
theory Write_Prepend
  imports Write_Buf
begin

text \<open>
  \<^verbatim>\<open>WriteBufBase::prepend\<close> and \<^verbatim>\<open>discard_pending\<close>: bytes put in front of the pending ones, in blocks
  of their own, and dropping what was never submitted.
\<close>

definition prepend_post ::
  "u32 list \<Rightarrow> byte list \<Rightarrow> u32 list \<Rightarrow> 'a write_buf_scheme \<Rightarrow> buf_pool \<Rightarrow>
     bool \<Rightarrow> 'a write_buf_scheme \<Rightarrow> buf_pool \<Rightarrow> bool" where
  "prepend_post done data rest w p b w' p' \<longleftrightarrow>
     wb_shape w' \<and> wb_pending_only w w' \<and> bp_owned p' (wb_plist w' @ rest) \<and>
     bp_frame (set done \<union> set (bp_free p)) p p' \<and>
     (if b then bp_bytes p' (wb_plist w') = bp_bytes p done @ data @ bp_bytes p (wb_plist w)
      else wb_plist w' = wb_plist w)"

lemma append_need_sub: "append_need bs bs n = append_need bs 0 (n - bs)"
  by (simp add: append_need_def)

lemma append_need_0_iff: "0 < bs \<Longrightarrow> append_need bs 0 n = 0 \<longleftrightarrow> n = 0"
  by (auto simp: append_need_def div_eq_0_iff)

lemma wb_pending_only_slot [simp]: "wb_pending_only w (w\<lparr>wb_pending := (wb_pending w)[j := x]\<rparr>)"
  by (simp add: wb_pending_only_def)

text \<open>No block is left for the next piece: the blocks taken so far are given back.\<close>

lemma prepend_loop_fail:
  assumes "wb_shape w" and "bp_owned p (ring_list (wb_pending w) (wb_m w) nh i @ wb_plist w @ rest)"
    and "bp_free p = []" and "i \<noteq> wb_pending_head w"
  shows "\<exists>p'. prepend_loop nh i data sz w p = Some (False, w, p') \<and>
    prepend_post (ring_list (wb_pending w) (wb_m w) nh i) data rest w p False w p'"
proof -
  obtain p' where "release_all bp_release (ring_list (wb_pending w) (wb_m w) nh i) p = Some p'"
      "bp_owned p' (wb_plist w @ rest)" "bp_frame (set (ring_list (wb_pending w) (wb_m w) nh i)) p p'"
    using bp_owned_release_all [OF assms(2)] by blast
  then show ?thesis
    using assms by (subst prepend_loop.simps)
      (simp add: bp_acquire_none release_range_eq prepend_post_def)
qed

text \<open>Filling a block just taken from the pool.\<close>

lemma prepend_fill:
  assumes own: "bp_owned p held" and i: "i \<in> set held" "bp_data_size p i = 0"
    and n: "unat n \<le> unat (bp_bsize p)" "unat n = length xs"
  shows "\<exists>p1 p2. bp_write i 0 xs p = Some p1 \<and> p2 = bp_set_data_size i n p1 \<and> bp_owned p2 held \<and>
    bp_free p2 = bp_free p \<and> bp_frame {i} p p2 \<and> bp_block p2 i = xs"
proof -
  note D = bp_ownedD [OF own]
  obtain p1 p2 where "bp_write i (unat (bp_data_size p i)) xs p = Some p1"
      "p2 = bp_set_data_size i n p1" "bp_inv p2" "bp_free p2 = bp_free p" "bp_frame {i} p p2"
      "bp_block p2 i = bp_block p i @ xs"
    using bp_fill [OF D(1) D(2) [OF i(1)] D(3) [OF i(1)]] i n by fastforce
  then show ?thesis
    using bp_owned_cong [OF own] i(2) by (simp add: bp_block_empty)
qed

text \<open>One block was filled and the loop went on from there.\<close>

lemma prepend_loop_step:
  assumes own: "bp_owned p (done @ wb_plist w @ rest)" and free: "bp_free p = x # bp_free p3"
    and p1: "bp_frame {} p p1" and p3: "bp_frame {x} p1 p3" "bp_block p3 x = xs"
    and x: "x \<notin> set (done @ wb_plist w)"
    and w2: "wb_plist w2 = wb_plist w" "wb_pending_only w w2"
    and post: "prepend_post (done @ [x]) ys rest w2 p3 b w' p'"
  shows "prepend_post done (xs @ ys) rest w p b w' p'"
proof -
  have fr: "bp_frame {x} p p3" using bp_frame_trans [OF p1 p3(1)] by simp
  have same: "bp_bytes p3 is = bp_bytes p is" if "set is \<subseteq> set (done @ wb_plist w)" for "is"
    using that x bp_ownedD(2) [OF own] by (intro bp_owned_frame_bytes [OF fr]) auto
  have "bp_frame ({x} \<union> (set (done @ [x]) \<union> set (bp_free p3))) p p'"
    using post by (intro bp_frame_trans [OF fr]) (simp add: prepend_post_def)
  then have "bp_frame (set done \<union> set (bp_free p)) p p'"
    by (rule bp_frame_mono) (use free in auto)
  then show ?thesis
    using post w2 p3(2) same [of "done"] same [of "wb_plist w"] wb_pending_only_trans [OF w2(2)]
    by (auto simp: prepend_post_def split: if_splits)
qed

lemma prepend_loop_ok:
  assumes "wb_shape w" and "ring_ok (wb_pending w) (wb_m w) nh (wb_pending_tail w)"
    and "i = nh + of_nat a" and "wb_pending_head w = nh + of_nat (a + k)"
    and "a + k \<le> unat (wb_pending_tail w - nh)"
    and "bp_owned p (ring_list (wb_pending w) (wb_m w) nh i @ wb_plist w @ rest)"
    and "length data = unat sz" and "append_need (unat (bp_bsize p)) 0 (unat sz) = k"
  shows "\<exists>b w' p'. prepend_loop nh i data sz w p = Some (b, w', p') \<and>
    prepend_post (ring_list (wb_pending w) (wb_m w) nh i) data rest w p b w' p' \<and>
    (b \<longleftrightarrow> k \<le> length (bp_free p))"
  using assms
proof (induction k arbitrary: a i data sz w p)
  case 0
  then have i: "i = wb_pending_head w" and "data = []"
    using append_need_0_iff [OF bp_size_bound(2) [OF 0(6)]] by auto
  moreover have "wb_shape (w\<lparr>wb_pending_head := nh\<rparr>)"
    using 0(1,2) by (simp add: wb_shape_def)
  moreover have "wb_plist (w\<lparr>wb_pending_head := nh\<rparr>) = ring_list (wb_pending w) (wb_m w) nh i @ wb_plist w"
    using ring_list_split [of a "wb_pending_tail w" nh] 0(3-5) i by (simp add: wb_plist_def)
  ultimately show ?case
    using 0(6) by (auto simp: prepend_loop.simps prepend_post_def)
next
  case (Suc k)
  note sh = Suc.prems(1) and ok = Suc.prems(2) and i = Suc.prems(3) and hd = Suc.prems(4)
    and le = Suc.prems(5) and own = Suc.prems(6) and len = Suc.prems(7) and need = Suc.prems(8)
  let ?q = "wb_pending w" and ?m = "wb_m w" and ?t = "wb_pending_tail w"
  let ?done = "ring_list ?q ?m nh i"
  have ne: "i \<noteq> wb_pending_head w"
  proof
    assume "i = wb_pending_head w"
    then have "(of_nat a :: u64) = of_nat (a + Suc k)" using i hd by (simp only: add_left_cancel)
    then have "unat (of_nat a :: u64) = unat (of_nat (a + Suc k) :: u64)" by (rule arg_cong)
    then show False using le unat_of_nat_le [of a "?t - nh"] unat_of_nat_le [OF le] by simp
  qed
  show ?case
  proof (cases "bp_free p")
    case Nil
    then show ?thesis using prepend_loop_fail [OF sh own Nil ne] by fastforce
  next
    case (Cons x fs)
    obtain p1 where p1: "bp_acquire p = (x, p1)" "bp_owned p1 (x # ?done @ wb_plist w @ rest)"
        "bp_free p1 = fs" "bp_frame {} p p1" "x \<noteq> invalid_idx" "bp_data_size p1 x = 0"
        "x \<notin> set (?done @ wb_plist w @ rest)"
      using bp_owned_acquire [OF own Cons] by auto
    define tc where "tc = min sz (bp_bsize p1)"
    have bs: "bp_bsize p1 = bp_bsize p" "0 < unat (bp_bsize p)"
      using p1(4) bp_size_bound(2) [OF own] by (simp_all add: bp_frame_def)
    have tc: "unat tc = min (unat sz) (unat (bp_bsize p))" "unat (sz - tc) = unat sz - unat (bp_bsize p)"
      by (auto simp: tc_def bs(1) min_def word_le_nat_alt unat_sub)
    obtain p2 p3 where p3: "bp_write x 0 (take (unat tc) data) p1 = Some p2" "p3 = bp_set_data_size x tc p2"
        "bp_owned p3 (x # ?done @ wb_plist w @ rest)" "bp_free p3 = fs" "bp_frame {x} p1 p3"
        "bp_block p3 x = take (unat tc) data"
      using prepend_fill [OF p1(2), of x tc "take (unat tc) data"] p1(3,6) bs tc len by auto
    let ?w2 = "w\<lparr>wb_pending := ?q[ring_slot ?m i := x]\<rparr>"
    have done2: "ring_list (?q[ring_slot ?m i := x]) ?m nh (i + 1) = ?done @ [x]"
      using ring_list_fill [OF ok, of a x] le i by (simp add: algebra_simps)
    have plist2: "wb_plist ?w2 = wb_plist w"
      using ring_list_fill_other [OF ok, of a "a + Suc k" x] le i hd by (simp add: wb_plist_def)
    have sh2: "wb_shape ?w2" "ring_ok (wb_pending ?w2) (wb_m ?w2) nh (wb_pending_tail ?w2)"
      using sh ok by (simp_all add: wb_shape_def ring_ok_update)
    have own3: "bp_owned p3 (ring_list (wb_pending ?w2) (wb_m ?w2) nh (i + 1) @ wb_plist ?w2 @ rest)"
      using p3(3) by (rule bp_owned_perm [THEN iffD1, rotated]) (simp add: plist2 done2)
    have pos: "0 < unat sz" using append_need_0_iff [OF bs(2), of "unat sz"] unfolding need by simp
    have need3: "append_need (unat (bp_bsize p3)) 0 (unat (sz - tc)) = k"
      using append_need_Suc [OF bs(2) pos] need p3(5) bs(1) tc(2)
      by (simp add: append_need_sub bp_frame_def)
    have next2: "i + 1 = nh + of_nat (Suc a)" "wb_pending_head ?w2 = nh + of_nat (Suc a + k)"
        "Suc a + k \<le> unat (wb_pending_tail ?w2 - nh)"
      using i hd le by simp_all
    have len2: "length (drop (unat tc) data) = unat (sz - tc)" using len tc by simp
    have "prepend_loop nh i data sz w p = prepend_loop nh (i + 1) (drop (unat tc) data) (sz - tc) ?w2 p3"
      using ne p1(1,5) p3(1,2) by (subst prepend_loop.simps) (simp add: tc_def Let_def)
    moreover obtain b w' p' where IH:
        "prepend_loop nh (i + 1) (drop (unat tc) data) (sz - tc) ?w2 p3 = Some (b, w', p')"
        "prepend_post (?done @ [x]) (drop (unat tc) data) rest ?w2 p3 b w' p'"
        "b \<longleftrightarrow> k \<le> length fs"
      using Suc.IH [OF sh2 next2 own3 len2 need3] done2 p3(4) by auto
    moreover have "prepend_post ?done (take (unat tc) data @ drop (unat tc) data) rest w p b w' p'"
      by (rule prepend_loop_step [OF own _ p1(4) p3(5,6) _ plist2 _ IH(2)])
        (use Cons p1(7) p3(4) in simp_all)
    ultimately show ?thesis using IH(3) Cons by simp
  qed
qed

text \<open>The \<^verbatim>\<open>unsigned\<close> rounding-up division, when the sum does not wrap.\<close>

lemma block_to_write_unat:
  fixes sz bs :: u32
  assumes "0 < unat bs" and "unat sz + unat bs \<le> 2 ^ 32"
  shows "unat ((sz + bs - 1) div bs) = append_need (unat bs) 0 (unat sz)"
proof -
  have "1 \<le> bs" using assms(1) by (simp add: word_le_nat_alt)
  then have "unat (sz + (bs - 1)) = unat sz + (unat bs - 1)"
    using assms by (subst unat_add_lem [THEN iffD1]) (simp_all add: unat_sub word_le_nat_alt)
  moreover have "sz + (bs - 1) = sz + bs - 1" by simp
  moreover have "unat sz + (unat bs - 1) = unat sz + unat bs - 1" using assms(1) by simp
  ultimately have "unat (sz + bs - 1) = unat sz + unat bs - 1" by metis
  then show ?thesis by (simp add: unat_div append_need_def)
qed

definition prepend_fits :: "'a write_buf_scheme \<Rightarrow> buf_pool \<Rightarrow> nat \<Rightarrow> bool" where
  "prepend_fits w p n \<longleftrightarrow>
     append_need (unat (bp_bsize p)) 0 n
       \<le> min (length (wb_pending w) - length (wb_plist w)) (length (bp_free p))"

lemma wb_prepend_ok:
  assumes sh: "wb_shape w" and own: "bp_owned p (wb_plist w @ rest)" and len: "length data = unat sz"
    and nowrap: "unat sz + unat (bp_bsize p) \<le> 2 ^ 32"
  shows "\<exists>b w' p'. wb_prepend data sz w p = Some (b, w', p') \<and>
    prepend_post [] data rest w p b w' p' \<and> (b \<longleftrightarrow> prepend_fits w p (unat sz))"
proof -
  let ?h = "wb_pending_head w" and ?t = "wb_pending_tail w"
  define btw where "btw = (sz + bp_bsize p - 1) div bp_bsize p"
  let ?k = "append_need (unat (bp_bsize p)) 0 (unat sz)"
  define nh where "nh = ?h - ucast btw"
  have k: "unat btw = ?k"
    using block_to_write_unat [OF bp_size_bound(2) [OF own] nowrap] by (simp add: btw_def)
  have cnt: "?t - ?h \<le> wb_cap w" "length (wb_plist w) \<le> length (wb_pending w)"
    using ring_count [OF wb_rings(1) [OF sh]] wb_cap_unat(1) [OF sh]
    by (simp_all add: word_le_nat_alt wb_plist_length)
  have fits: "wb_cap w - (?t - ?h) < ucast btw \<longleftrightarrow> length (wb_pending w) - length (wb_plist w) < ?k"
    using cnt wb_cap_unat(1) [OF sh] k
    by (simp add: word_less_nat_alt unat_sub wb_plist_length)
  have call: "wb_prepend data sz w p =
      (if length (wb_pending w) - length (wb_plist w) < ?k then Some (False, w, p)
       else prepend_loop nh nh data sz w p)"
    using fits by (simp add: wb_prepend_def Let_def btw_def nh_def)
  show ?thesis
  proof (cases "length (wb_pending w) - length (wb_plist w) < ?k")
    case True
    then show ?thesis using call sh own by (auto simp: prepend_post_def prepend_fits_def)
  next
    case False
    have hd: "?h = nh + of_nat ?k" using k by (simp add: nh_def flip: k)
    have diff: "unat (?t - nh) = ?k + length (wb_plist w)"
    proof -
      have "?t - nh = of_nat (?k + length (wb_plist w))"
        using wb_plist_tail [of w] hd by (simp add: algebra_simps)
      moreover have "?k + length (wb_plist w) \<le> unat (wb_cap w)"
        using False cnt(2) wb_cap_unat(1) [OF sh] by simp
      ultimately show ?thesis by (simp only: unat_of_nat_le)
    qed
    have ok: "ring_ok (wb_pending w) (wb_m w) nh ?t"
      using wb_rings(1) [OF sh] diff False cnt(2) by (auto simp: ring_ok_def)
    have nil: "ring_list (wb_pending w) (wb_m w) nh nh = []" by (simp add: ring_list_def)
    then have "bp_owned p (ring_list (wb_pending w) (wb_m w) nh nh @ wb_plist w @ rest)" using own by simp
    from prepend_loop_ok [OF sh ok _ _ _ this len refl, of 0] hd diff nil
    obtain b w' p' where "prepend_loop nh nh data sz w p = Some (b, w', p')"
        "prepend_post [] data rest w p b w' p'" "b \<longleftrightarrow> ?k \<le> length (bp_free p)"
      by auto
    then show ?thesis using call False by (auto simp: prepend_fits_def)
  qed
qed

lemma wb_discard_pending_ok:
  assumes "wb_shape w" and "bp_owned p (wb_plist w @ rest)"
  shows "\<exists>w' p'. wb_discard_pending w p = Some (w', p') \<and> wb_shape w' \<and> wb_pending_only w w' \<and>
    wb_plist w' = [] \<and> bp_owned p' rest \<and> bp_free p' = bp_free p @ wb_plist w \<and>
    bp_frame (set (wb_plist w)) p p'"
proof -
  let ?w = "w\<lparr>wb_pending_head := 0, wb_pending_tail := 0\<rparr>"
  obtain p' where "release_all bp_release (wb_plist w) p = Some p'" "bp_owned p' rest"
      "bp_free p' = bp_free p @ wb_plist w" "bp_frame (set (wb_plist w)) p p'"
    using bp_owned_release_all [OF assms(2)] by blast
  moreover have "wb_shape ?w"
    using assms(1) ring_ok_empty [OF wb_rings(1) [OF assms(1)]] by (simp add: wb_shape_def)
  ultimately show ?thesis
    by (simp add: wb_discard_pending_def release_range_eq wb_plist_def [symmetric])
      (simp add: wb_plist_def ring_list_def wb_pending_only_def)
qed

text \<open>
  C16: the size computation of \<^verbatim>\<open>prepend\<close> wraps. \<^verbatim>\<open>size + buf_size - 1\<close> is an \<^verbatim>\<open>unsigned int\<close>, so for
  a size within one block of \<^verbatim>\<open>UINT_MAX\<close> the number of blocks to write comes out as zero, and
  \<^verbatim>\<open>prepend\<close> reports success having stored nothing.
\<close>

theorem prepend_wraps:
  fixes w :: "'a write_buf_scheme"
  assumes "2 ^ 32 < unat sz + unat (bp_bsize p)"
  shows "wb_prepend data sz w p = Some (True, w, p)"
proof -
  let ?bs = "bp_bsize p"
  have "unat sz + unat ?bs - 2 ^ 32 < 2 ^ 32"
    using unat_u32_less [of sz] unat_u32_less [of ?bs] by linarith
  then have s: "unat (sz + ?bs) = unat sz + unat ?bs - 2 ^ 32" "0 < unat (sz + ?bs)"
    using assms by (simp_all add: unat_word_ariths le_mod_geq)
  then have "sz + ?bs \<noteq> 0" by auto
  then have "unat (sz + ?bs - 1) = unat sz + unat ?bs - 2 ^ 32 - 1"
    using s(1) by (simp add: unat_minus_one)
  then have "unat (sz + ?bs - 1) < unat ?bs"
    using unat_u32_less [of sz] assms by linarith
  then have "(sz + ?bs - 1) div ?bs = 0"
    by (simp add: word_unat_eq_iff unat_div)
  then show ?thesis by (simp add: wb_prepend_def Let_def prepend_loop.simps)
qed

theorem prepend_wraps_witness:
  "\<forall>data. wb_prepend data 4294967295 (write_buf_new [0, 0] [0, 0] 2) sample_pool =
     Some (True, write_buf_new [0, 0] [0, 0] 2, sample_pool)"
proof -
  have "2 ^ 32 < unat (4294967295 :: u32) + unat (bp_bsize sample_pool)"
    by (simp add: sample_pool_def)
  from prepend_wraps [OF this] show ?thesis by blast
qed

end
