(* ===== verification/Write_Stream.thy ===== *)
theory Write_Stream
  imports Write_Prepend
begin

text \<open>
  \<^verbatim>\<open>WriteBufStream\<close> (\<^verbatim>\<open>include/buffer/buffer.hpp\<close>, \<^verbatim>\<open>src/buffer/buffer.cpp\<close>): the write buffer of a
  TCP connection. \<^verbatim>\<open>submit\<close> moves the pending blocks to the send queue, \<^verbatim>\<open>peek_iovec\<close> describes the
  queue to \<^verbatim>\<open>writev\<close>, and \<^verbatim>\<open>consume_written\<close> drops what the kernel took, which may end inside a
  block.
\<close>

section \<open>State and operations\<close>

record write_stream = write_buf +
  ws_iovec :: "iovec list"
  ws_head_offset :: u32

definition write_stream_new :: "u32 list \<Rightarrow> u32 list \<Rightarrow> iovec list \<Rightarrow> i32 \<Rightarrow> write_stream" where
  "write_stream_new pending_bufs send_queue iovec capacity =
     write_buf.extend (write_buf_new pending_bufs send_queue capacity) (write_stream.fields iovec 0)"

text \<open>\<^verbatim>\<open>send_queue_[send_tail_++ & mask_] = pending_bufs_[pending_head_++ & mask_]\<close>, until none is pending.\<close>

function submit_loop :: "'a write_buf_scheme \<Rightarrow> 'a write_buf_scheme" where
  "submit_loop w =
     (if wb_pending_head w = wb_pending_tail w then w
      else submit_loop (w\<lparr>
        wb_sendq := (wb_sendq w)[ring_slot (wb_m w) (wb_send_tail w) :=
          wb_pending w ! ring_slot (wb_m w) (wb_pending_head w)],
        wb_send_tail := wb_send_tail w + 1, wb_pending_head := wb_pending_head w + 1\<rparr>))"
  by pat_completeness auto
termination
  by (relation "measure (\<lambda>w. unat (wb_pending_tail w - wb_pending_head w))")
    (auto simp: unat_word_diff_Suc(1))

declare submit_loop.simps [simp del]

definition ws_submit :: "write_stream \<Rightarrow> bool \<times> write_stream" where
  "ws_submit w =
     (let pending_count = wb_pending_tail w - wb_pending_head w in
      if pending_count = 0 then (False, w)
      else let send_count = wb_send_tail w - wb_send_head w in
        if wb_cap w - send_count < pending_count then (False, w)
        else (True, submit_loop w))"

definition ws_has_send_data :: "write_stream \<Rightarrow> bool" where
  "ws_has_send_data w \<longleftrightarrow> wb_send_head w \<noteq> wb_send_tail w"

text \<open>The loop of \<^verbatim>\<open>peek_iovec\<close> over the listed indexes; a store outside \<^verbatim>\<open>iovec_\<close> is \<^term>\<open>None\<close>.\<close>

fun ws_fill_iov :: "write_stream \<Rightarrow> buf_pool \<Rightarrow> nat list \<Rightarrow> iovec list \<Rightarrow> u32 \<Rightarrow> (iovec list \<times> u32) option"
where
  "ws_fill_iov w p [] iov bytes = Some (iov, bytes)"
| "ws_fill_iov w p (i # is) iov bytes =
     (if i < length iov
      then let idx = wb_sendq w ! ring_slot (wb_m w) (wb_send_head w + of_nat i);
               offset = (if i = 0 then ws_head_offset w else 0);
               v = \<lparr>iov_base = Some (bp_buf_addr p idx + unat offset),
                    iov_len = ucast (bp_data_size p idx - offset)\<rparr>
           in ws_fill_iov w p is (iov[i := v]) (bytes + ucast (iov_len v))
      else None)"

text \<open>
  \<^verbatim>\<open>peek_iovec(count, bytes)\<close>: the two out-parameters, whether the pointer is non-null, and the
  object with its \<^verbatim>\<open>iovec_\<close> array filled.
\<close>

definition ws_peek_iovec :: "write_stream \<Rightarrow> buf_pool \<Rightarrow> (bool \<times> i32 \<times> u32 \<times> write_stream) option" where
  "ws_peek_iovec w p =
     (let count = (ucast (wb_send_tail w - wb_send_head w) :: i32) in
      if sint count \<le> 0 then Some (False, 0, 0, w)
      else do {
        (iov, bytes) \<leftarrow> ws_fill_iov w p [0..<nat (sint count)] (ws_iovec w) 0;
        Some (True, count, bytes, w\<lparr>ws_iovec := iov\<rparr>) })"

function ws_consume_written ::
  "u32 \<Rightarrow> write_stream \<Rightarrow> buf_pool \<Rightarrow> (write_stream \<times> buf_pool) option" where
  "ws_consume_written bytes w p =
     (if bytes = 0 then Some (w, p)
      else if wb_send_head w = wb_send_tail w then None
      else
        let idx = wb_sendq w ! ring_slot (wb_m w) (wb_send_head w);
            remaining = bp_data_size p idx - ws_head_offset w
        in if bytes < remaining then Some (w\<lparr>ws_head_offset := ws_head_offset w + bytes\<rparr>, p)
           else do {
             p' \<leftarrow> bp_release idx p;
             ws_consume_written (bytes - remaining)
               (w\<lparr>wb_send_head := wb_send_head w + 1, ws_head_offset := 0\<rparr>) p' })"
  by pat_completeness auto
termination
  by (relation "measure (\<lambda>(_, w, _). unat (wb_send_tail w - wb_send_head w))")
    (auto simp: unat_word_diff_Suc(1))

declare ws_consume_written.simps [simp del]

definition ws_reset :: "write_stream \<Rightarrow> buf_pool \<Rightarrow> (write_stream \<times> buf_pool) option" where
  "ws_reset w p = do {
     p1 \<leftarrow> release_range (wb_sendq w) (wb_m w) (wb_send_head w) (wb_send_tail w) p;
     p2 \<leftarrow> release_range (wb_pending w) (wb_m w) (wb_pending_head w) (wb_pending_tail w) p1;
     Some (w\<lparr>wb_send_head := 0, wb_send_tail := 0, wb_pending_head := 0, wb_pending_tail := 0,
             ws_head_offset := 0\<rparr>, p2) }"

section \<open>Invariant and abstraction\<close>

text \<open>The bytes still to be sent: the queued blocks less the part of the first one already taken.\<close>

definition ws_out :: "buf_pool \<Rightarrow> write_stream \<Rightarrow> byte list" where
  "ws_out p w = drop (unat (ws_head_offset w)) (bp_bytes p (wb_slist w))"

definition ws_inv :: "buf_pool \<Rightarrow> write_stream \<Rightarrow> bool" where
  "ws_inv p w \<longleftrightarrow> wb_shape w \<and> length (ws_iovec w) = length (wb_sendq w) \<and>
     (case wb_slist w of
        [] \<Rightarrow> ws_head_offset w = 0
      | i # _ \<Rightarrow> ws_head_offset w = 0 \<or> ws_head_offset w < bp_data_size p i)"

text \<open>A fresh buffer of four blocks; the examples use it.\<close>

definition sample_ws :: write_stream where
  "sample_ws = write_stream_new [0, 0, 0, 0] [0, 0, 0, 0] (replicate 4 \<lparr>iov_base = None, iov_len = 0\<rparr>) 4"

lemma write_stream_new_ok:
  assumes "k < 31" and "length pend = 2 ^ k" and "length sq = 2 ^ k" and "length iov = 2 ^ k"
  shows "ws_inv p (write_stream_new pend sq iov (2 ^ k))"
    and "wb_plist (write_stream_new pend sq iov (2 ^ k)) = []"
    and "wb_slist (write_stream_new pend sq iov (2 ^ k)) = []"
proof -
  let ?w = "write_stream_new pend sq iov (2 ^ k)"
  note defs = write_stream_new_def write_buf_new_def write_buf.defs write_stream.defs
  show l: "wb_plist ?w = []" "wb_slist ?w = []"
    by (simp_all add: defs wb_plist_def wb_slist_def ring_list_def)
  have m: "(2 ^ k :: i32) - 1 = mask k" by (simp add: mask_eq_exp_minus_1)
  have "wb_shape ?w"
    using assms by (auto simp: defs wb_shape_def m ucast_mask32 ring_ok_def)
  then show "ws_inv p ?w" using assms l by (simp add: ws_inv_def) (simp add: defs)
qed

section \<open>Submit\<close>

lemma wb_slist_length: "length (wb_slist w) = unat (wb_send_tail w - wb_send_head w)"
  by (simp add: wb_slist_def)

lemma wb_slist_empty: "wb_slist w = [] \<longleftrightarrow> wb_send_head w = wb_send_tail w"
  by (simp add: wb_slist_def ring_list_Nil_iff)

lemma submit_step_ok:
  fixes w :: "'a write_buf_scheme"
  assumes sh: "wb_shape w" and pl: "wb_plist w = x # xs"
    and room: "length (wb_slist w) < length (wb_pending w)"
  defines "w' \<equiv> w\<lparr>
        wb_sendq := (wb_sendq w)[ring_slot (wb_m w) (wb_send_tail w) :=
          wb_pending w ! ring_slot (wb_m w) (wb_pending_head w)],
        wb_send_tail := wb_send_tail w + 1, wb_pending_head := wb_pending_head w + 1\<rparr>"
  shows "wb_shape w'" and "wb_plist w' = xs" and "wb_slist w' = wb_slist w @ [x]"
proof -
  note ok = wb_rings [OF sh]
  have ne: "wb_pending_head w \<noteq> wb_pending_tail w"
    using pl wb_plist_empty [of w] by auto
  have pop: "x = wb_pending w ! ring_slot (wb_m w) (wb_pending_head w)"
      "xs = ring_list (wb_pending w) (wb_m w) (wb_pending_head w + 1) (wb_pending_tail w)"
    using pl ring_list_pop [OF ne, of "wb_pending w" "wb_m w"] by (simp_all add: wb_plist_def)
  have lt: "unat (wb_send_tail w - wb_send_head w) < length (wb_sendq w)"
    using room wb_cap_unat(2) [OF sh] by (simp add: wb_slist_length)
  show "wb_shape w'"
    using sh ring_ok_pop(1) [OF ok(1) ne] ring_ok_push(1) [OF ok(2) lt] by (simp add: wb_shape_def w'_def)
  show "wb_plist w' = xs" by (simp add: wb_plist_def w'_def pop(2))
  show "wb_slist w' = wb_slist w @ [x]"
    using ring_list_push [OF ok(2) lt] by (simp add: wb_slist_def w'_def pop(1))
qed

lemma submit_loop_ok:
  fixes w :: "'a write_buf_scheme"
  assumes "wb_shape w" and "length (wb_plist w) + length (wb_slist w) \<le> length (wb_pending w)"
  shows "wb_shape (submit_loop w) \<and> wb_plist (submit_loop w) = [] \<and>
    wb_slist (submit_loop w) = wb_slist w @ wb_plist w \<and>
    length (wb_sendq (submit_loop w)) = length (wb_sendq w) \<and>
    length (wb_pending (submit_loop w)) = length (wb_pending w) \<and>
    write_buf.more (submit_loop w) = write_buf.more w"
  using assms
proof (induction "wb_plist w" arbitrary: w)
  case Nil
  then show ?case using wb_plist_empty [of w] by (simp add: submit_loop.simps)
next
  case (Cons x xs)
  let ?w' = "w\<lparr>
        wb_sendq := (wb_sendq w)[ring_slot (wb_m w) (wb_send_tail w) :=
          wb_pending w ! ring_slot (wb_m w) (wb_pending_head w)],
        wb_send_tail := wb_send_tail w + 1, wb_pending_head := wb_pending_head w + 1\<rparr>"
  have room: "length (wb_slist w) < length (wb_pending w)"
    using Cons.prems(2) Cons.hyps(2) [symmetric] by simp
  note step = submit_step_ok [OF Cons.prems(1) Cons.hyps(2) [symmetric] room]
  have "submit_loop w = submit_loop ?w'"
    using Cons.hyps(2) wb_plist_empty [of w] by (subst submit_loop.simps) auto
  moreover have "length (wb_plist ?w') + length (wb_slist ?w') \<le> length (wb_pending ?w')"
    using Cons.prems(2) Cons.hyps(2) [symmetric] step(2,3) by simp
  ultimately show ?case
    using Cons.hyps(1) [OF step(2) [symmetric] step(1)] Cons.hyps(2) [symmetric] step(2,3) by simp
qed

text \<open>Submit succeeds when something is pending and the send queue has room for all of it.\<close>

lemma ws_submit_ok:
  assumes sh: "wb_shape w"
  shows "ws_submit w =
    (if wb_plist w \<noteq> [] \<and> length (wb_plist w) + length (wb_slist w) \<le> length (wb_pending w)
     then (True, submit_loop w) else (False, w))"
proof -
  have le: "wb_send_tail w - wb_send_head w \<le> wb_cap w"
    using ring_count [OF wb_rings(2) [OF sh]] wb_cap_unat [OF sh] by (simp add: word_le_nat_alt)
  have "wb_cap w - (wb_send_tail w - wb_send_head w) < wb_pending_tail w - wb_pending_head w \<longleftrightarrow>
      \<not> length (wb_plist w) + length (wb_slist w) \<le> length (wb_pending w)"
    using le wb_cap_unat(1) [OF sh]
    by (auto simp: word_less_nat_alt word_le_nat_alt unat_sub wb_plist_length wb_slist_length)
  moreover have "wb_pending_tail w - wb_pending_head w = 0 \<longleftrightarrow> wb_plist w = []"
    by (auto simp: wb_plist_empty)
  ultimately show ?thesis by (simp add: ws_submit_def Let_def)
qed


lemma ws_submit_inv:
  assumes inv: "ws_inv p w" and ok: "ws_submit w = (True, w')"
    and sl: "\<And>i. i \<in> set (wb_slist w) \<Longrightarrow> length (bp_block p i) = unat (bp_data_size p i)"
  shows "ws_inv p w' \<and> wb_plist w' = [] \<and> wb_slist w' = wb_slist w @ wb_plist w \<and>
    ws_out p w' = ws_out p w @ bp_bytes p (wb_plist w)"
proof -
  have sh: "wb_shape w" using inv by (simp add: ws_inv_def)
  have w': "w' = submit_loop w" "length (wb_plist w) + length (wb_slist w) \<le> length (wb_pending w)"
    using ok ws_submit_ok [OF sh] by (auto split: if_splits)
  note loop = submit_loop_ok [OF sh w'(2), folded w'(1)]
  have ext: "ws_iovec w' = ws_iovec w" "ws_head_offset w' = ws_head_offset w"
    using loop by (cases w'; cases w; simp)+
  have "ws_inv p w'"
  proof (cases "wb_slist w")
    case Nil
    then have "ws_head_offset w = 0" using inv by (simp add: ws_inv_def)
    then show ?thesis using inv loop ext Nil by (simp add: ws_inv_def split: list.splits)
  next
    case (Cons i "is")
    then show ?thesis using inv loop ext by (simp add: ws_inv_def)
  qed
  moreover have "unat (ws_head_offset w) \<le> length (bp_bytes p (wb_slist w))"
    using inv sl by (cases "wb_slist w") (auto simp: ws_inv_def word_less_nat_alt)
  then have "ws_out p w' = ws_out p w @ bp_bytes p (wb_plist w)"
    using loop ext by (simp add: ws_out_def)
  ultimately show ?thesis using loop by simp
qed

section \<open>Written bytes\<close>

lemma ws_pop_ok:
  fixes w :: write_stream
  assumes sh: "wb_shape w" and sl: "wb_slist w = i # is"
  shows "wb_send_head w \<noteq> wb_send_tail w" and "wb_sendq w ! ring_slot (wb_m w) (wb_send_head w) = i"
    and "wb_slist (w\<lparr>wb_send_head := wb_send_head w + 1, ws_head_offset := 0\<rparr>) = is"
    and "wb_shape (w\<lparr>wb_send_head := wb_send_head w + 1, ws_head_offset := 0\<rparr>)"
proof -
  show ne: "wb_send_head w \<noteq> wb_send_tail w" using sl wb_slist_empty [of w] by auto
  show "wb_sendq w ! ring_slot (wb_m w) (wb_send_head w) = i"
    and "wb_slist (w\<lparr>wb_send_head := wb_send_head w + 1, ws_head_offset := 0\<rparr>) = is"
    using sl ring_list_pop [OF ne, of "wb_sendq w" "wb_m w"] by (simp_all add: wb_slist_def)
  show "wb_shape (w\<lparr>wb_send_head := wb_send_head w + 1, ws_head_offset := 0\<rparr>)"
    using sh ring_ok_pop(1) [OF wb_rings(2) [OF sh] ne] by (simp add: wb_shape_def)
qed

definition ws_send_only :: "write_stream \<Rightarrow> write_stream \<Rightarrow> bool" where
  "ws_send_only w w' \<longleftrightarrow>
     wb_pending w' = wb_pending w \<and> wb_pending_head w' = wb_pending_head w \<and>
     wb_pending_tail w' = wb_pending_tail w \<and> wb_capacity w' = wb_capacity w \<and> wb_mask w' = wb_mask w \<and>
     wb_sendq w' = wb_sendq w \<and> wb_send_tail w' = wb_send_tail w \<and> ws_iovec w' = ws_iovec w"

lemma ws_send_only_plist: "ws_send_only w w' \<Longrightarrow> wb_plist w' = wb_plist w"
  by (simp add: ws_send_only_def wb_plist_def)

definition written_post ::
  "nat \<Rightarrow> u32 list \<Rightarrow> nat \<Rightarrow> write_stream \<Rightarrow> buf_pool \<Rightarrow> write_stream \<Rightarrow> buf_pool \<Rightarrow> bool" where
  "written_post n rest k w p w' p' \<longleftrightarrow>
     k \<le> length (wb_slist w) \<and> wb_slist w' = drop k (wb_slist w) \<and> ws_send_only w w' \<and> ws_inv p' w' \<and>
     bp_owned p' (wb_slist w' @ rest) \<and> bp_free p' = bp_free p @ take k (wb_slist w) \<and>
     bp_frame (set (take k (wb_slist w))) p p' \<and> ws_out p' w' = drop n (ws_out p w)"

text \<open>The count ends inside the first block.\<close>

lemma ws_consume_partial:
  assumes inv: "ws_inv p w" and own: "bp_owned p (wb_slist w @ rest)" and sl: "wb_slist w = i # is"
    and n: "n \<noteq> 0" "unat n < unat (bp_data_size p i) - unat (ws_head_offset w)"
  shows "\<exists>w'. ws_consume_written n w p = Some (w', p) \<and> written_post (unat n) rest 0 w p w' p"
proof -
  have sh: "wb_shape w" using inv by (simp add: ws_inv_def)
  let ?o = "ws_head_offset w" and ?w = "w\<lparr>ws_head_offset := ws_head_offset w + n\<rparr>"
  have le: "?o \<le> bp_data_size p i"
    using inv sl by (auto simp: ws_inv_def)
  then have lt: "n < bp_data_size p i - ?o"
    using n(2) by (simp add: word_less_nat_alt unat_sub)
  have sum: "unat (?o + n) = unat ?o + unat n"
    using n(2) unat_u32_less [of "bp_data_size p i"]
    by (subst unat_add_lem [THEN iffD1]) simp_all
  have bound: "unat ?o + unat n < unat (bp_data_size p i)" using n(2) by linarith
  have "ws_consume_written n w p = Some (?w, p)"
    using n(1) lt ws_pop_ok(1,2) [OF sh sl] by (subst ws_consume_written.simps) simp
  moreover have "ws_inv p ?w"
    using inv sl sum bound by (simp add: ws_inv_def wb_slist_def wb_shape_def word_less_nat_alt)
  moreover have "ws_out p ?w = drop (unat n) (ws_out p w)"
    by (simp add: ws_out_def sum wb_slist_def) (simp add: add.commute)
  ultimately show ?thesis
    using own by (simp add: written_post_def ws_send_only_def wb_slist_def)
qed

lemma ws_consume_written_ok:
  assumes "ws_inv p w" and "bp_owned p (wb_slist w @ rest)" and "unat n \<le> length (ws_out p w)"
  shows "\<exists>k w' p'. ws_consume_written n w p = Some (w', p') \<and> written_post (unat n) rest k w p w' p'"
  using assms
proof (induction "wb_slist w" arbitrary: w p n)
  case Nil
  then have "n = 0" by (simp add: ws_out_def unat_eq_zero)
  then show ?case
    using Nil by (simp add: ws_consume_written.simps written_post_def ws_send_only_def)
next
  case (Cons i "is")
  note inv = Cons.prems(1) and own = Cons.prems(2) and n = Cons.prems(3)
    and sl = Cons.hyps(2) [symmetric]
  have sh: "wb_shape w" using inv by (simp add: ws_inv_def)
  let ?o = "ws_head_offset w" and ?d = "bp_data_size p i"
  have le: "?o \<le> ?d" using inv sl by (auto simp: ws_inv_def)
  have rem: "unat (?d - ?o) = unat ?d - unat ?o" using le by (simp add: unat_sub)
  have bl: "length (bp_block p i) = unat ?d"
    using bp_ownedD(1,2) [OF own] sl by (intro length_bp_block) auto
  have out: "ws_out p w = drop (unat ?o) (bp_block p i) @ bp_bytes p is"
    using le bl by (simp add: ws_out_def sl word_le_nat_alt)
  consider "n = 0" | "n \<noteq> 0" "n < ?d - ?o" | "n \<noteq> 0" "\<not> n < ?d - ?o" by blast
  then show ?case
  proof cases
    case 1
    then show ?thesis
      using inv own by (intro exI [of _ 0]) (simp add: ws_consume_written.simps written_post_def ws_send_only_def)
  next
    case 2
    then show ?thesis
      using ws_consume_partial [OF inv own sl, of n] rem by (auto simp: word_less_nat_alt)
  next
    case 3
    let ?w1 = "w\<lparr>wb_send_head := wb_send_head w + 1, ws_head_offset := 0\<rparr>"
    note pop = ws_pop_ok [OF sh sl]
    obtain p1 where p1: "bp_release i p = Some p1" "bp_owned p1 (is @ rest)" "bp_free p1 = bp_free p @ [i]"
        "bp_frame {i} p p1"
      using bp_owned_release_all [of p "[i]" "is @ rest"] own sl by (auto split: bind_splits)
    have bytes: "bp_bytes p1 is = bp_bytes p is"
      using bp_ownedD(2,5) [OF own] sl by (intro bp_owned_frame_bytes [OF p1(4)]) auto
    have sub: "unat (n - (?d - ?o)) = unat n - (unat ?d - unat ?o)"
      using 3(2) rem by (simp add: unat_sub word_less_nat_alt word_le_nat_alt)
    have inv1: "ws_inv p1 ?w1"
      using inv pop(3,4) by (auto simp: ws_inv_def split: list.splits)
    have out1: "ws_out p1 ?w1 = bp_bytes p is"
      by (simp add: ws_out_def pop(3) bytes)
    have own1: "bp_owned p1 (wb_slist ?w1 @ rest)" using p1(2) by (simp only: pop(3))
    have len1: "unat (n - (?d - ?o)) \<le> length (ws_out p1 ?w1)"
      using n out bl by (simp add: sub out1)
    have go: "ws_consume_written n w p = ws_consume_written (n - (?d - ?o)) ?w1 p1"
      using 3 pop(1,2) p1(1) by (subst ws_consume_written.simps) (simp add: Let_def)
    obtain k w' p' where IH: "ws_consume_written (n - (?d - ?o)) ?w1 p1 = Some (w', p')"
        "written_post (unat n - (unat ?d - unat ?o)) rest k ?w1 p1 w' p'"
      using Cons.hyps(1) [OF pop(3) [symmetric] inv1 own1 len1] unfolding sub by blast
    have "written_post (unat n) rest (Suc k) w p w' p'"
      using IH(2) sl pop(3) p1(3) out out1 bl le bp_frame_trans [OF p1(4)] 3(2) rem
      by (auto simp: written_post_def ws_send_only_def word_less_nat_alt)
    then show ?thesis using IH(1) go by auto
  qed
qed

section \<open>The vector handed to the kernel\<close>

definition iov_entry :: "write_stream \<Rightarrow> buf_pool \<Rightarrow> nat \<Rightarrow> iovec" where
  "iov_entry w p i =
     (let idx = wb_sendq w ! ring_slot (wb_m w) (wb_send_head w + of_nat i);
          offset = (if i = 0 then ws_head_offset w else 0)
      in \<lparr>iov_base = Some (bp_buf_addr p idx + unat offset), iov_len = ucast (bp_data_size p idx - offset)\<rparr>)"

lemma ws_fill_iov_ok:
  assumes "i \<le> n" and "n \<le> length iov"
  shows "ws_fill_iov w p [i..<n] iov bytes =
    Some (take i iov @ map (iov_entry w p) [i..<n] @ drop n iov,
          bytes + sum_list (map (\<lambda>j. ucast (iov_len (iov_entry w p j))) [i..<n]))"
  using assms
proof (induction "n - i" arbitrary: i iov bytes)
  case 0
  then show ?case by simp
next
  case (Suc m)
  then have lt: "i < n" by simp
  let ?iov = "iov[i := iov_entry w p i]" and ?b = "bytes + ucast (iov_len (iov_entry w p i))"
  have "ws_fill_iov w p [i..<n] iov bytes = ws_fill_iov w p [Suc i..<n] ?iov ?b"
    using lt Suc.prems by (subst upt_conv_Cons [OF lt]) (simp add: iov_entry_def Let_def)
  also have "\<dots> = Some (take (Suc i) ?iov @ map (iov_entry w p) [Suc i..<n] @ drop n ?iov,
      ?b + sum_list (map (\<lambda>j. ucast (iov_len (iov_entry w p j))) [Suc i..<n]))"
    using Suc.hyps(2) Suc.prems lt by (intro Suc.hyps(1)) simp_all
  also have "take (Suc i) ?iov = take i iov @ [iov_entry w p i]"
    using lt Suc.prems by (simp add: take_Suc_conv_app_nth)
  also have "drop n ?iov = drop n iov" using lt by simp
  finally show ?case by (simp add: upt_conv_Cons [OF lt] add.assoc)
qed

text \<open>An entry points at what remains of its block.\<close>

lemma iov_entry_block:
  assumes inv: "ws_inv p w" and own: "bp_owned p (wb_slist w @ rest)" and i: "i < length (wb_slist w)"
  shows "gather (bp_bufs p) (iov_entry w p i) =
      drop (if i = 0 then unat (ws_head_offset w) else 0) (bp_block p (wb_slist w ! i))" (is ?g)
    and "(ucast (iov_len (iov_entry w p i)) :: u32) = of_nat (length (gather (bp_bufs p) (iov_entry w p i)))"
proof -
  let ?idx = "wb_slist w ! i" and ?o = "if i = 0 then ws_head_offset w else 0"
  have idx: "wb_sendq w ! ring_slot (wb_m w) (wb_send_head w + of_nat i) = ?idx"
    using i by (simp add: wb_slist_def ring_list_nth)
  have le: "?o \<le> bp_data_size p ?idx"
    using inv i by (auto simp: ws_inv_def split: list.splits)
  then have rem: "unat (bp_data_size p ?idx - ?o) = unat (bp_data_size p ?idx) - unat ?o"
    by (simp add: unat_sub)
  have mem: "?idx \<in> set (wb_slist w @ rest)" using i by simp
  have bl: "length (bp_block p ?idx) = unat (bp_data_size p ?idx)"
    using bp_ownedD(1) [OF own] bp_ownedD(2) [OF own mem] by (intro length_bp_block)
  have entry: "iov_entry w p i =
      \<lparr>iov_base = Some (bp_buf_addr p ?idx + unat ?o), iov_len = ucast (bp_data_size p ?idx - ?o)\<rparr>"
    by (simp add: iov_entry_def Let_def idx)
  have "gather (bp_bufs p) (iov_entry w p i) = drop (unat ?o) (bp_block p ?idx)"
    using le unfolding entry
    by (simp only: gather_def iovec.simps option.case unat_ucast32 rem bp_block_def)
      (simp add: drop_seg word_le_nat_alt)
  then show ?g by simp
  then have "length (gather (bp_bufs p) (iov_entry w p i)) = unat (bp_data_size p ?idx - ?o)"
    using bl rem by simp
  then show "(ucast (iov_len (iov_entry w p i)) :: u32) = of_nat (length (gather (bp_bufs p) (iov_entry w p i)))"
    by (simp only: entry iovec.simps ucast_up_down) simp
qed

lemma iov_entries_out:
  assumes inv: "ws_inv p w" and own: "bp_owned p (wb_slist w @ rest)"
  shows "concat (map (gather (bp_bufs p)) (map (iov_entry w p) [0..<length (wb_slist w)])) = ws_out p w"
proof (cases "wb_slist w")
  case Nil
  then show ?thesis by (simp add: ws_out_def)
next
  case (Cons i "is")
  let ?g = "\<lambda>j. gather (bp_bufs p) (iov_entry w p j)"
  have "map ?g [0..<length (wb_slist w)] = ?g 0 # map (\<lambda>j. ?g (Suc j)) [0..<length is]"
    by (simp add: Cons upt_conv_Cons map_Suc_upt [symmetric] del: upt_Suc)
  also have "map (\<lambda>j. ?g (Suc j)) [0..<length is] = map (bp_block p) is"
    using iov_entry_block(1) [OF inv own] Cons by (intro nth_equalityI) simp_all
  also have "?g 0 = drop (unat (ws_head_offset w)) (bp_block p i)"
    using iov_entry_block(1) [OF inv own, of 0] Cons by simp
  finally have "map ?g [0..<length (wb_slist w)] =
      drop (unat (ws_head_offset w)) (bp_block p i) # map (bp_block p) is" .
  moreover have "unat (ws_head_offset w) \<le> length (bp_block p i)"
    using inv Cons bp_ownedD(1,2) [OF own] length_bp_block [of p i]
    by (auto simp: ws_inv_def word_less_nat_alt)
  ultimately show ?thesis
    by (simp add: comp_def ws_out_def Cons bp_bytes_def)
qed

lemma sum_list_of_nat_length:
  "sum_list (map (\<lambda>x. of_nat (length (f x))) xs) = of_nat (length (concat (map f xs)))"
  by (induction xs) simp_all

lemma ws_peek_iovec_ok:
  assumes inv: "ws_inv p w" and own: "bp_owned p (wb_slist w @ rest)" and ne: "wb_slist w \<noteq> []"
  shows "\<exists>count bytes iov. ws_peek_iovec w p = Some (True, count, bytes, w\<lparr>ws_iovec := iov\<rparr>) \<and>
    sint count = int (length (wb_slist w)) \<and> unat bytes = length (ws_out p w) \<and>
    concat (map (gather (bp_bufs p)) (take (length (wb_slist w)) iov)) = ws_out p w \<and>
    length iov = length (ws_iovec w)"
proof -
  let ?n = "length (wb_slist w)" and ?c = "ucast (wb_send_tail w - wb_send_head w) :: i32"
  let ?es = "map (iov_entry w p) [0..<?n]"
  have sh: "wb_shape w" and li: "length (ws_iovec w) = length (wb_sendq w)"
    using inv by (simp_all add: ws_inv_def)
  have le: "?n \<le> length (ws_iovec w)"
    using ring_count [OF wb_rings(2) [OF sh]] li by (simp add: wb_slist_length)
  have "length (ws_iovec w) < 2 ^ 31"
    using wb_pending_bound [OF sh] wb_cap_unat(2) [OF sh] li by simp
  then have cnt: "sint ?c = int ?n"
    using le by (subst sint_ucast_count) (simp_all add: wb_slist_length)
  let ?bytes = "sum_list (map (\<lambda>j. ucast (iov_len (iov_entry w p j)) :: u32) [0..<?n])"
  have call: "ws_peek_iovec w p = Some (True, ?c, ?bytes, w\<lparr>ws_iovec := ?es @ drop ?n (ws_iovec w)\<rparr>)"
    using cnt ne ws_fill_iov_ok [of 0 ?n "ws_iovec w" w p 0] le
    by (simp add: ws_peek_iovec_def Let_def)
  have "?bytes = sum_list (map (\<lambda>j. of_nat (length (gather (bp_bufs p) (iov_entry w p j)))) [0..<?n])"
    using iov_entry_block(2) [OF inv own] by (intro arg_cong [of _ _ sum_list] map_cong) simp_all
  also have "\<dots> = of_nat (length (ws_out p w))"
    using iov_entries_out [OF inv own] by (simp add: sum_list_of_nat_length comp_def)
  finally have "unat ?bytes = unat (of_nat (length (ws_out p w)) :: u32)" by (rule arg_cong)
  moreover have "length (ws_out p w) < 2 ^ 32"
    using bp_bytes_bound [OF own] by (simp add: ws_out_def)
  ultimately have "unat ?bytes = length (ws_out p w)"
    by (simp add: unat_of_nat)
  then show ?thesis
    using call cnt le iov_entries_out [OF inv own] by auto
qed

section \<open>Reset\<close>

lemma ws_reset_ok:
  assumes inv: "ws_inv p w" and own: "bp_owned p (wb_slist w @ wb_plist w @ rest)"
  shows "\<exists>w' p'. ws_reset w p = Some (w', p') \<and> ws_inv p' w' \<and> wb_slist w' = [] \<and> wb_plist w' = [] \<and>
    bp_owned p' rest \<and> bp_free p' = bp_free p @ wb_slist w @ wb_plist w \<and>
    bp_frame (set (wb_slist w @ wb_plist w)) p p'"
proof -
  have sh: "wb_shape w" using inv by (simp add: ws_inv_def)
  let ?w = "w\<lparr>wb_send_head := 0, wb_send_tail := 0, wb_pending_head := 0, wb_pending_tail := 0,
             ws_head_offset := 0\<rparr>"
  obtain p1 where p1: "release_all bp_release (wb_slist w) p = Some p1" "bp_owned p1 (wb_plist w @ rest)"
      "bp_free p1 = bp_free p @ wb_slist w" "bp_frame (set (wb_slist w)) p p1"
    using bp_owned_release_all [OF own] by blast
  obtain p2 where p2: "release_all bp_release (wb_plist w) p1 = Some p2" "bp_owned p2 rest"
      "bp_free p2 = bp_free p1 @ wb_plist w" "bp_frame (set (wb_plist w)) p1 p2"
    using bp_owned_release_all [OF p1(2)] by blast
  have "ws_reset w p = Some (?w, p2)"
    using p1(1) p2(1) by (simp add: ws_reset_def release_range_eq wb_slist_def wb_plist_def)
  moreover have "wb_slist ?w = []" "wb_plist ?w = []"
    by (simp_all add: wb_slist_def wb_plist_def ring_list_def)
  moreover from this have "ws_inv p2 ?w"
    using inv ring_ok_empty [OF wb_rings(1) [OF sh]] ring_ok_empty [OF wb_rings(2) [OF sh]]
    by (simp add: ws_inv_def wb_shape_def)
  ultimately show ?thesis
    using p1 p2 bp_frame_trans [OF p1(4) p2(4)] by simp
qed

end
