(* ===== verification/Write_Stream_Spec.thy ===== *)
theory Write_Stream_Spec
  imports Write_Stream
begin

text \<open>
  What a TCP write buffer promises, over whole executions. \<open>stream_spec\<close> is the abstract buffer: the
  bytes being built and the bytes submitted and not yet sent. Every operation of \<^verbatim>\<open>WriteBufStream\<close>
  simulates the operation on it (\<open>stream_refines\<close>). \<open>ws_trace\<close> is the set of executions of one
  connection's write buffer with the kernel and with the other holders of blocks of the same pool;
  along each of them the bytes the kernel reads through the \<^verbatim>\<open>iovec\<close>s are the bytes accepted by
  \<^verbatim>\<open>append\<close>, each once and in order.
\<close>

section \<open>The abstract buffer\<close>

record stream_spec =
  sp_pending :: "byte list"
  sp_out :: "byte list"

datatype stream_op =
    Append "byte list"
  | Prepend "byte list"
  | Submit
  | Discard
  | Written u32
  | Reset

text \<open>The effect of an operation, given whether it reported success.\<close>

fun spec_step :: "stream_op \<Rightarrow> bool \<Rightarrow> stream_spec \<Rightarrow> stream_spec" where
  "spec_step op False s = s"
| "spec_step (Append d) True s = s\<lparr>sp_pending := sp_pending s @ d\<rparr>"
| "spec_step (Prepend d) True s = s\<lparr>sp_pending := d @ sp_pending s\<rparr>"
| "spec_step Submit True s = s\<lparr>sp_pending := [], sp_out := sp_out s @ sp_pending s\<rparr>"
| "spec_step Discard True s = s\<lparr>sp_pending := []\<rparr>"
| "spec_step (Written n) True s = s\<lparr>sp_out := drop (unat n) (sp_out s)\<rparr>"
| "spec_step Reset True s = \<lparr>sp_pending = [], sp_out = []\<rparr>"

text \<open>
  The caller's side: sizes are \<^verbatim>\<open>unsigned int\<close>, a prepended piece leaves room for the rounding
  up, and the kernel does not report more bytes than were queued.
\<close>

fun spec_pre :: "nat \<Rightarrow> stream_op \<Rightarrow> stream_spec \<Rightarrow> bool" where
  "spec_pre bs (Append d) s \<longleftrightarrow> length d < 2 ^ 32"
| "spec_pre bs (Prepend d) s \<longleftrightarrow> length d + bs \<le> 2 ^ 32"
| "spec_pre bs (Written n) s \<longleftrightarrow> unat n \<le> length (sp_out s)"
| "spec_pre bs _ s \<longleftrightarrow> True"

section \<open>The operations on the model\<close>

fun ws_step :: "stream_op \<Rightarrow> write_stream \<Rightarrow> buf_pool \<Rightarrow> (bool \<times> write_stream \<times> buf_pool) option" where
  "ws_step (Append d) w p = wb_append d (of_nat (length d)) w p"
| "ws_step (Prepend d) w p = wb_prepend d (of_nat (length d)) w p"
| "ws_step Submit w p = (case ws_submit w of (b, w') \<Rightarrow> Some (b, w', p))"
| "ws_step Discard w p = map_option (Pair True) (wb_discard_pending w p)"
| "ws_step (Written n) w p = map_option (Pair True) (ws_consume_written n w p)"
| "ws_step Reset w p = map_option (Pair True) (ws_reset w p)"

definition ws_abs :: "buf_pool \<Rightarrow> write_stream \<Rightarrow> stream_spec" where
  "ws_abs p w = \<lparr>sp_pending = bp_bytes p (wb_plist w), sp_out = ws_out p w\<rparr>"

text \<open>The buffer is well formed and holds its blocks; \<open>rest\<close> are the blocks of the other holders.\<close>

definition ws_holds :: "u32 list \<Rightarrow> buf_pool \<Rightarrow> write_stream \<Rightarrow> bool" where
  "ws_holds rest p w \<longleftrightarrow> ws_inv p w \<and> bp_owned p (wb_plist w @ wb_slist w @ rest)"

lemma ws_holdsD:
  assumes "ws_holds rest p w"
  shows "ws_inv p w" and "wb_shape w" and "bp_owned p (wb_plist w @ wb_slist w @ rest)"
    and "bp_owned p (wb_slist w @ wb_plist w @ rest)"
  using assms bp_owned_perm [of "wb_plist w @ wb_slist w @ rest" "wb_slist w @ wb_plist w @ rest" p]
  by (simp_all add: ws_holds_def ws_inv_def)

text \<open>The two kinds of change: of the pending part with the queue framed, and of the queue.\<close>

lemma ws_frame_out:
  assumes inv: "ws_inv p w" and own: "bp_owned p (wb_plist w @ wb_slist w @ rest)"
    and sh': "wb_shape w'" and po: "wb_pending_only w w'"
    and fr: "bp_frame S p p'" and S: "S \<subseteq> set (wb_plist w) \<union> set (bp_free p)"
  shows "ws_inv p' w'" and "ws_out p' w' = ws_out p w"
    and "map (bp_block p') rest = map (bp_block p) rest"
proof -
  have sl: "wb_slist w' = wb_slist w" by (rule wb_pending_only_slist [OF po])
  have ext: "ws_iovec w' = ws_iovec w" "ws_head_offset w' = ws_head_offset w" "wb_sendq w' = wb_sendq w"
    using po by (cases w; cases w'; simp add: wb_pending_only_def)+
  have same: "bp_block p' i = bp_block p i" "bp_data_size p' i = bp_data_size p i"
    if "i \<in> set (wb_slist w @ rest)" for i
  proof -
    have "i \<in> bp_blocks p" "i \<notin> S" using own that S by (auto simp: bp_owned_def)
    then show "bp_block p' i = bp_block p i" "bp_data_size p' i = bp_data_size p i"
      using bp_frame_block [OF fr] by simp_all
  qed
  show "ws_inv p' w'"
    using inv sh' sl ext same(2) by (auto simp: ws_inv_def split: list.splits)
  have "map (bp_block p') (wb_slist w) = map (bp_block p) (wb_slist w)" using same(1) by simp
  then show "ws_out p' w' = ws_out p w"
    by (simp only: ws_out_def sl ext bp_bytes_def)
  show "map (bp_block p') rest = map (bp_block p) rest" using same(1) by simp
qed

section \<open>Refinement\<close>

text \<open>One operation: it returns, keeps the invariant and everybody's blocks, and acts as the abstract one.\<close>

definition step_refines ::
  "stream_op \<Rightarrow> u32 list \<Rightarrow> buf_pool \<Rightarrow> write_stream \<Rightarrow> bool \<Rightarrow> buf_pool \<Rightarrow> write_stream \<Rightarrow> bool" where
  "step_refines op rest p w b p' w' \<longleftrightarrow>
     ws_holds rest p' w' \<and> ws_abs p' w' = spec_step op b (ws_abs p w) \<and>
     map (bp_block p') rest = map (bp_block p) rest"

lemma refines_append:
  assumes h: "ws_holds rest p w" and len: "length d = unat sz"
  shows "\<exists>b w' p'. wb_append d sz w p = Some (b, w', p') \<and> step_refines (Append d) rest p w b p' w'"
proof -
  note D = ws_holdsD [OF h]
  obtain b w' p' where res: "wb_append d sz w p = Some (b, w', p')"
      "append_result d (wb_slist w @ rest) w p b w' p'"
    using wb_append_ok [OF D(2) D(3) len] by blast
  then have r: "wb_shape w'" "wb_pending_only w w'" "bp_owned p' (wb_plist w' @ wb_slist w @ rest)"
      "bp_frame (set (wb_plist w) \<union> set (bp_free p)) p p'"
    by (simp_all add: append_result_def)
  note fr = ws_frame_out [OF D(1,3) r(1,2,4) order_refl]
  have "bp_bytes p' (wb_plist w') = bp_bytes p (wb_plist w) @ (if b then d else [])"
    using res(2) by (auto simp: append_result_def bp_bytes_def)
  then have "step_refines (Append d) rest p w b p' w'"
    using r fr wb_pending_only_slist [OF r(2)]
    by (cases b) (simp_all add: step_refines_def ws_holds_def ws_abs_def)
  then show ?thesis using res(1) by blast
qed

lemma refines_prepend:
  assumes h: "ws_holds rest p w" and len: "length d = unat sz" and wrap: "unat sz + unat (bp_bsize p) \<le> 2 ^ 32"
  shows "\<exists>b w' p'. wb_prepend d sz w p = Some (b, w', p') \<and> step_refines (Prepend d) rest p w b p' w'"
proof -
  note D = ws_holdsD [OF h]
  obtain b w' p' where res: "wb_prepend d sz w p = Some (b, w', p')"
      "prepend_post [] d (wb_slist w @ rest) w p b w' p'"
    using wb_prepend_ok [OF D(2) D(3) len wrap] by blast
  then have r: "wb_shape w'" "wb_pending_only w w'" "bp_owned p' (wb_plist w' @ wb_slist w @ rest)"
      "bp_frame (set (bp_free p)) p p'"
    by (simp_all add: prepend_post_def)
  note fr = ws_frame_out [OF D(1,3) r(1,2,4)]
  have "bp_bytes p' (wb_plist w) = bp_bytes p (wb_plist w)"
    using D(3) by (intro bp_owned_frame_bytes [OF r(4)]) (auto simp: bp_owned_def)
  then have "bp_bytes p' (wb_plist w') = (if b then d else []) @ bp_bytes p (wb_plist w)"
    using res(2) by (simp add: prepend_post_def split: if_splits)
  then have "step_refines (Prepend d) rest p w b p' w'"
    using r fr wb_pending_only_slist [OF r(2)]
    by (cases b) (simp_all add: step_refines_def ws_holds_def ws_abs_def)
  then show ?thesis using res(1) by blast
qed

lemma refines_submit:
  assumes h: "ws_holds rest p w" and s: "ws_submit w = (b, w')"
  shows "step_refines Submit rest p w b p w'"
proof (cases b)
  case False
  then have "w' = w" using s ws_submit_ok [OF ws_holdsD(2) [OF h]] by (auto split: if_splits)
  then show ?thesis using False h by (simp add: step_refines_def)
next
  case True
  note D = ws_holdsD [OF h]
  have sl: "length (bp_block p i) = unat (bp_data_size p i)" if "i \<in> set (wb_slist w)" for i
    using that bp_ownedD(1,2) [OF D(3)] by (intro length_bp_block) auto
  have r: "ws_inv p w'" "wb_plist w' = []" "wb_slist w' = wb_slist w @ wb_plist w"
      "ws_out p w' = ws_out p w @ bp_bytes p (wb_plist w)"
    using ws_submit_inv [OF D(1) _ sl, of w'] s True by auto
  with D(4) True show ?thesis
    by (simp add: step_refines_def ws_holds_def ws_abs_def)
qed

lemma refines_discard:
  assumes h: "ws_holds rest p w"
  shows "\<exists>w' p'. wb_discard_pending w p = Some (w', p') \<and> step_refines Discard rest p w True p' w'"
proof -
  note D = ws_holdsD [OF h]
  obtain w' p' where r: "wb_discard_pending w p = Some (w', p')" "wb_shape w'" "wb_pending_only w w'"
      "wb_plist w' = []" "bp_owned p' (wb_slist w @ rest)" "bp_frame (set (wb_plist w)) p p'"
    using wb_discard_pending_ok [OF D(2) D(3)] by blast
  note fr = ws_frame_out [OF D(1,3) r(2,3,6)]
  have "step_refines Discard rest p w True p' w'"
    using r fr wb_pending_only_slist [OF r(3)] by (simp add: step_refines_def ws_holds_def ws_abs_def)
  then show ?thesis using r(1) by blast
qed

lemma refines_written:
  assumes h: "ws_holds rest p w" and n: "unat n \<le> length (ws_out p w)"
  shows "\<exists>w' p'. ws_consume_written n w p = Some (w', p') \<and> step_refines (Written n) rest p w True p' w'"
proof -
  note D = ws_holdsD [OF h]
  obtain k w' p' where r: "ws_consume_written n w p = Some (w', p')"
      "written_post (unat n) (wb_plist w @ rest) k w p w' p'"
    using ws_consume_written_ok [OF D(1) D(4) n] by blast
  then have post: "wb_slist w' = drop k (wb_slist w)" "ws_send_only w w'" "ws_inv p' w'"
      "bp_owned p' (wb_slist w' @ wb_plist w @ rest)" "bp_frame (set (take k (wb_slist w))) p p'"
      "ws_out p' w' = drop (unat n) (ws_out p w)"
    unfolding written_post_def by blast+
  have same: "bp_block p' i = bp_block p i" if "i \<in> set (wb_plist w @ rest)" for i
  proof (rule bp_frame_block(1) [OF post(5)])
    show "i \<in> bp_blocks p" "i \<notin> set (take k (wb_slist w))"
      using D(4) that by (auto simp: bp_owned_def dest: in_set_takeD)
  qed
  have "map (bp_block p') (wb_plist w) = map (bp_block p) (wb_plist w)" using same by simp
  then have "bp_bytes p' (wb_plist w) = bp_bytes p (wb_plist w)" by (simp only: bp_bytes_def)
  moreover have "bp_owned p' (wb_plist w @ wb_slist w' @ rest)"
    using post(4) by (rule bp_owned_perm [THEN iffD1, rotated]) simp
  ultimately have "step_refines (Written n) rest p w True p' w'"
    using post same ws_send_only_plist [OF post(2)] by (simp add: step_refines_def ws_holds_def ws_abs_def)
  then show ?thesis using r(1) by blast
qed

lemma refines_reset:
  assumes h: "ws_holds rest p w"
  shows "\<exists>w' p'. ws_reset w p = Some (w', p') \<and> step_refines Reset rest p w True p' w'"
proof -
  note D = ws_holdsD [OF h]
  obtain w' p' where r: "ws_reset w p = Some (w', p')" "ws_inv p' w'" "wb_slist w' = []" "wb_plist w' = []"
      "bp_owned p' rest" "bp_frame (set (wb_slist w @ wb_plist w)) p p'"
    using ws_reset_ok [OF D(1) D(4)] by blast
  have "map (bp_block p') rest = map (bp_block p) rest"
    using D(4) by (auto simp: bp_owned_def intro!: bp_frame_block(1) [OF r(6)])
  moreover have "ws_head_offset w' = 0" using r(2,3) by (simp add: ws_inv_def)
  ultimately have "step_refines Reset rest p w True p' w'"
    using r by (simp add: step_refines_def ws_holds_def ws_abs_def ws_out_def)
  then show ?thesis using r(1) by blast
qed

lemmas refines_steps =
  refines_append refines_prepend refines_submit refines_discard refines_written refines_reset

text \<open>
  C2: the TCP write buffer refines the abstract byte stream. Whenever the caller's side
  (\<open>spec_pre\<close>) holds, each of \<^verbatim>\<open>append\<close>, \<^verbatim>\<open>prepend\<close>, \<^verbatim>\<open>submit\<close>, \<^verbatim>\<open>discard_pending\<close>,
  \<^verbatim>\<open>consume_written\<close> and \<^verbatim>\<open>reset\<close> returns without tripping an assertion or leaving its
  allocations, acts on the pending and queued bytes as the abstract operation does (nothing at all
  when it reports failure), keeps the ownership invariant, and leaves the bytes of every other
  holder of blocks of the pool as they were.
\<close>

theorem stream_refines:
  assumes "ws_holds rest p w" and "spec_pre (unat (bp_bsize p)) op (ws_abs p w)"
  shows "\<exists>b w' p'. ws_step op w p = Some (b, w', p') \<and> ws_holds rest p' w' \<and>
    ws_abs p' w' = spec_step op b (ws_abs p w) \<and> map (bp_block p') rest = map (bp_block p) rest"
proof -
  have sz: "length d = unat (of_nat (length d) :: u32)" if "length d < 2 ^ 32" for d :: "byte list"
    using that by (simp add: unat_of_nat)
  have "\<exists>b w' p'. ws_step op w p = Some (b, w', p') \<and> step_refines op rest p w b p' w'"
  proof (cases op)
    case (Append d)
    then show ?thesis using refines_append [OF assms(1) sz] assms(2) by simp
  next
    case (Prepend d)
    have lt: "length d < 2 ^ 32"
      using Prepend assms(2) bp_size_bound(2) [OF ws_holdsD(3) [OF assms(1)]] by simp
    then show ?thesis
      using refines_prepend [OF assms(1) sz [OF lt]] Prepend assms(2) sz [OF lt] by simp
  next
    case Submit
    then show ?thesis using refines_submit [OF assms(1)] by (cases "ws_submit w") simp
  next
    case Discard
    then show ?thesis using refines_discard [OF assms(1)] by auto
  next
    case (Written n)
    then show ?thesis using refines_written [OF assms(1)] assms(2) by (fastforce simp: ws_abs_def)
  next
    case Reset
    then show ?thesis using refines_reset [OF assms(1)] by auto
  qed
  then show ?thesis by (simp only: step_refines_def)
qed

lemma sample_ws_holds: "ws_holds [] sample_pool sample_ws"
  using write_stream_new_ok [of 2 "[0, 0, 0, 0]" "[0, 0, 0, 0]"
      "replicate 4 \<lparr>iov_base = None, iov_len = 0\<rparr>"] sample_pool_owned
  by (simp add: sample_ws_def ws_holds_def)

theorem stream_refines_witness:
  "\<exists>b w' p'. ws_step (Append [1, 2, 3, 4, 5]) sample_ws sample_pool = Some (b, w', p') \<and>
     ws_abs p' w' = spec_step (Append [1, 2, 3, 4, 5]) b (ws_abs sample_pool sample_ws) \<and>
     sp_pending (ws_abs p' w') = [1, 2, 3, 4, 5]"
proof -
  have "map_option (\<lambda>(b, w', p'). sp_pending (ws_abs p' w'))
      (ws_step (Append [1, 2, 3, 4, 5]) sample_ws sample_pool) = Some [1, 2, 3, 4, 5]"
    by code_simp
  then show ?thesis
    using stream_refines [OF sample_ws_holds, of "Append [1, 2, 3, 4, 5]"] by fastforce
qed

section \<open>Executions\<close>

text \<open>
  \<open>ws_trace w p rest sent accepted\<close>: an execution has reached buffer \<open>w\<close> and pool \<open>p\<close>, with \<open>rest\<close> the
  blocks others hold, after the kernel read the bytes \<open>sent\<close> and successful appends took the bytes
  \<open>accepted\<close>. A write step is one turn of the write coroutine: \<^verbatim>\<open>peek_iovec\<close>, a \<^verbatim>\<open>writev\<close> that
  takes the first \<open>n\<close> bytes the vector describes, \<^verbatim>\<open>consume_written(n)\<close>. An \<open>other\<close> step is any activity
  of the other users of the pool that respects ownership.
\<close>

definition iov_bytes :: "buf_pool \<Rightarrow> i32 \<Rightarrow> write_stream \<Rightarrow> byte list" where
  "iov_bytes p cnt w = concat (map (gather (bp_bufs p)) (take (nat (sint cnt)) (ws_iovec w)))"

inductive ws_trace :: "write_stream \<Rightarrow> buf_pool \<Rightarrow> u32 list \<Rightarrow> byte list \<Rightarrow> byte list \<Rightarrow> bool" where
  start: "k < 31 \<Longrightarrow> length pend = 2 ^ k \<Longrightarrow> length sq = 2 ^ k \<Longrightarrow> length iov = 2 ^ k \<Longrightarrow> bp_owned p rest \<Longrightarrow>
    ws_trace (write_stream_new pend sq iov (2 ^ k)) p rest [] []"
| append: "ws_trace w p rest sent acc \<Longrightarrow> length d = unat sz \<Longrightarrow> wb_append d sz w p = Some (b, w', p') \<Longrightarrow>
    ws_trace w' p' rest sent (acc @ (if b then d else []))"
| submit: "ws_trace w p rest sent acc \<Longrightarrow> ws_submit w = (b, w') \<Longrightarrow> ws_trace w' p rest sent acc"
| writev: "ws_trace w p rest sent acc \<Longrightarrow> ws_peek_iovec w p = Some (True, cnt, bytes, w1) \<Longrightarrow>
    unat n \<le> unat bytes \<Longrightarrow> ws_consume_written n w1 p = Some (w', p') \<Longrightarrow>
    ws_trace w' p' rest (sent @ take (unat n) (iov_bytes p cnt w1)) acc"
| other: "ws_trace w p rest sent acc \<Longrightarrow> bp_owned p' (wb_plist w @ wb_slist w @ rest') \<Longrightarrow>
    (\<And>i. i \<in> set (wb_plist w @ wb_slist w) \<Longrightarrow>
       bp_block p' i = bp_block p i \<and> bp_data_size p' i = bp_data_size p i) \<Longrightarrow>
    ws_trace w p' rest' sent acc"

lemma ws_iovec_scratch:
  "ws_holds rest p (w\<lparr>ws_iovec := iov\<rparr>) \<longleftrightarrow> ws_holds rest p w"
  "ws_abs p (w\<lparr>ws_iovec := iov\<rparr>) = ws_abs p w"
  "ws_out p (w\<lparr>ws_iovec := iov\<rparr>) = ws_out p w"
  if "length iov = length (ws_iovec w)"
  using that
  by (simp_all add: ws_holds_def ws_abs_def ws_out_def ws_inv_def wb_shape_def wb_slist_def wb_plist_def
      cong: list.case_cong)

lemma ws_peek_holds:
  assumes h: "ws_holds rest p w" and pk: "ws_peek_iovec w p = Some (True, cnt, bytes, w1)"
  shows "ws_holds rest p w1" and "ws_abs p w1 = ws_abs p w" and "iov_bytes p cnt w1 = ws_out p w"
    and "unat bytes = length (ws_out p w)"
proof -
  note D = ws_holdsD [OF h]
  have ne: "wb_slist w \<noteq> []"
  proof
    assume "wb_slist w = []"
    then have "wb_send_tail w - wb_send_head w = 0" by (simp add: wb_slist_empty)
    then show False using pk by (simp add: ws_peek_iovec_def)
  qed
  obtain iov where "w1 = w\<lparr>ws_iovec := iov\<rparr>" "sint cnt = int (length (wb_slist w))"
      "unat bytes = length (ws_out p w)" "length iov = length (ws_iovec w)"
      "concat (map (gather (bp_bufs p)) (take (length (wb_slist w)) iov)) = ws_out p w"
    using ws_peek_iovec_ok [OF D(1) D(4) ne] pk by auto
  then show "ws_holds rest p w1" "ws_abs p w1 = ws_abs p w" "iov_bytes p cnt w1 = ws_out p w"
      "unat bytes = length (ws_out p w)"
    using h by (simp_all add: ws_iovec_scratch iov_bytes_def)
qed

lemma ws_other_holds:
  assumes h: "ws_holds rest p w" and own: "bp_owned p' (wb_plist w @ wb_slist w @ rest')"
    and same: "\<And>i. i \<in> set (wb_plist w @ wb_slist w) \<Longrightarrow>
       bp_block p' i = bp_block p i \<and> bp_data_size p' i = bp_data_size p i"
  shows "ws_holds rest' p' w" and "ws_abs p' w = ws_abs p w"
proof -
  have "map (bp_block p') (wb_plist w) = map (bp_block p) (wb_plist w)"
    and "map (bp_block p') (wb_slist w) = map (bp_block p) (wb_slist w)"
    using same by simp_all
  then show "ws_abs p' w = ws_abs p w" by (simp only: ws_abs_def ws_out_def bp_bytes_def)
  show "ws_holds rest' p' w"
    using ws_holdsD(1) [OF h] own same by (auto simp: ws_holds_def ws_inv_def split: list.splits)
qed

lemma ws_trace_inv:
  assumes "ws_trace w p rest sent acc"
  shows "ws_holds rest p w \<and> acc = sent @ sp_out (ws_abs p w) @ sp_pending (ws_abs p w)"
  using assms
proof induction
  case (start k pend sq iov p rest)
  then show ?case
    using write_stream_new_ok [OF start(1-4)] by (simp add: ws_holds_def ws_abs_def ws_out_def)
next
  case (append w p rest sent acc d sz b w' p')
  then have "step_refines (Append d) rest p w b p' w'" using refines_append by fastforce
  then show ?case using append by (cases b) (auto simp: step_refines_def)
next
  case (submit w p rest sent acc b w')
  then have "step_refines Submit rest p w b p w'" using refines_submit by blast
  then show ?case using submit by (cases b) (auto simp: step_refines_def)
next
  case (writev w p rest sent acc cnt bytes w1 n w' p')
  note pk = ws_peek_holds [OF conjunct1 [OF writev.IH] writev.hyps(2)]
  have "unat n \<le> length (ws_out p w1)" using writev.hyps(3) pk(2,4) by (simp add: ws_abs_def)
  then have "step_refines (Written n) rest p w1 True p' w'"
    using refines_written [OF pk(1)] writev.hyps(4) by fastforce
  then show ?case
    using writev.IH pk(2,3) by (auto simp: step_refines_def ws_abs_def append_take_drop_id [symmetric])
next
  case (other w p rest sent acc p' rest')
  then show ?case using ws_other_holds by metis
qed

text \<open>
  C3: first in, first out, exactly once. Along every execution of a TCP write buffer, the bytes the
  kernel has read, followed by those queued and those pending, are the bytes the successful appends
  took. Partial writes, the wrap-around of the rings, failed appends and other channels sharing the
  pool neither lose, repeat, reorder nor corrupt a byte. And no operation can get stuck there: the
  next append returns, and \<^verbatim>\<open>consume_written\<close> returns for every count the kernel may report.
\<close>

theorem stream_fifo:
  assumes "ws_trace w p rest sent acc"
  shows "acc = sent @ ws_out p w @ bp_bytes p (wb_plist w) \<and>
    (\<forall>d sz. length d = unat sz \<longrightarrow> wb_append d sz w p \<noteq> None) \<and>
    (\<forall>n. unat n \<le> length (ws_out p w) \<longrightarrow> ws_consume_written n w p \<noteq> None)"
proof -
  have h: "ws_holds rest p w" using ws_trace_inv [OF assms] by blast
  have "\<forall>d sz. length d = unat sz \<longrightarrow> wb_append d sz w p \<noteq> None"
    using refines_append [OF h] by fastforce
  moreover have "\<forall>n. unat n \<le> length (ws_out p w) \<longrightarrow> ws_consume_written n w p \<noteq> None"
    using refines_written [OF h] by fastforce
  ultimately show ?thesis using ws_trace_inv [OF assms] by (simp add: ws_abs_def)
qed

theorem stream_fifo_witness:
  "\<exists>w p. ws_trace w p [] [1, 2] [1, 2, 3, 4, 5] \<and> ws_out p w = [3, 4, 5] \<and>
     [1, 2, 3, 4, 5] = [1, 2] @ ws_out p w @ bp_bytes p (wb_plist w)"
proof -
  define s1 where "s1 = the (wb_append [1, 2, 3, 4, 5] 5 sample_ws sample_pool)"
  define w1 where "w1 = fst (snd s1)"
  define p1 where "p1 = snd (snd s1)"
  define w2 where "w2 = snd (ws_submit w1)"
  define pk where "pk = the (ws_peek_iovec w2 p1)"
  define w3 where "w3 = snd (snd (snd pk))"
  define s4 where "s4 = the (ws_consume_written 2 w3 p1)"
  note states = s1_def w1_def p1_def w2_def pk_def w3_def s4_def
  have "ws_trace (write_stream_new [0, 0, 0, 0] [0, 0, 0, 0]
      (replicate 4 \<lparr>iov_base = None, iov_len = 0\<rparr>) (2 ^ 2)) sample_pool [] [] []"
    by (rule ws_trace.start) (simp_all add: sample_pool_owned)
  then have "ws_trace sample_ws sample_pool [] [] []" by (simp add: sample_ws_def)
  moreover have "wb_append [1, 2, 3, 4, 5] 5 sample_ws sample_pool = Some (True, w1, p1)"
    unfolding states by code_simp
  ultimately have "ws_trace w1 p1 [] [] [1, 2, 3, 4, 5]"
    using ws_trace.append [of sample_ws sample_pool "[]" "[]" "[]" "[1, 2, 3, 4, 5]" 5 True w1 p1] by simp
  then have t2: "ws_trace w2 p1 [] [] [1, 2, 3, 4, 5]"
    by (rule ws_trace.submit [of _ _ _ _ _ "fst (ws_submit w1)"]) (simp add: w2_def)
  have pk: "ws_peek_iovec w2 p1 = Some (True, 2, 5, w3)"
    unfolding states by code_simp
  have cs: "ws_consume_written 2 w3 p1 = Some (fst s4, snd s4)"
    unfolding states by code_simp
  have "take (unat (2 :: u32)) (iov_bytes p1 2 w3) = [1, 2]"
    unfolding states by code_simp
  with ws_trace.writev [OF t2 pk _ cs] have t4: "ws_trace (fst s4) (snd s4) [] [1, 2] [1, 2, 3, 4, 5]"
    by simp
  moreover have "ws_out (snd s4) (fst s4) = [3, 4, 5]"
    unfolding states by code_simp
  ultimately show ?thesis using stream_fifo [OF t4] by blast
qed

end
