(* ===== verification/Awaiter.thy ===== *)
theory Awaiter
  imports Prelude
begin

text \<open>
  The awaitables of \<^verbatim>\<open>include/core/awaiter.hpp\<close> and \<^verbatim>\<open>src/core/awaiter.cpp\<close>. A \<^verbatim>\<open>coroutine_handle<>\<close> that
  may be empty is an \<open>'h option\<close>. \<^verbatim>\<open>h.resume()\<close> runs the coroutine on the spot, so an operation that
  resumes returns the handle to its caller, who runs the body.
\<close>

section \<open>Token: one completion\<close>

record 'h token =
  tk_handle :: "'h option"
  tk_res :: i32
  tk_flag :: i32

definition token_new :: "'h token" where
  "token_new = \<lparr>tk_handle = None, tk_res = 0, tk_flag = 0\<rparr>"

definition token_await_suspend :: "'h \<Rightarrow> 'h token \<Rightarrow> 'h token" where
  "token_await_suspend h t = t\<lparr>tk_handle := Some h\<rparr>"

definition token_await_resume :: "'h token \<Rightarrow> i32" where
  "token_await_resume t = tk_res t"

text \<open>\<^verbatim>\<open>Token::complete\<close>: the handle to resume, if any, and the token.\<close>

definition token_complete :: "i32 \<Rightarrow> i32 \<Rightarrow> 'h token \<Rightarrow> 'h option \<times> 'h token" where
  "token_complete res flag t = (tk_handle t, t\<lparr>tk_res := res, tk_flag := flag, tk_handle := None\<rparr>)"

section \<open>NotifyToken: a binary event\<close>

record 'h notify_token =
  nt_pending :: bool
  nt_closed :: bool
  nt_handle :: "'h option"

definition notify_token_new :: "'h notify_token" where
  "notify_token_new = \<lparr>nt_pending = False, nt_closed = False, nt_handle = None\<rparr>"

definition nt_await_ready :: "'h notify_token \<Rightarrow> bool \<times> 'h notify_token" where
  "nt_await_ready t = (if nt_pending t then (True, t\<lparr>nt_pending := False\<rparr>) else (False, t))"

definition nt_await_suspend :: "'h \<Rightarrow> 'h notify_token \<Rightarrow> 'h notify_token" where
  "nt_await_suspend h t = t\<lparr>nt_handle := Some h\<rparr>"

definition nt_notify :: "'h notify_token \<Rightarrow> 'h option \<times> 'h notify_token" where
  "nt_notify t = (case nt_handle t of
     Some h \<Rightarrow> (Some h, t\<lparr>nt_handle := None\<rparr>)
   | None \<Rightarrow> (None, t\<lparr>nt_pending := True\<rparr>))"

definition nt_notify_close :: "'h notify_token \<Rightarrow> 'h option \<times> 'h notify_token" where
  "nt_notify_close t = (case nt_handle t of
     Some h \<Rightarrow> (Some h, t\<lparr>nt_closed := True, nt_handle := None\<rparr>)
   | None \<Rightarrow> (None, t\<lparr>nt_closed := True, nt_pending := True\<rparr>))"

text \<open>\<^verbatim>\<open>co_await\<close> on the token by coroutine \<open>h\<close>: whether it goes on at once, and the token.\<close>

definition nt_co_await :: "'h \<Rightarrow> 'h notify_token \<Rightarrow> bool \<times> 'h notify_token" where
  "nt_co_await h t = (case nt_await_ready t of
     (True, t') \<Rightarrow> (True, t')
   | (False, t') \<Rightarrow> (False, nt_await_suspend h t'))"

section \<open>No wake-up is lost\<close>

text \<open>
  The life of a token with one consumer coroutine \<open>h\<close>, which awaits it again and again, and any number
  of notifications. \<open>running\<close>: the consumer is not suspended. \<open>due\<close>: a notification came after the
  consumer last went past the await.
\<close>

inductive nt_run :: "'h \<Rightarrow> 'h notify_token \<Rightarrow> bool \<Rightarrow> bool \<Rightarrow> bool" for h where
  nt_start: "nt_run h notify_token_new True False"
| nt_wait_go: "nt_run h t True due \<Longrightarrow> nt_co_await h t = (True, t') \<Longrightarrow> nt_run h t' True False"
| nt_wait_block: "nt_run h t True due \<Longrightarrow> nt_co_await h t = (False, t') \<Longrightarrow> nt_run h t' False due"
| nt_wake: "nt_run h t running due \<Longrightarrow> nt_notify t = (Some g, t') \<or> nt_notify_close t = (Some g, t') \<Longrightarrow>
    nt_run h t' True False"
| nt_store: "nt_run h t running due \<Longrightarrow> nt_notify t = (None, t') \<or> nt_notify_close t = (None, t') \<Longrightarrow>
    nt_run h t' running True"

lemmas nt_defs = nt_co_await_def nt_await_ready_def nt_await_suspend_def nt_notify_def nt_notify_close_def
  notify_token_new_def

lemma nt_run_inv:
  assumes "nt_run h t running due"
  shows "(nt_handle t = (if running then None else Some h)) \<and> (nt_pending t \<longleftrightarrow> due) \<and> (\<not> running \<longrightarrow> \<not> due)"
  using assms by induction (auto simp: nt_defs split: if_splits option.splits)

text \<open>
  C19: \<^verbatim>\<open>NotifyToken\<close> loses no wake-up and makes up none. Whatever the interleaving of awaits and
  notifications: a notification resumes the consumer if it is suspended and never another coroutine;
  otherwise the consumer's next await does not block. An await that finds no notification since the
  last one blocks, so one notification wakes the consumer once.
\<close>

theorem notify_token_no_lost_wakeup:
  assumes "nt_run h t running due"
  shows "(fst (nt_notify t) = (if running then None else Some h)) \<and>
    (fst (nt_notify_close t) = (if running then None else Some h)) \<and>
    (fst (nt_co_await h t) \<longleftrightarrow> due) \<and> 
    (running \<longrightarrow> fst (nt_co_await h (snd (nt_notify t))) \<and> fst (nt_co_await h (snd (nt_notify_close t))))"
  using nt_run_inv [OF assms] by (auto simp: nt_defs split: option.split)

theorem notify_token_no_lost_wakeup_witness:
  "nt_run (0::nat) \<lparr>nt_pending = True, nt_closed = False, nt_handle = None\<rparr> True True \<and>
   fst (nt_co_await (0::nat) \<lparr>nt_pending = True, nt_closed = False, nt_handle = None\<rparr>)"
proof -
  have "nt_run (0::nat) \<lparr>nt_pending = True, nt_closed = False, nt_handle = None\<rparr> True True"
    by (rule nt_store [OF nt_start]) (simp add: nt_defs)
  from this notify_token_no_lost_wakeup [OF this] show ?thesis by simp
qed

text \<open>Closing is sticky: no operation but a fresh token clears \<^verbatim>\<open>closed_\<close>.\<close>

lemma nt_closed_sticky:
  "nt_closed (snd (nt_notify_close t))"
  "nt_closed t \<Longrightarrow> nt_closed (snd (nt_notify t))"
  "nt_closed t \<Longrightarrow> nt_closed (snd (nt_co_await h t))"
  by (auto simp: nt_defs split: option.split)

end
