(* ===== verification/Io_Ring.thy ===== *)
theory Io_Ring
  imports Prelude
begin

text \<open>
  \<^verbatim>\<open>Sqe\<close>, \<^verbatim>\<open>Cqe\<close> and \<^verbatim>\<open>IoRing\<close> (\<^verbatim>\<open>include/core/io_ring.hpp\<close>, \<^verbatim>\<open>src/core/io_ring.cpp\<close>), the wrappers around
  liburing. liburing itself is a parameter: \<open>uring\<close> collects the calls the wrappers make, on a ring
  state \<open>'r\<close> that the wrappers only pass along. A submission entry records which request was prepared
  with which arguments; \<open>'p\<close> stands for the pointers in them (\<^term>\<open>None\<close> is null) and \<open>'t\<close> for the
  completion tokens. The exceptions the wrappers throw are values of a sum.
\<close>

section \<open>Submission entries\<close>

text \<open>
  The user data of an entry: null, the sentinel \<^verbatim>\<open>(void *)-1\<close> of the wake-up read, or a token.
\<close>

datatype 't user_data = Null_Data | Minus_One | Tok 't

datatype 'p sqe_op =
    Op_Read i32 "'p option" u32 u64
  | Op_Read_Fixed i32 "'p option" u32 u64 i32
  | Op_Readv i32 "'p option" u32 u64
  | Op_Write i32 "'p option" u32 u64
  | Op_Writev i32 "'p option" u32 u64
  | Op_Write_Fixed i32 "'p option" u32 u64 i32
  | Op_Accept i32 "'p option" "'p option" i32
  | Op_Multishot_Accept i32 "'p option" "'p option" i32
  | Op_Accept_Direct i32 "'p option" "'p option" i32 i32
  | Op_Multishot_Accept_Direct i32 "'p option" "'p option" i32
  | Op_Recv i32 "'p option" u32 i32
  | Op_Recv_Multishot i32 "'p option" u32 i32
  | Op_Recvmsg i32 "'p option" i32
  | Op_Recvmsg_Multishot i32 "'p option" i32
  | Op_Send i32 "'p option" u32 i32
  | Op_Sendmsg i32 "'p option" i32
  | Op_Msg_Ring i32 u32 "'p option" i32
  | Op_Msg_Ring_Fd i32 i32 i32 "'p option" i32
  | Op_Msg_Ring_Fd_Alloc i32 u32 "'p option" i32
  | Op_Cancel64 u64 i32

record ('p, 't) sqe =
  sqe_op :: "'p sqe_op option"
  sqe_flags :: "8 word"
  sqe_buf_group :: u16
  sqe_data :: "'t user_data"

text \<open>An entry as \<^verbatim>\<open>io_uring_get_sqe\<close> hands it out.\<close>

definition fresh_sqe :: "('p, 't) sqe" where
  "fresh_sqe = \<lparr>sqe_op = None, sqe_flags = 0, sqe_buf_group = 0, sqe_data = Null_Data\<rparr>"

definition prep_read :: "i32 \<Rightarrow> 'p option \<Rightarrow> u32 \<Rightarrow> u64 \<Rightarrow> ('p, 't) sqe \<Rightarrow> ('p, 't) sqe" where
  "prep_read fd buf nbytes offset q = q\<lparr>sqe_op := Some (Op_Read fd buf nbytes offset)\<rparr>"

definition prep_read_fixed :: "i32 \<Rightarrow> 'p option \<Rightarrow> u32 \<Rightarrow> u64 \<Rightarrow> i32 \<Rightarrow> ('p, 't) sqe \<Rightarrow> ('p, 't) sqe" where
  "prep_read_fixed fd buf nbytes offset buf_index q = q\<lparr>sqe_op := Some (Op_Read_Fixed fd buf nbytes offset buf_index)\<rparr>"

definition prep_readv :: "i32 \<Rightarrow> 'p option \<Rightarrow> u32 \<Rightarrow> u64 \<Rightarrow> ('p, 't) sqe \<Rightarrow> ('p, 't) sqe" where
  "prep_readv fd iov nr_vecs offset q = q\<lparr>sqe_op := Some (Op_Readv fd iov nr_vecs offset)\<rparr>"

definition prep_write :: "i32 \<Rightarrow> 'p option \<Rightarrow> u32 \<Rightarrow> u64 \<Rightarrow> ('p, 't) sqe \<Rightarrow> ('p, 't) sqe" where
  "prep_write fd buf nbytes offset q = q\<lparr>sqe_op := Some (Op_Write fd buf nbytes offset)\<rparr>"

definition prep_writev :: "i32 \<Rightarrow> 'p option \<Rightarrow> u32 \<Rightarrow> u64 \<Rightarrow> ('p, 't) sqe \<Rightarrow> ('p, 't) sqe" where
  "prep_writev fd iov nr_vecs offset q = q\<lparr>sqe_op := Some (Op_Writev fd iov nr_vecs offset)\<rparr>"

definition prep_write_fixed :: "i32 \<Rightarrow> 'p option \<Rightarrow> u32 \<Rightarrow> u64 \<Rightarrow> i32 \<Rightarrow> ('p, 't) sqe \<Rightarrow> ('p, 't) sqe" where
  "prep_write_fixed fd buf nbytes offset buf_index q = q\<lparr>sqe_op := Some (Op_Write_Fixed fd buf nbytes offset buf_index)\<rparr>"

definition prep_accept :: "i32 \<Rightarrow> 'p option \<Rightarrow> 'p option \<Rightarrow> i32 \<Rightarrow> ('p, 't) sqe \<Rightarrow> ('p, 't) sqe" where
  "prep_accept fd addr addrlen flags q = q\<lparr>sqe_op := Some (Op_Accept fd addr addrlen flags)\<rparr>"

definition prep_multishot_accept :: "i32 \<Rightarrow> 'p option \<Rightarrow> 'p option \<Rightarrow> i32 \<Rightarrow> ('p, 't) sqe \<Rightarrow> ('p, 't) sqe" where
  "prep_multishot_accept fd addr addrlen flags q = q\<lparr>sqe_op := Some (Op_Multishot_Accept fd addr addrlen flags)\<rparr>"

definition prep_accept_direct :: "i32 \<Rightarrow> 'p option \<Rightarrow> 'p option \<Rightarrow> i32 \<Rightarrow> i32 \<Rightarrow> ('p, 't) sqe \<Rightarrow> ('p, 't) sqe" where
  "prep_accept_direct fd addr addrlen flags file_index q = q\<lparr>sqe_op := Some (Op_Accept_Direct fd addr addrlen flags file_index)\<rparr>"

definition prep_multishot_accept_direct :: "i32 \<Rightarrow> 'p option \<Rightarrow> 'p option \<Rightarrow> i32 \<Rightarrow> ('p, 't) sqe \<Rightarrow> ('p, 't) sqe" where
  "prep_multishot_accept_direct fd addr addrlen flags q = q\<lparr>sqe_op := Some (Op_Multishot_Accept_Direct fd addr addrlen flags)\<rparr>"

definition prep_recv :: "i32 \<Rightarrow> 'p option \<Rightarrow> u32 \<Rightarrow> i32 \<Rightarrow> ('p, 't) sqe \<Rightarrow> ('p, 't) sqe" where
  "prep_recv fd buf nbytes flags q = q\<lparr>sqe_op := Some (Op_Recv fd buf nbytes flags)\<rparr>"

definition prep_multishot_recv :: "i32 \<Rightarrow> 'p option \<Rightarrow> u32 \<Rightarrow> i32 \<Rightarrow> ('p, 't) sqe \<Rightarrow> ('p, 't) sqe" where
  "prep_multishot_recv fd buf nbytes flags q = q\<lparr>sqe_op := Some (Op_Recv_Multishot fd buf nbytes flags)\<rparr>"

definition prep_recvmsg :: "i32 \<Rightarrow> 'p option \<Rightarrow> i32 \<Rightarrow> ('p, 't) sqe \<Rightarrow> ('p, 't) sqe" where
  "prep_recvmsg fd msg flags q = q\<lparr>sqe_op := Some (Op_Recvmsg fd msg flags)\<rparr>"

definition prep_multishot_recvmsg :: "i32 \<Rightarrow> 'p option \<Rightarrow> i32 \<Rightarrow> ('p, 't) sqe \<Rightarrow> ('p, 't) sqe" where
  "prep_multishot_recvmsg fd msg flags q = q\<lparr>sqe_op := Some (Op_Recvmsg_Multishot fd msg flags)\<rparr>"

definition prep_send :: "i32 \<Rightarrow> 'p option \<Rightarrow> u32 \<Rightarrow> i32 \<Rightarrow> ('p, 't) sqe \<Rightarrow> ('p, 't) sqe" where
  "prep_send fd buf nbytes flags q = q\<lparr>sqe_op := Some (Op_Send fd buf nbytes flags)\<rparr>"

definition prep_sendmsg :: "i32 \<Rightarrow> 'p option \<Rightarrow> i32 \<Rightarrow> ('p, 't) sqe \<Rightarrow> ('p, 't) sqe" where
  "prep_sendmsg fd msg flags q = q\<lparr>sqe_op := Some (Op_Sendmsg fd msg flags)\<rparr>"

definition prep_msg_ring :: "i32 \<Rightarrow> u32 \<Rightarrow> 'p option \<Rightarrow> i32 \<Rightarrow> ('p, 't) sqe \<Rightarrow> ('p, 't) sqe" where
  "prep_msg_ring fd len data flags q = q\<lparr>sqe_op := Some (Op_Msg_Ring fd len data flags)\<rparr>"

definition prep_msg_ring_fd :: "i32 \<Rightarrow> i32 \<Rightarrow> i32 \<Rightarrow> 'p option \<Rightarrow> i32 \<Rightarrow> ('p, 't) sqe \<Rightarrow> ('p, 't) sqe" where
  "prep_msg_ring_fd fd source_fd target_fd data flags q = q\<lparr>sqe_op := Some (Op_Msg_Ring_Fd fd source_fd target_fd data flags)\<rparr>"

definition prep_msg_ring_fd_alloc :: "i32 \<Rightarrow> u32 \<Rightarrow> 'p option \<Rightarrow> i32 \<Rightarrow> ('p, 't) sqe \<Rightarrow> ('p, 't) sqe" where
  "prep_msg_ring_fd_alloc fd len data flags q = q\<lparr>sqe_op := Some (Op_Msg_Ring_Fd_Alloc fd len data flags)\<rparr>"

text \<open>\<^verbatim>\<open>IORING_ASYNC_CANCEL_ALL | IORING_ASYNC_CANCEL_ANY\<close>\<close>

definition prep_cancel_all :: "('p, 't) sqe \<Rightarrow> ('p, 't) sqe" where
  "prep_cancel_all q = q\<lparr>sqe_op := Some (Op_Cancel64 0 (1 OR 4))\<rparr>"

definition set_data :: "'t user_data \<Rightarrow> ('p, 't) sqe \<Rightarrow> ('p, 't) sqe" where
  "set_data data q = q\<lparr>sqe_data := data\<rparr>"

definition set_flags :: "8 word \<Rightarrow> ('p, 't) sqe \<Rightarrow> ('p, 't) sqe" where
  "set_flags flags q = q\<lparr>sqe_flags := sqe_flags q OR flags\<rparr>"

definition set_buf_group :: "u16 \<Rightarrow> ('p, 't) sqe \<Rightarrow> ('p, 't) sqe" where
  "set_buf_group bgid q = q\<lparr>sqe_buf_group := bgid\<rparr>"

text \<open>\<^verbatim>\<open>IOSQE_BUFFER_SELECT\<close>\<close>

definition iosqe_buffer_select :: "8 word" where
  "iosqe_buffer_select = 32"

section \<open>Completions\<close>

record 't cqe =
  cqe_res :: i32
  cqe_flags :: u32
  cqe_data :: "'t user_data"

text \<open>\<^verbatim>\<open>IORING_CQE_F_MORE\<close>, and the buffer index above \<^verbatim>\<open>IORING_CQE_BUFFER_SHIFT\<close>.\<close>

definition cqe_f_more :: u32 where
  "cqe_f_more = 2"

definition cqe_buffer_shift :: nat where
  "cqe_buffer_shift = 16"

text \<open>
  \<^verbatim>\<open>(unsigned)(p.token_.flag() >> IORING_CQE_BUFFER_SHIFT)\<close>: the shift is on a signed \<^verbatim>\<open>int\<close>.
\<close>

definition cqe_buffer_id :: "i32 \<Rightarrow> u32" where
  "cqe_buffer_id flag = word_of_int (sint flag div 2 ^ cqe_buffer_shift)"

definition has_more :: "i32 \<Rightarrow> bool" where
  "has_more flag \<longleftrightarrow> flag AND cqe_f_more \<noteq> 0"

text \<open>A \<^verbatim>\<open>Cqe\<close> object wraps a pointer; the getters assert that it is not null.\<close>

definition cqe_get_res :: "'t cqe option \<Rightarrow> i32 option" where
  "cqe_get_res c = map_option cqe_res c"

definition cqe_get_data :: "'t cqe option \<Rightarrow> 't user_data option" where
  "cqe_get_data c = map_option cqe_data c"

definition cqe_get_flag :: "'t cqe option \<Rightarrow> u32 option" where
  "cqe_get_flag c = map_option cqe_flags c"

definition cqe_empty :: "'t cqe option \<Rightarrow> bool" where
  "cqe_empty c \<longleftrightarrow> c = None"

section \<open>The ring\<close>

datatype ring_error = System_Error i32 string | Runtime_Error string

text \<open>The liburing calls; an \<^verbatim>\<open>int\<close> result below zero is a negated \<^verbatim>\<open>errno\<close>.\<close>

record ('r, 'q, 't) uring =
  u_queue_init :: "u32 \<Rightarrow> u32 \<Rightarrow> i32 \<times> 'r"
  u_queue_init_params :: "u32 \<Rightarrow> 'q \<Rightarrow> i32 \<times> 'r"
  u_get_sqe :: "'r \<Rightarrow> bool \<times> 'r"
  u_wait_cqe :: "'r \<Rightarrow> i32 \<times> 't cqe option \<times> 'r"
  u_peek_cqe :: "'r \<Rightarrow> i32 \<times> 't cqe option \<times> 'r"
  u_peek_batch_cqe :: "u32 \<Rightarrow> 'r \<Rightarrow> i32 \<times> 't cqe list \<times> 'r"
  u_submit :: "'r \<Rightarrow> i32 \<times> 'r"
  u_submit_and_wait :: "u32 \<Rightarrow> 'r \<Rightarrow> i32 \<times> 'r"
  u_register_files :: "i32 list \<Rightarrow> 'r \<Rightarrow> i32 \<times> 'r"
  u_cqe_seen :: "'t cqe option \<Rightarrow> 'r \<Rightarrow> 'r"
  u_cq_advance :: "u32 \<Rightarrow> 'r \<Rightarrow> 'r"
  u_ring_fd :: "'r \<Rightarrow> i32"

record 'r io_ring =
  ir_ring :: 'r
  ir_queue_depth :: u32

definition throw_uring_error :: "i32 \<Rightarrow> string \<Rightarrow> ring_error" where
  "throw_uring_error ret what = System_Error (- ret) what"

text \<open>The guard \<^verbatim>\<open>if (ret < 0) throw_uring_error(ret, what)\<close>.\<close>

definition check_ret :: "i32 \<Rightarrow> string \<Rightarrow> 'a \<Rightarrow> ring_error + 'a" where
  "check_ret ret what x = (if sint ret < 0 then Inl (throw_uring_error ret what) else Inr x)"

text \<open>The three constructors: flags, a parameter block, or a possibly null parameter block.\<close>

definition io_ring_flags :: "('r, 'q, 't) uring \<Rightarrow> u32 \<Rightarrow> u32 \<Rightarrow> ring_error + 'r io_ring" where
  "io_ring_flags api queue_depth flags =
     (case u_queue_init api queue_depth flags of (ret, r) \<Rightarrow>
        check_ret ret ''io_uring_queue_init failed'' \<lparr>ir_ring = r, ir_queue_depth = queue_depth\<rparr>)"

definition io_ring_params :: "('r, 'q, 't) uring \<Rightarrow> u32 \<Rightarrow> 'q \<Rightarrow> ring_error + 'r io_ring" where
  "io_ring_params api queue_depth params =
     (case u_queue_init_params api queue_depth params of (ret, r) \<Rightarrow>
        check_ret ret ''io_uring_queue_init_params failed'' \<lparr>ir_ring = r, ir_queue_depth = queue_depth\<rparr>)"

definition io_ring_new :: "('r, 'q, 't) uring \<Rightarrow> u32 \<Rightarrow> 'q option \<Rightarrow> ring_error + 'r io_ring" where
  "io_ring_new api queue_depth params =
     (case (case params of Some q \<Rightarrow> u_queue_init_params api queue_depth q
                         | None \<Rightarrow> u_queue_init api queue_depth 0) of (ret, r) \<Rightarrow>
        check_ret ret ''io_uring_queue_init failed'' \<lparr>ir_ring = r, ir_queue_depth = queue_depth\<rparr>)"

definition get_sqe :: "('r, 'q, 't) uring \<Rightarrow> 'r io_ring \<Rightarrow> (ring_error + ('p, 't) sqe) \<times> 'r io_ring" where
  "get_sqe api ring =
     (case u_get_sqe api (ir_ring ring) of (ok, r) \<Rightarrow>
        (if ok then Inr fresh_sqe else Inl (Runtime_Error ''io_uring_get_sqe returned null''), ring\<lparr>ir_ring := r\<rparr>))"

definition wait_cqe :: "('r, 'q, 't) uring \<Rightarrow> 'r io_ring \<Rightarrow> (ring_error + 't cqe option) \<times> 'r io_ring" where
  "wait_cqe api ring =
     (case u_wait_cqe api (ir_ring ring) of (ret, c, r) \<Rightarrow>
        (check_ret ret ''io_uring_wait_cqe failed'' c, ring\<lparr>ir_ring := r\<rparr>))"

text \<open>\<^verbatim>\<open>EAGAIN\<close>\<close>

definition eagain :: i32 where
  "eagain = 11"

definition peek_cqe :: "('r, 'q, 't) uring \<Rightarrow> 'r io_ring \<Rightarrow> (ring_error + 't cqe option) \<times> 'r io_ring" where
  "peek_cqe api ring =
     (case u_peek_cqe api (ir_ring ring) of (ret, c, r) \<Rightarrow>
        (if ret = - eagain then Inr None else check_ret ret ''io_uring_peek_cqe failed'' c, ring\<lparr>ir_ring := r\<rparr>))"

definition peek_batch_cqe ::
  "('r, 'q, 't) uring \<Rightarrow> u32 \<Rightarrow> 'r io_ring \<Rightarrow> (i32 \<times> 't cqe list) \<times> 'r io_ring" where
  "peek_batch_cqe api n ring =
     (case u_peek_batch_cqe api n (ir_ring ring) of (ret, cs, r) \<Rightarrow> ((ret, cs), ring\<lparr>ir_ring := r\<rparr>))"

definition ring_submit :: "('r, 'q, 't) uring \<Rightarrow> 'r io_ring \<Rightarrow> (ring_error + i32) \<times> 'r io_ring" where
  "ring_submit api ring =
     (case u_submit api (ir_ring ring) of (ret, r) \<Rightarrow>
        (check_ret ret ''io_uring_submit failed'' ret, ring\<lparr>ir_ring := r\<rparr>))"

definition ring_submit_and_wait ::
  "('r, 'q, 't) uring \<Rightarrow> u32 \<Rightarrow> 'r io_ring \<Rightarrow> (ring_error + i32) \<times> 'r io_ring" where
  "ring_submit_and_wait api wait_nr ring =
     (case u_submit_and_wait api wait_nr (ir_ring ring) of (ret, r) \<Rightarrow>
        (check_ret ret ''io_uring_submit_and_wait failed'' ret, ring\<lparr>ir_ring := r\<rparr>))"

definition register_files ::
  "('r, 'q, 't) uring \<Rightarrow> i32 list \<Rightarrow> 'r io_ring \<Rightarrow> (ring_error + i32) \<times> 'r io_ring" where
  "register_files api fds ring =
     (case u_register_files api fds (ir_ring ring) of (ret, r) \<Rightarrow>
        (check_ret ret ''io_uring_register_files failed'' ret, ring\<lparr>ir_ring := r\<rparr>))"

definition cqe_seen :: "('r, 'q, 't) uring \<Rightarrow> 't cqe option \<Rightarrow> 'r io_ring \<Rightarrow> 'r io_ring" where
  "cqe_seen api c ring = ring\<lparr>ir_ring := u_cqe_seen api c (ir_ring ring)\<rparr>"

definition cqe_advance :: "('r, 'q, 't) uring \<Rightarrow> u32 \<Rightarrow> 'r io_ring \<Rightarrow> 'r io_ring" where
  "cqe_advance api nr ring = ring\<lparr>ir_ring := u_cq_advance api nr (ir_ring ring)\<rparr>"

definition ring_get_fd :: "('r, 'q, 't) uring \<Rightarrow> 'r io_ring \<Rightarrow> i32" where
  "ring_get_fd api ring = u_ring_fd api (ir_ring ring)"

end
