(* ===== verification/Io_Thread.thy ===== *)
theory Io_Thread
  imports Io_Ring
begin

text \<open>
  \<^verbatim>\<open>IoThread\<close> (\<^verbatim>\<open>include/core/io_thread.hpp\<close>, \<^verbatim>\<open>src/core/io_thread.cpp\<close>): the event loop of a worker. The
  virtual hooks of the class and the completion of a token are parameters, so that the loop is stated once
  for every kind of worker; a worker's record extends \<open>io_thread\<close>. Prepared entries are logged in
  \<open>it_sqes\<close>. An exception that leaves the loop ends the process (the thread function is not guarded), so it
  is \<^term>\<open>None\<close>, like an assertion failure.
\<close>

section \<open>State\<close>

record ('r, 'p, 't) io_thread =
  it_cpu :: i32
  it_ring :: "'r io_ring"
  it_sqes :: "('p, 't) sqe list"
  it_wakeup_fd :: "i32 option"

record sqpoll_params =
  sq_flags :: u32
  sq_thread_cpu :: u32
  sq_thread_idle :: u32

text \<open>\<^verbatim>\<open>IORING_SETUP_SQPOLL\<close> and \<^verbatim>\<open>IORING_SETUP_SQ_AFF\<close>\<close>

definition setup_sqpoll :: u32 where
  "setup_sqpoll = 2"

definition setup_sq_aff :: u32 where
  "setup_sq_aff = 4"

definition make_sqpoll_params :: "i32 \<Rightarrow> sqpoll_params" where
  "make_sqpoll_params cpu_id =
     \<lparr>sq_flags = setup_sqpoll OR setup_sq_aff, sq_thread_cpu = cpu_id + 1, sq_thread_idle = 4294967295\<rparr>"

section \<open>The loop\<close>

text \<open>Take an entry, fill it in and leave it in the queue; \<open>True\<close> says that \<^verbatim>\<open>get_sqe\<close> threw.\<close>

definition put_sqe ::
  "('r, 'q, 't) uring \<Rightarrow> (('p, 't) sqe \<Rightarrow> ('p, 't) sqe) \<Rightarrow> ('r, 'p, 't, 'm) io_thread_scheme \<Rightarrow>
   bool \<times> ('r, 'p, 't, 'm) io_thread_scheme" where
  "put_sqe api fill w =
     (case get_sqe api (it_ring w) of
        (Inl _, ring) \<Rightarrow> (True, w\<lparr>it_ring := ring\<rparr>)
      | (Inr sqe, ring) \<Rightarrow> (False, w\<lparr>it_ring := ring, it_sqes := it_sqes w @ [fill sqe]\<rparr>))"

text \<open>
  The \<^verbatim>\<open>for\<close> loop of \<^verbatim>\<open>run_loop\<close> over the completions of a batch: null and the sentinel \<^verbatim>\<open>-1\<close> are skipped.
\<close>

fun run_batch ::
  "('t \<Rightarrow> i32 \<Rightarrow> i32 \<Rightarrow> 'w \<Rightarrow> 'w option) \<Rightarrow> 't cqe list \<Rightarrow> 'w \<Rightarrow> 'w option" where
  "run_batch complete [] w = Some w"
| "run_batch complete (c # cs) w = do {
     w' \<leftarrow> (case cqe_data c of
        Tok t \<Rightarrow> complete t (cqe_res c) (cqe_flags c) w
      | Null_Data \<Rightarrow> Some w
      | Minus_One \<Rightarrow> Some w);
     run_batch complete cs w' }"

text \<open>
  One pass of \<^verbatim>\<open>while (!st.stop_requested())\<close>. \<open>cqes\<close> has room for \<open>queue_depth\<close> completions. The entries
  past those returned by the batch call are not read: reading one is \<^term>\<open>None\<close>.
\<close>

definition loop_submit ::
  "('r, 'q, 't) uring \<Rightarrow> ('r, 'p, 't, 'm) io_thread_scheme \<Rightarrow> ('r, 'p, 't, 'm) io_thread_scheme option" where
  "loop_submit api w =
     (case (if it_cpu w = - 1 then ring_submit_and_wait api 1 (it_ring w) else ring_submit api (it_ring w)) of
        (Inl _, _) \<Rightarrow> None
      | (Inr _, ring) \<Rightarrow> Some (w\<lparr>it_ring := ring\<rparr>))"

definition loop_turn ::
  "('r, 'q, 't) uring \<Rightarrow>
   ('t \<Rightarrow> i32 \<Rightarrow> i32 \<Rightarrow> ('r, 'p, 't, 'm) io_thread_scheme \<Rightarrow> ('r, 'p, 't, 'm) io_thread_scheme option) \<Rightarrow>
   (('r, 'p, 't, 'm) io_thread_scheme \<Rightarrow> ('r, 'p, 't, 'm) io_thread_scheme option) \<Rightarrow>
   ('r, 'p, 't, 'm) io_thread_scheme \<Rightarrow> ('r, 'p, 't, 'm) io_thread_scheme option" where
  "loop_turn api complete on_batch_done w = do {
     w1 \<leftarrow> loop_submit api w;
     let ((n, cs), ring) = peek_batch_cqe api (ir_queue_depth (it_ring w1)) (it_ring w1);
     if nat (sint n) \<le> length cs then do {
       w2 \<leftarrow> run_batch complete (take (nat (sint n)) cs) (w1\<lparr>it_ring := ring\<rparr>);
       on_batch_done (w2\<lparr>it_ring := cqe_advance api n (it_ring w2)\<rparr>) }
     else None }"

text \<open>\<open>stops\<close>: the values \<^verbatim>\<open>stop_requested()\<close> returns; when they run out the loop is still running.\<close>

fun loop_while ::
  "(('w \<Rightarrow> 'w option)) \<Rightarrow> bool list \<Rightarrow> 'w \<Rightarrow> (bool \<times> 'w) option" where
  "loop_while turn [] w = Some (False, w)"
| "loop_while turn (stop # stops) w =
     (if stop then Some (True, w) else do { w' \<leftarrow> turn w; loop_while turn stops w' })"

text \<open>
  \<^verbatim>\<open>run_loop\<close>. The read on the wake-up descriptor carries the sentinel \<^verbatim>\<open>-1\<close>; \<open>wakeup_buf\<close> is the address
  of \<^verbatim>\<open>wakeup_buf_\<close>.
\<close>

definition run_loop ::
  "('r, 'q, 't) uring \<Rightarrow> 'p \<Rightarrow>
   (('r, 'p, 't, 'm) io_thread_scheme \<Rightarrow> ('r, 'p, 't, 'm) io_thread_scheme option) \<Rightarrow>
   ('t \<Rightarrow> i32 \<Rightarrow> i32 \<Rightarrow> ('r, 'p, 't, 'm) io_thread_scheme \<Rightarrow> ('r, 'p, 't, 'm) io_thread_scheme option) \<Rightarrow>
   (('r, 'p, 't, 'm) io_thread_scheme \<Rightarrow> ('r, 'p, 't, 'm) io_thread_scheme option) \<Rightarrow>
   (('r, 'p, 't, 'm) io_thread_scheme \<Rightarrow> ('r, 'p, 't, 'm) io_thread_scheme option) \<Rightarrow> bool list \<Rightarrow>
   ('r, 'p, 't, 'm) io_thread_scheme \<Rightarrow> (bool \<times> ('r, 'p, 't, 'm) io_thread_scheme) option" where
  "run_loop api wakeup_buf on_loop_start complete on_batch_done on_stop stops w = do {
     w1 \<leftarrow> on_loop_start w;
     w2 \<leftarrow> (case it_wakeup_fd w1 of
        None \<Rightarrow> Some w1
      | Some fd \<Rightarrow> (case put_sqe api (\<lambda>q. set_data Minus_One (prep_read fd (Some wakeup_buf) 8 0 q)) w1 of
            (True, _) \<Rightarrow> None
          | (False, w') \<Rightarrow> Some w'));
     (stopped, w3) \<leftarrow> loop_while (loop_turn api complete on_batch_done) stops w2;
     if stopped then map_option (Pair True) (on_stop w3) else Some (False, w3) }"

text \<open>\<^verbatim>\<open>IoThread::on_stop\<close>, the version UDP workers use.\<close>

definition io_on_stop ::
  "('r, 'q, 't) uring \<Rightarrow> ('r, 'p, 't, 'm) io_thread_scheme \<Rightarrow> ('r, 'p, 't, 'm) io_thread_scheme option" where
  "io_on_stop api w =
     (case put_sqe api (\<lambda>q. set_data Null_Data (prep_cancel_all q)) w of
        (True, _) \<Rightarrow> None
      | (False, w1) \<Rightarrow>
          (case ring_submit api (it_ring w1) of
             (Inl _, _) \<Rightarrow> None
           | (Inr _, ring) \<Rightarrow> Some (w1\<lparr>it_ring := ring\<rparr>)))"

section \<open>Every completion is dispatched once, in order\<close>

text \<open>The completions of a batch that carry a token.\<close>

definition batch_tokens :: "'t cqe list \<Rightarrow> ('t \<times> i32 \<times> i32) list" where
  "batch_tokens cs = concat (map (\<lambda>c. case cqe_data c of Tok t \<Rightarrow> [(t, cqe_res c, cqe_flags c)] | _ \<Rightarrow> []) cs)"

fun complete_all :: "('t \<Rightarrow> i32 \<Rightarrow> i32 \<Rightarrow> 'w \<Rightarrow> 'w option) \<Rightarrow> ('t \<times> i32 \<times> i32) list \<Rightarrow> 'w \<Rightarrow> 'w option" where
  "complete_all complete [] w = Some w"
| "complete_all complete ((t, res, flags) # ts) w = do { w' \<leftarrow> complete t res flags w; complete_all complete ts w' }"

lemma run_batch_complete_all: "run_batch complete cs w = complete_all complete (batch_tokens cs) w"
proof (induction cs arbitrary: w)
  case Nil
  then show ?case by (simp add: batch_tokens_def)
next
  case (Cons c cs)
  then show ?case by (cases "cqe_data c") (auto simp: batch_tokens_def split: Option.bind_split)
qed

end
