(* ===== verification/Tcp_Channel.thy ===== *)
theory Tcp_Channel
  imports Read_Stream Write_Stream_Spec Awaiter Io_Thread
begin

text \<open>
  TCP connections: \<^verbatim>\<open>TcpChannel\<close> (\<^verbatim>\<open>include/net/channel.hpp\<close>, \<^verbatim>\<open>src/net/channel.cpp\<close>), its two coroutines
  \<^verbatim>\<open>tcp_read_loop\<close> and \<^verbatim>\<open>tcp_write_loop\<close> (\<^verbatim>\<open>src/net/handler.cpp\<close>), and \<^verbatim>\<open>TcpChannelPool\<close>
  (\<^verbatim>\<open>src/net/tcp_channel_pool.cpp\<close>), over the state of one worker thread. A channel is named by its index in
  the pool. liburing is the parameter \<open>api\<close>, the callbacks of the application are the parameter \<open>srv\<close>.
  \<^term>\<open>None\<close> is a failed assertion, an access outside an array, or a loop that does not return.
\<close>

section \<open>State\<close>

datatype tcp_ptr = Wakeup_Buf | Chan_Iov nat

datatype tcp_tok = Accept_Tok | Recv_Tok nat | Send_Tok nat

text \<open>Where a coroutine stands. \<open>Finished\<close> is the final suspend point, also after an exception.\<close>

datatype co_state = No_Frame | Running | At_Token | At_Notify | Finished

text \<open>
  \<open>ch_rtok\<close>, \<open>ch_wtok\<close> and \<open>ch_submitted\<close> (\<^verbatim>\<open>submitted_bytes\<close>) live in the coroutine frames, which are part of the channel.
\<close>

record tcp_channel =
  ch_fd :: i32
  ch_notify :: "unit notify_token"
  ch_rbuf :: read_stream
  ch_wbuf :: write_stream
  ch_in_flight :: i32
  ch_in_pending :: bool
  ch_rtok :: "unit token"
  ch_wtok :: "unit token"
  ch_submitted :: u32
  ch_rco :: co_state
  ch_wco :: co_state

text \<open>
  \<open>tw_closed\<close> lists the descriptors given to \<^verbatim>\<open>::close\<close>. The \<^verbatim>\<open>::shutdown\<close> that comes before it in \<^verbatim>\<open>TcpChannel::close\<close>
  changes no state of the program; what it makes the kernel complete is up to the run.
\<close>

record 'r tcp_worker = "('r, tcp_ptr, tcp_tok) io_thread" +
  tw_br :: buf_ring
  tw_pool :: buf_pool
  tw_chans :: "tcp_channel list"
  tw_freeq :: "i32 list"
  tw_head :: i32
  tw_tail :: i32
  tw_psize :: i32
  tw_mask :: i32
  tw_pending :: "nat list"
  tw_closed :: "i32 list"
  tw_listen :: i32
  tw_atok :: "unit token"
  tw_aco :: co_state

type_synonym ('r, 'q) tcp_api = "('r, 'q, tcp_tok) uring"

record 'w tcp_server =
  on_read :: "nat \<Rightarrow> 'w \<Rightarrow> 'w option"
  on_write :: "nat \<Rightarrow> i32 \<Rightarrow> 'w \<Rightarrow> 'w option"
  on_accept :: "nat \<Rightarrow> 'w \<Rightarrow> 'w option"
  on_close :: "nat \<Rightarrow> i32 \<Rightarrow> 'w \<Rightarrow> 'w option"

definition chan :: "'r tcp_worker \<Rightarrow> nat \<Rightarrow> tcp_channel" where
  "chan w c = tw_chans w ! c"

definition chan_upd :: "nat \<Rightarrow> (tcp_channel \<Rightarrow> tcp_channel) \<Rightarrow> 'r tcp_worker \<Rightarrow> 'r tcp_worker" where
  "chan_upd c f w = w\<lparr>tw_chans := (tw_chans w)[c := f (chan w c)]\<rparr>"

section \<open>Simple members\<close>

definition is_closing :: "tcp_channel \<Rightarrow> bool" where
  "is_closing ch = nt_closed (ch_notify ch)"

definition is_closed :: "tcp_channel \<Rightarrow> bool" where
  "is_closed ch \<longleftrightarrow> ch_fd ch = - 1"

definition has_in_flight :: "tcp_channel \<Rightarrow> bool" where
  "has_in_flight ch \<longleftrightarrow> 0 < sint (ch_in_flight ch)"

definition in_flight_inc :: "tcp_channel \<Rightarrow> tcp_channel" where
  "in_flight_inc ch = ch\<lparr>ch_in_flight := ch_in_flight ch + 1\<rparr>"

definition channel_reset :: "i32 \<Rightarrow> tcp_channel \<Rightarrow> tcp_channel" where
  "channel_reset fd ch = ch\<lparr>ch_fd := fd, ch_in_flight := 0, ch_in_pending := False\<rparr>"

text \<open>\<^verbatim>\<open>append\<close>, \<^verbatim>\<open>prepend\<close>, \<^verbatim>\<open>peek\<close>, \<^verbatim>\<open>consume\<close>, which the application calls.\<close>

definition tcp_append :: "nat \<Rightarrow> byte list \<Rightarrow> u32 \<Rightarrow> 'r tcp_worker \<Rightarrow> (bool \<times> 'r tcp_worker) option" where
  "tcp_append c data sz w =
     map_option (\<lambda>(ok, b, p). (ok, chan_upd c (\<lambda>ch. ch\<lparr>ch_wbuf := b\<rparr>) (w\<lparr>tw_pool := p\<rparr>)))
       (wb_append data sz (ch_wbuf (chan w c)) (tw_pool w))"

definition tcp_prepend :: "nat \<Rightarrow> byte list \<Rightarrow> u32 \<Rightarrow> 'r tcp_worker \<Rightarrow> (bool \<times> 'r tcp_worker) option" where
  "tcp_prepend c data sz w =
     map_option (\<lambda>(ok, b, p). (ok, chan_upd c (\<lambda>ch. ch\<lparr>ch_wbuf := b\<rparr>) (w\<lparr>tw_pool := p\<rparr>)))
       (wb_prepend data sz (ch_wbuf (chan w c)) (tw_pool w))"

definition tcp_peek :: "nat \<Rightarrow> u32 \<Rightarrow> 'r tcp_worker \<Rightarrow> (bool \<times> 'r tcp_worker) option" where
  "tcp_peek c sz w =
     map_option (\<lambda>(ok, r). (ok, chan_upd c (\<lambda>ch. ch\<lparr>ch_rbuf := r\<rparr>) w)) (rs_peek sz (tw_br w) (ch_rbuf (chan w c)))"

definition tcp_consume :: "nat \<Rightarrow> u32 \<Rightarrow> 'r tcp_worker \<Rightarrow> (bool \<times> 'r tcp_worker) option" where
  "tcp_consume c sz w =
     map_option (\<lambda>(ok, r, b). (ok, chan_upd c (\<lambda>ch. ch\<lparr>ch_rbuf := r\<rparr>) (w\<lparr>tw_br := b\<rparr>)))
       (rs_consume sz (ch_rbuf (chan w c)) (tw_br w))"

section \<open>The write coroutine\<close>

text \<open>After its loop: \<^verbatim>\<open>write_buf_.reset()\<close> and the final suspend point.\<close>

definition write_finish :: "nat \<Rightarrow> 'r tcp_worker \<Rightarrow> 'r tcp_worker option" where
  "write_finish c w = do {
     (b, p) \<leftarrow> ws_reset (ch_wbuf (chan w c)) (tw_pool w);
     Some (chan_upd c (\<lambda>ch. ch\<lparr>ch_wbuf := b, ch_wco := Finished\<rparr>) (w\<lparr>tw_pool := p\<rparr>)) }"

text \<open>
  From the closing test to \<^verbatim>\<open>co_await p.token_\<close>. The first component of the result is \<open>True\<close> after
  \<^verbatim>\<open>continue\<close>; otherwise the coroutine is suspended or finished.
\<close>

definition write_send :: "('r, 'q) tcp_api \<Rightarrow> nat \<Rightarrow> 'r tcp_worker \<Rightarrow> (bool \<times> 'r tcp_worker) option" where
  "write_send api c w =
     (if is_closing (chan w c) \<and> \<not> has_in_flight (chan w c)
      then map_option (Pair False) (write_finish c w)
      else do {
        (_, count, bytes, b) \<leftarrow> ws_peek_iovec (ch_wbuf (chan w c)) (tw_pool w);
        let w1 = chan_upd c (\<lambda>ch. ch\<lparr>ch_wbuf := b\<rparr>) w;
        if count = 0 then Some (True, w1)
        else (case put_sqe api (\<lambda>q. set_data (Tok (Send_Tok c))
                 (prep_writev (ch_fd (chan w1 c)) (Some (Chan_Iov c)) count 0 q)) w1 of
            (True, w2) \<Rightarrow> Some (False, chan_upd c (\<lambda>ch. ch\<lparr>ch_wco := Finished\<rparr>) w2)
          | (False, w2) \<Rightarrow> Some (False, chan_upd c (\<lambda>ch. (in_flight_inc ch)\<lparr>ch_submitted := bytes,
                 ch_wtok := token_await_suspend () (ch_wtok ch), ch_wco := At_Token\<rparr>) w2)) })"

text \<open>From the head of the loop.\<close>

partial_function (option) write_loop ::
  "('r, 'q) tcp_api \<Rightarrow> nat \<Rightarrow> 'r tcp_worker \<Rightarrow> 'r tcp_worker option" where
  "write_loop api c w =
     (if ws_has_send_data (ch_wbuf (chan w c))
      then Option.bind (write_send api c w) (\<lambda>x. if fst x then write_loop api c (snd x) else Some (snd x))
      else
        (let (ready, t) = nt_co_await () (ch_notify (chan w c)) in
         if ready
         then Option.bind (write_send api c (chan_upd c (\<lambda>ch. ch\<lparr>ch_notify := t\<rparr>) w))
                (\<lambda>x. if fst x then write_loop api c (snd x) else Some (snd x))
         else Some (chan_upd c (\<lambda>ch. ch\<lparr>ch_notify := t, ch_wco := At_Notify\<rparr>) w)))"

declare write_loop.simps [code]

text \<open>Resuming the coroutine from \<^verbatim>\<open>co_await notify_token_\<close>.\<close>

definition write_wake :: "('r, 'q) tcp_api \<Rightarrow> nat \<Rightarrow> 'r tcp_worker \<Rightarrow> 'r tcp_worker option" where
  "write_wake api c w = do {
     (again, w') \<leftarrow> write_send api c (chan_upd c (\<lambda>ch. ch\<lparr>ch_wco := Running\<rparr>) w);
     if again then write_loop api c w' else Some w' }"

definition tcp_notify :: "('r, 'q) tcp_api \<Rightarrow> nat \<Rightarrow> 'r tcp_worker \<Rightarrow> 'r tcp_worker option" where
  "tcp_notify api c w =
     (case nt_notify (ch_notify (chan w c)) of (h, t) \<Rightarrow>
        let w1 = chan_upd c (\<lambda>ch. ch\<lparr>ch_notify := t\<rparr>) w
        in if h = None then Some w1 else write_wake api c w1)"

definition tcp_notify_close :: "('r, 'q) tcp_api \<Rightarrow> nat \<Rightarrow> 'r tcp_worker \<Rightarrow> 'r tcp_worker option" where
  "tcp_notify_close api c w =
     (case nt_notify_close (ch_notify (chan w c)) of (h, t) \<Rightarrow>
        let w1 = chan_upd c (\<lambda>ch. ch\<lparr>ch_notify := t\<rparr>) w
        in if h = None then Some w1 else write_wake api c w1)"

definition tcp_submit :: "('r, 'q) tcp_api \<Rightarrow> nat \<Rightarrow> 'r tcp_worker \<Rightarrow> (bool \<times> 'r tcp_worker) option" where
  "tcp_submit api c w =
     (case ws_submit (ch_wbuf (chan w c)) of (ok, b) \<Rightarrow>
        let w1 = chan_upd c (\<lambda>ch. ch\<lparr>ch_wbuf := b\<rparr>) w
        in if \<not> ok then Some (False, w1) else map_option (Pair True) (tcp_notify api c w1))"

section \<open>Closing\<close>

text \<open>\<^verbatim>\<open>TcpChannelPool::release\<close>; \<^verbatim>\<open>index(ch)\<close> is the channel's number.\<close>

definition tcp_pool_release :: "nat \<Rightarrow> 'r tcp_worker \<Rightarrow> 'r tcp_worker option" where
  "tcp_pool_release c w =
     (if is_closed (chan w c)
      then Some (w\<lparr>tw_freeq := (tw_freeq w)[ring_slot (tw_mask w) (tw_tail w) := of_nat c], tw_tail := tw_tail w + 1\<rparr>)
      else None)"

definition on_drained :: "('r, 'q) tcp_api \<Rightarrow> nat \<Rightarrow> 'r tcp_worker \<Rightarrow> 'r tcp_worker option" where
  "on_drained api c w =
     (if is_closing (chan w c) then do { w1 \<leftarrow> tcp_notify api c w; tcp_pool_release c w1 } else Some w)"

definition in_flight_dec :: "('r, 'q) tcp_api \<Rightarrow> nat \<Rightarrow> 'r tcp_worker \<Rightarrow> 'r tcp_worker option" where
  "in_flight_dec api c w =
     (let w1 = chan_upd c (\<lambda>ch. ch\<lparr>ch_in_flight := ch_in_flight ch - 1\<rparr>) w
      in if ch_in_flight (chan w1 c) = 0 then on_drained api c w1 else Some w1)"

definition tcp_close :: "('r, 'q) tcp_api \<Rightarrow> nat \<Rightarrow> 'r tcp_worker \<Rightarrow> 'r tcp_worker option" where
  "tcp_close api c w = do {
     w1 \<leftarrow> tcp_notify_close api c w;
     Some (chan_upd c (\<lambda>ch. ch\<lparr>ch_fd := - 1\<rparr>) (w1\<lparr>tw_closed := tw_closed w1 @ [ch_fd (chan w1 c)]\<rparr>)) }"

section \<open>The read coroutine\<close>

text \<open>Arming the multishot receive; \<open>True\<close> says that \<^verbatim>\<open>get_sqe\<close> threw.\<close>

definition recv_arm :: "('r, 'q) tcp_api \<Rightarrow> nat \<Rightarrow> 'r tcp_worker \<Rightarrow> bool \<times> 'r tcp_worker" where
  "recv_arm api c w =
     (case put_sqe api (\<lambda>q. set_data (Tok (Recv_Tok c)) (set_buf_group (ucast (br_group (tw_br w)))
             (set_flags iosqe_buffer_select (prep_multishot_recv (ch_fd (chan w c)) None 0 0 q)))) w of
        (True, w1) \<Rightarrow> (True, w1)
      | (False, w1) \<Rightarrow> (False, chan_upd c in_flight_inc w1))"

definition recv_await :: "nat \<Rightarrow> 'r tcp_worker \<Rightarrow> 'r tcp_worker" where
  "recv_await c w = chan_upd c (\<lambda>ch. ch\<lparr>ch_rtok := token_await_suspend () (ch_rtok ch), ch_rco := At_Token\<rparr>) w"

definition recv_throw :: "nat \<Rightarrow> 'r tcp_worker \<Rightarrow> 'r tcp_worker" where
  "recv_throw c w = chan_upd c (\<lambda>ch. ch\<lparr>ch_rco := Finished\<rparr>) w"

definition read_start :: "('r, 'q) tcp_api \<Rightarrow> nat \<Rightarrow> 'r tcp_worker \<Rightarrow> 'r tcp_worker" where
  "read_start api c w =
     (case recv_arm api c (chan_upd c (\<lambda>ch. ch\<lparr>ch_rtok := token_new, ch_rco := Running\<rparr>) w) of
        (True, w1) \<Rightarrow> recv_throw c w1
      | (False, w1) \<Rightarrow> recv_await c w1)"

definition mark_pending_read :: "nat \<Rightarrow> 'r tcp_worker \<Rightarrow> 'r tcp_worker" where
  "mark_pending_read c w =
     (if ch_in_pending (chan w c) then w
      else chan_upd c (\<lambda>ch. ch\<lparr>ch_in_pending := True\<rparr>) (w\<lparr>tw_pending := tw_pending w @ [c]\<rparr>))"

text \<open>Storing the received buffer; an index outside the ring's arrays is \<^term>\<open>None\<close>.\<close>

definition recv_store :: "nat \<Rightarrow> u32 \<Rightarrow> u32 \<Rightarrow> 'r tcp_worker \<Rightarrow> 'r tcp_worker option" where
  "recv_store c idx sz w =
     (if unat idx < length (br_dsize (tw_br w))
      then let b = br_set_data_size idx sz (tw_br w);
               w1 = w\<lparr>tw_br := b\<rparr>
           in Some (mark_pending_read c
                (chan_upd c (\<lambda>ch. ch\<lparr>ch_rbuf := snd (rb_push_buf idx b (ch_rbuf ch))\<rparr>) w1))
      else None)"

text \<open>After its loop: \<^verbatim>\<open>read_buf_.reset()\<close> and the final suspend point.\<close>

definition read_finish :: "nat \<Rightarrow> 'r tcp_worker \<Rightarrow> 'r tcp_worker option" where
  "read_finish c w = do {
     (r, b) \<leftarrow> rs_reset (ch_rbuf (chan w c)) (tw_br w);
     Some (chan_upd c (\<lambda>ch. ch\<lparr>ch_rbuf := r, ch_rco := Finished\<rparr>) (w\<lparr>tw_br := b\<rparr>)) }"

text \<open>The body after \<^verbatim>\<open>co_await p.token_\<close>, up to the next one or the end.\<close>

definition read_resume ::
  "('r, 'q) tcp_api \<Rightarrow> 'r tcp_worker tcp_server \<Rightarrow> nat \<Rightarrow> 'r tcp_worker \<Rightarrow> 'r tcp_worker option" where
  "read_resume api srv c w =
     (let res = tk_res (ch_rtok (chan w c)); flag = tk_flag (ch_rtok (chan w c)) in do {
        w1 \<leftarrow> in_flight_dec api c w;
        if sint res \<le> 0 then do {
          w2 \<leftarrow> on_close srv c res w1;
          w3 \<leftarrow> (if is_closing (chan w2 c) then Some w2 else tcp_close api c w2);
          read_finish c w3 }
        else
          (case (if has_more flag then (False, w1) else recv_arm api c w1) of
             (True, w2) \<Rightarrow> Some (recv_throw c w2)
           | (False, w2) \<Rightarrow> map_option (recv_await c) (recv_store c (cqe_buffer_id flag) res w2)) })"

section \<open>Completion of a write\<close>

definition send_resume ::
  "('r, 'q) tcp_api \<Rightarrow> 'r tcp_worker tcp_server \<Rightarrow> nat \<Rightarrow> 'r tcp_worker \<Rightarrow> 'r tcp_worker option" where
  "send_resume api srv c w =
     (let res = tk_res (ch_wtok (chan w c)) in do {
        w1 \<leftarrow> in_flight_dec api c w;
        if sint res \<le> 0 then do {
          w2 \<leftarrow> (if is_closing (chan w1 c) then Some w1 else tcp_close api c w1);
          write_finish c w2 }
        else if res \<le> ch_submitted (chan w1 c) then do {
          (b, p) \<leftarrow> ws_consume_written res (ch_wbuf (chan w1 c)) (tw_pool w1);
          w2 \<leftarrow> on_write srv c res (chan_upd c (\<lambda>ch. ch\<lparr>ch_wbuf := b\<rparr>) (w1\<lparr>tw_pool := p\<rparr>));
          write_loop api c w2 }
        else None })"

text \<open>The coroutine started by \<^verbatim>\<open>tcp_write_loop\<close>, up to its first suspension.\<close>

definition write_start :: "('r, 'q) tcp_api \<Rightarrow> nat \<Rightarrow> 'r tcp_worker \<Rightarrow> 'r tcp_worker option" where
  "write_start api c w = write_loop api c (chan_upd c (\<lambda>ch. ch\<lparr>ch_wtok := token_new, ch_wco := Running\<rparr>) w)"

section \<open>Assignment and the pool\<close>

definition tcp_assign ::
  "('r, 'q) tcp_api \<Rightarrow> 'r tcp_worker tcp_server \<Rightarrow> i32 \<Rightarrow> nat \<Rightarrow> 'r tcp_worker \<Rightarrow> 'r tcp_worker option" where
  "tcp_assign api srv fd c w = do {
     let w1 = read_start api c (chan_upd c (\<lambda>ch. ch\<lparr>ch_fd := fd, ch_notify := notify_token_new\<rparr>) w);
     w2 \<leftarrow> write_start api c w1;
     on_accept srv c w2 }"

text \<open>\<^verbatim>\<open>TcpChannelPool::acquire\<close>: the channel handed out, if any.\<close>

definition tcp_pool_acquire ::
  "('r, 'q) tcp_api \<Rightarrow> 'r tcp_worker tcp_server \<Rightarrow> i32 \<Rightarrow> 'r tcp_worker \<Rightarrow> (nat option \<times> 'r tcp_worker) option" where
  "tcp_pool_acquire api srv fd w =
     (if tw_head w = tw_tail w then Some (None, w)
      else
        let c = unat (tw_freeq w ! ring_slot (tw_mask w) (tw_head w));
            w1 = w\<lparr>tw_head := tw_head w + 1\<rparr>
        in if c < length (tw_chans w) then map_option (Pair (Some c)) (tcp_assign api srv fd c w1) else None)"

text \<open>
  The constructors. The buffers of the channels are built by the caller; \<open>freeq\<close> is uninitialised. A channel
  starts without coroutines, and all of them are free.
\<close>

definition tcp_channel_new :: "i32 \<Rightarrow> read_stream \<Rightarrow> write_stream \<Rightarrow> tcp_channel" where
  "tcp_channel_new fd rb wb =
     \<lparr>ch_fd = fd, ch_notify = notify_token_new, ch_rbuf = rb, ch_wbuf = wb, ch_in_flight = 0, ch_in_pending = False,
      ch_rtok = token_new, ch_wtok = token_new, ch_submitted = 0, ch_rco = No_Frame, ch_wco = No_Frame\<rparr>"

definition tcp_pool_new ::
  "(nat \<Rightarrow> read_stream \<times> write_stream) \<Rightarrow> i32 list \<Rightarrow> i32 \<Rightarrow> 'r tcp_worker \<Rightarrow> 'r tcp_worker option" where
  "tcp_pool_new bufs freeq pool_size w =
     (if is_power_of_two pool_size
      then Some (fold
        (\<lambda>i w. w\<lparr>tw_chans := tw_chans w @ [tcp_channel_new (- 1) (fst (bufs i)) (snd (bufs i))],
                 tw_freeq := (tw_freeq w)[ring_slot (tw_mask w) (tw_tail w) := of_nat i], tw_tail := tw_tail w + 1\<rparr>)
        [0..<unat pool_size]
        (w\<lparr>tw_chans := [], tw_freeq := freeq, tw_head := 0, tw_tail := 0, tw_psize := pool_size, tw_mask := pool_size - 1\<rparr>))
      else None)"

section \<open>Access\<close>

lemma chan_simps [simp]:
  "c < length (tw_chans w) \<Longrightarrow> chan (chan_upd c f w) c = f (chan w c)"
  "d \<noteq> c \<Longrightarrow> chan (chan_upd c f w) d = chan w d"
  "length (tw_chans (chan_upd c f w)) = length (tw_chans w)"
  "chan_upd c g (chan_upd c f w) = chan_upd c (\<lambda>ch. g (f ch)) w"
  "chan_upd c (\<lambda>ch. ch) w = w"
proof -
  show "chan_upd c g (chan_upd c f w) = chan_upd c (\<lambda>ch. g (f ch)) w"
    by (cases "c < length (tw_chans w)") (simp_all add: chan_upd_def chan_def list_update_beyond)
qed (simp_all add: chan_upd_def chan_def)

lemma chan_upd_fields [simp]:
  "it_cpu (chan_upd c f w) = it_cpu w" "it_ring (chan_upd c f w) = it_ring w" "it_sqes (chan_upd c f w) = it_sqes w"
  "it_wakeup_fd (chan_upd c f w) = it_wakeup_fd w" "tw_br (chan_upd c f w) = tw_br w" "tw_pool (chan_upd c f w) = tw_pool w"
  "tw_freeq (chan_upd c f w) = tw_freeq w" "tw_head (chan_upd c f w) = tw_head w" "tw_tail (chan_upd c f w) = tw_tail w"
  "tw_mask (chan_upd c f w) = tw_mask w" "tw_pending (chan_upd c f w) = tw_pending w" "tw_closed (chan_upd c f w) = tw_closed w"
  "tw_listen (chan_upd c f w) = tw_listen w" "tw_atok (chan_upd c f w) = tw_atok w" "tw_aco (chan_upd c f w) = tw_aco w"
  by (simp_all add: chan_upd_def)

lemma chan_other_fields [simp]:
  "chan (w\<lparr>it_ring := a\<rparr>) c = chan w c" "chan (w\<lparr>it_sqes := b\<rparr>) c = chan w c" "chan (w\<lparr>tw_br := d\<rparr>) c = chan w c"
  "chan (w\<lparr>tw_pool := e\<rparr>) c = chan w c" "chan (w\<lparr>tw_freeq := f\<rparr>) c = chan w c" "chan (w\<lparr>tw_head := g\<rparr>) c = chan w c"
  "chan (w\<lparr>tw_tail := g\<rparr>) c = chan w c" "chan (w\<lparr>tw_pending := h\<rparr>) c = chan w c" "chan (w\<lparr>tw_closed := i\<rparr>) c = chan w c"
  "chan (w\<lparr>tw_listen := g\<rparr>) c = chan w c" "chan (w\<lparr>tw_atok := j\<rparr>) c = chan w c" "chan (w\<lparr>tw_aco := k\<rparr>) c = chan w c"
  by (simp_all add: chan_def)

text \<open>Moving an update of the worker inside an update of a channel.\<close>

lemma chan_upd_commute:
  "(chan_upd c f w)\<lparr>it_ring := a\<rparr> = chan_upd c f (w\<lparr>it_ring := a\<rparr>)"
  "(chan_upd c f w)\<lparr>it_sqes := b\<rparr> = chan_upd c f (w\<lparr>it_sqes := b\<rparr>)"
  "(chan_upd c f w)\<lparr>tw_br := d\<rparr> = chan_upd c f (w\<lparr>tw_br := d\<rparr>)"
  "(chan_upd c f w)\<lparr>tw_pool := e\<rparr> = chan_upd c f (w\<lparr>tw_pool := e\<rparr>)"
  "(chan_upd c f w)\<lparr>tw_closed := i\<rparr> = chan_upd c f (w\<lparr>tw_closed := i\<rparr>)"
  "(chan_upd c f w)\<lparr>tw_freeq := l\<rparr> = chan_upd c f (w\<lparr>tw_freeq := l\<rparr>)"
  "(chan_upd c f w)\<lparr>tw_tail := g\<rparr> = chan_upd c f (w\<lparr>tw_tail := g\<rparr>)"
  "(chan_upd c f w)\<lparr>tw_head := g\<rparr> = chan_upd c f (w\<lparr>tw_head := g\<rparr>)"
  by (simp_all add: chan_upd_def chan_def)

text \<open>A submission entry is free.\<close>

definition sqe_free :: "('r, 'q, 't) uring \<Rightarrow> ('r, 'p, 't, 'm) io_thread_scheme \<Rightarrow> bool" where
  "sqe_free api w \<longleftrightarrow> fst (u_get_sqe api (ir_ring (it_ring w)))"

definition ring_after_sqe :: "('r, 'q, 't) uring \<Rightarrow> 'r io_ring \<Rightarrow> 'r io_ring" where
  "ring_after_sqe api ring = ring\<lparr>ir_ring := snd (u_get_sqe api (ir_ring ring))\<rparr>"

lemma put_sqe_eq:
  "put_sqe api f w = (if sqe_free api w
     then (False, w\<lparr>it_ring := ring_after_sqe api (it_ring w), it_sqes := it_sqes w @ [f fresh_sqe]\<rparr>)
     else (True, w\<lparr>it_ring := ring_after_sqe api (it_ring w)\<rparr>))"
  by (simp add: put_sqe_def get_sqe_def sqe_free_def ring_after_sqe_def split: prod.split)

section \<open>The write coroutine with an empty queue\<close>

lemma ws_empty:
  assumes "\<not> ws_has_send_data b"
  shows "ws_peek_iovec b p = Some (False, 0, 0, b)"
  using assms by (simp add: ws_peek_iovec_def ws_has_send_data_def)

lemma ws_reset_empty:
  assumes "\<not> ws_has_send_data b" and "wb_pending_head b = wb_pending_tail b"
  shows "ws_reset b p = Some (b\<lparr>wb_send_head := 0, wb_send_tail := 0, wb_pending_head := 0, wb_pending_tail := 0,
    ws_head_offset := 0\<rparr>, p)"
  using assms by (simp add: ws_reset_def ws_has_send_data_def release_range.simps)

lemma write_send_empty:
  assumes "\<not> ws_has_send_data (ch_wbuf (chan w c))" and "is_closing (chan w c) \<Longrightarrow> has_in_flight (chan w c)"
  shows "write_send api c w = Some (True, w)"
proof -
  have "chan_upd c (\<lambda>ch. ch\<lparr>ch_wbuf := ch_wbuf (chan w c)\<rparr>) w = w"
    by (simp add: chan_upd_def chan_def)
  then show ?thesis using assms by (simp add: write_send_def ws_empty)
qed

lemma write_loop_suspends:
  assumes "\<not> ws_has_send_data (ch_wbuf (chan w c))" and "\<not> nt_pending (ch_notify (chan w c))"
  shows "write_loop api c w =
    Some (chan_upd c (\<lambda>ch. ch\<lparr>ch_notify := nt_await_suspend () (ch_notify (chan w c)), ch_wco := At_Notify\<rparr>) w)"
  using assms by (subst write_loop.simps) (simp add: nt_co_await_def nt_await_ready_def)

end
