(* ===== verification/Ip_Address.thy ===== *)
theory Ip_Address
  imports Prelude "HOL-Library.Char_ord"
begin

text \<open>
  \<^verbatim>\<open>IpAddress\<close> (\<^verbatim>\<open>include/net/ip_address.hpp\<close>, \<^verbatim>\<open>src/net/ip_address.cpp\<close>): an IPv4 address and port around a
  \<^verbatim>\<open>sockaddr_in\<close>, on a little-endian host. The functions of the C library that it calls are modelled as documented:
  \<^verbatim>\<open>htons\<close>, \<^verbatim>\<open>inet_pton\<close> and \<^verbatim>\<open>inet_ntop\<close> for \<^verbatim>\<open>AF_INET\<close>.
\<close>

section \<open>The C library\<close>

text \<open>On this host \<^verbatim>\<open>htons\<close> and \<^verbatim>\<open>ntohs\<close> both swap the two bytes.\<close>

definition htons :: "u16 \<Rightarrow> u16" where
  "htons w = push_bit 8 w OR drop_bit 8 w"

lemma htons_htons [simp]: "htons (htons w) = w"
proof (rule bit_word_eqI)
  fix n assume "n < LENGTH(16)"
  then show "bit (htons (htons w)) n \<longleftrightarrow> bit w n"
    by (cases "n < 8") (simp_all add: htons_def bit_simps not_less)
qed

text \<open>Numbers in decimal, as \<^verbatim>\<open>std::to_string\<close> and \<^verbatim>\<open>inet_ntop\<close> write them.\<close>

definition digit :: "nat \<Rightarrow> char" where
  "digit d = char_of (48 + d)"

fun show_nat :: "nat \<Rightarrow> string" where
  "show_nat n = (if n < 10 then [digit n] else show_nat (n div 10) @ [digit (n mod 10)])"

declare show_nat.simps [simp del]

text \<open>The octets of \<^verbatim>\<open>s_addr\<close>, which holds them in the order of the memory.\<close>

definition octets :: "u32 \<Rightarrow> nat list" where
  "octets a = [unat a mod 256, unat a div 256 mod 256, unat a div 65536 mod 256, unat a div 16777216]"

definition of_octets :: "nat list \<Rightarrow> u32" where
  "of_octets os = of_nat (os ! 0 + 256 * os ! 1 + 65536 * os ! 2 + 16777216 * os ! 3)"

definition inet_ntop :: "u32 \<Rightarrow> string" where
  "inet_ntop a = (case octets a of
     [p, q, r, s] \<Rightarrow> show_nat p @ ''.'' @ show_nat q @ ''.'' @ show_nat r @ ''.'' @ show_nat s)"

text \<open>
  \<^verbatim>\<open>inet_pton\<close>: four decimal numbers of at most 255 without leading zeros, separated by points. \<open>os\<close> are the octets read,
  \<open>cur\<close> the number being read, if it has a digit.
\<close>

definition is_digit :: "char \<Rightarrow> bool" where
  "is_digit c \<longleftrightarrow> 48 \<le> (of_char c :: nat) \<and> (of_char c :: nat) \<le> 57"

definition digit_value :: "char \<Rightarrow> nat" where
  "digit_value c = of_char c - 48"

fun pton_loop :: "nat list \<Rightarrow> nat option \<Rightarrow> string \<Rightarrow> nat list option" where
  "pton_loop os None [] = None"
| "pton_loop os (Some v) [] = (if length os = 3 then Some (os @ [v]) else None)"
| "pton_loop os cur (c # s) =
     (if is_digit c then
        case cur of
          None \<Rightarrow> if 4 \<le> length os then None else pton_loop os (Some (digit_value c)) s
        | Some v \<Rightarrow> if v = 0 \<or> 255 < v * 10 + digit_value c then None else pton_loop os (Some (v * 10 + digit_value c)) s
      else if c = CHR ''.'' then
        case cur of
          None \<Rightarrow> None
        | Some v \<Rightarrow> if length os = 3 then None else pton_loop (os @ [v]) None s
      else None)"

definition inet_pton :: "string \<Rightarrow> u32 option" where
  "inet_pton ip = map_option of_octets (pton_loop [] None ip)"

section \<open>State and operations\<close>

record sockaddr_in =
  sin_family :: u16
  sin_port :: u16
  sin_addr :: u32
  sin_zero :: "byte list"

definition af_inet :: u16 where
  "af_inet = 2"

definition zero_sockaddr :: sockaddr_in where
  "zero_sockaddr = \<lparr>sin_family = 0, sin_port = 0, sin_addr = 0, sin_zero = replicate 8 0\<rparr>"

definition ip_address_new :: sockaddr_in where
  "ip_address_new = zero_sockaddr"

text \<open>\<^verbatim>\<open>IpAddress(ip, port)\<close>: the result of \<^verbatim>\<open>inet_pton\<close> is not looked at; on failure \<^verbatim>\<open>sin_addr\<close> keeps its zeros.\<close>

definition ip_address_of :: "string \<Rightarrow> u16 \<Rightarrow> sockaddr_in" where
  "ip_address_of ip port =
     (let a = zero_sockaddr\<lparr>sin_family := af_inet, sin_port := htons port\<rparr>
      in case inet_pton ip of Some s \<Rightarrow> a\<lparr>sin_addr := s\<rparr> | None \<Rightarrow> a)"

text \<open>\<^verbatim>\<open>IpAddress(port)\<close>, with \<^verbatim>\<open>htonl(INADDR_ANY)\<close>, which is zero.\<close>

definition ip_address_any :: "u16 \<Rightarrow> sockaddr_in" where
  "ip_address_any port = zero_sockaddr\<lparr>sin_family := af_inet, sin_port := htons port, sin_addr := 0\<rparr>"

text \<open>The object as 16 bytes, \<^verbatim>\<open>addr()\<close>, and back, \<^verbatim>\<open>IpAddress(addr, len)\<close> with its assertion.\<close>

definition ip_addr :: "sockaddr_in \<Rightarrow> byte list" where
  "ip_addr a = [ucast (sin_family a), ucast (drop_bit 8 (sin_family a)), ucast (sin_port a), ucast (drop_bit 8 (sin_port a))] @
     map of_nat (octets (sin_addr a)) @ sin_zero a"

definition ip_len :: u32 where
  "ip_len = 16"

definition ip_address_from :: "byte list \<Rightarrow> u32 \<Rightarrow> sockaddr_in option" where
  "ip_address_from bs len =
     (if 16 \<le> unat len \<and> 16 \<le> length bs
      then Some \<lparr>sin_family = ucast (bs ! 0) OR push_bit 8 (ucast (bs ! 1)), sin_port = ucast (bs ! 2) OR push_bit 8 (ucast (bs ! 3)),
             sin_addr = of_octets (map unat (seg 4 4 bs)), sin_zero = seg 8 8 bs\<rparr>
      else None)"

definition ip_is_valid :: "sockaddr_in \<Rightarrow> bool" where
  "ip_is_valid a \<longleftrightarrow> sin_family a = af_inet"

definition ip_port :: "sockaddr_in \<Rightarrow> u16" where
  "ip_port a = htons (sin_port a)"

definition ip_ip :: "sockaddr_in \<Rightarrow> string" where
  "ip_ip a = inet_ntop (sin_addr a)"

definition ip_to_string :: "sockaddr_in \<Rightarrow> string" where
  "ip_to_string a = ip_ip a @ '':'' @ show_nat (unat (ip_port a))"

definition ip_eq :: "sockaddr_in \<Rightarrow> sockaddr_in \<Rightarrow> bool" where
  "ip_eq a b \<longleftrightarrow> sin_family a = sin_family b \<and> sin_port a = sin_port b \<and> sin_addr a = sin_addr b"

definition ip_ne :: "sockaddr_in \<Rightarrow> sockaddr_in \<Rightarrow> bool" where
  "ip_ne a b \<longleftrightarrow> \<not> ip_eq a b"

section \<open>Printing and parsing\<close>

lemma digit_props:
  assumes "d < 10"
  shows "is_digit (digit d)" "digit_value (digit d) = d"
  using assms by (simp_all add: is_digit_def digit_value_def digit_def)

lemma not_digit_point [simp]: "\<not> is_digit (CHR ''.'')"
  by (simp add: is_digit_def)

text \<open>Reading back a printed octet.\<close>

lemma pton_show:
  assumes "n < 256" and "length os < 4"
  shows "pton_loop os None (show_nat n @ s) = pton_loop os (Some n) s"
proof -
  consider "n < 10" | "10 \<le> n" "n < 100" | "100 \<le> n" by linarith
  then show ?thesis
  proof cases
    case 1
    then show ?thesis using assms(2) by (simp add: show_nat.simps digit_props)
  next
    case 2
    then have "n div 10 < 10" by (simp add: less_mult_imp_div_less)
    then have "show_nat n = [digit (n div 10), digit (n mod 10)]"
      using 2 by (simp add: show_nat.simps [of n] show_nat.simps [of "n div 10"])
    moreover have "n div 10 \<noteq> 0" using 2 by (simp add: div_eq_0_iff)
    ultimately show ?thesis using assms 2 \<open>n div 10 < 10\<close> by (simp add: digit_props)
  next
    case 3
    then have "n div 100 < 10" "\<not> n div 10 < 10" "n div 10 div 10 = n div 100" using assms(1) by (simp_all add: div_mult2_eq [symmetric])
    then have "show_nat n = [digit (n div 100), digit (n div 10 mod 10), digit (n mod 10)]"
      using 3 by (simp add: show_nat.simps [of n] show_nat.simps [of "n div 10"] show_nat.simps [of "n div 100"])
    moreover have "n div 100 * 10 + n div 10 mod 10 = n div 10"
      using div_mult_mod_eq [of "n div 10" 10] by (simp add: div_mult2_eq [symmetric])
    moreover have "n div 100 \<noteq> 0" "n div 10 \<noteq> 0" "\<not> 255 < n div 10"
      using 3 assms(1) by (simp_all add: div_eq_0_iff)
    ultimately show ?thesis using assms 3 \<open>n div 100 < 10\<close> by (simp add: digit_props)
  qed
qed

lemma pton_point: "length os < 3 \<Longrightarrow> pton_loop os (Some v) (CHR ''.'' # s) = pton_loop (os @ [v]) None s"
  by (simp add: not_digit_point)

lemma octets_less: "\<forall>p \<in> set (octets a). p < 256"
  using unat_u32_less [of a] by (auto simp: octets_def)

lemma base256: "n = 256 * m + p \<Longrightarrow> m = 256 * k + q \<Longrightarrow> k = 256 * j + r \<Longrightarrow> p + 256 * q + 65536 * r + 16777216 * j = (n :: nat)"
  by simp

lemma of_octets_octets: "of_octets (octets a) = a"
proof -
  let ?n = "unat a"
  have "?n div 65536 = ?n div 256 div 256" "?n div 16777216 = ?n div 256 div 256 div 256"
    using div_mult2_eq [of ?n 256 256] div_mult2_eq [of ?n 65536 256] by simp_all
  moreover have "?n mod 256 + 256 * (?n div 256 mod 256) + 65536 * (?n div 256 div 256 mod 256) + 16777216 * (?n div 256 div 256 div 256) = ?n"
    by (rule base256) (rule mult_div_mod_eq [symmetric])+
  ultimately have "?n mod 256 + 256 * (?n div 256 mod 256) + 65536 * (?n div 65536 mod 256) + 16777216 * (?n div 16777216) = ?n"
    by (simp only:)
  then show ?thesis by (simp add: of_octets_def octets_def)
qed

lemma inet_roundtrip: "inet_pton (inet_ntop a) = Some a"
proof -
  obtain p q r s where o: "octets a = [p, q, r, s]" by (simp add: octets_def)
  have "p < 256" "q < 256" "r < 256" "s < 256" using octets_less [of a] o by auto
  then have "pton_loop [] None (inet_ntop a) = Some [p, q, r, s]"
    using pton_show [of s "[p, q, r]" "[]"] by (simp add: inet_ntop_def o pton_show pton_point)
  then show ?thesis using of_octets_octets [of a] o by (simp add: inet_pton_def)
qed

lemma le16: "ucast (ucast w :: byte) OR push_bit 8 (ucast (ucast (drop_bit 8 w) :: byte)) = (w :: u16)"
proof (rule bit_word_eqI)
  fix n assume "n < LENGTH(16)"
  then show "bit (ucast (ucast w :: byte) OR push_bit 8 (ucast (ucast (drop_bit 8 w) :: byte)) :: u16) n \<longleftrightarrow> bit w n"
    by (cases "n < 8") (auto simp: bit_simps not_less)
qed

text \<open>
  C35: addresses survive printing and copying. For a valid address, parsing \<^verbatim>\<open>ip()\<close> and \<^verbatim>\<open>port()\<close> gives an equal address;
  copying through \<^verbatim>\<open>addr()\<close> and \<^verbatim>\<open>len()\<close> gives the identical object, and an address read from memory is the one it was
  built from even if more bytes follow.
\<close>

theorem ip_address_roundtrip:
  assumes "ip_is_valid a" and "length (sin_zero a) = 8"
  shows "ip_eq (ip_address_of (ip_ip a) (ip_port a)) a \<and> ip_address_from (ip_addr a @ bs) ip_len = Some a"
proof -
  have "ip_eq (ip_address_of (ip_ip a) (ip_port a)) a"
    using assms(1) by (simp add: ip_eq_def ip_address_of_def ip_ip_def ip_port_def inet_roundtrip zero_sockaddr_def ip_is_valid_def Let_def)
  moreover have "map (unat \<circ> (of_nat :: nat \<Rightarrow> byte)) (octets (sin_addr a)) = octets (sin_addr a)"
    using octets_less [of "sin_addr a"] by (intro map_idI) (auto simp: unat_of_nat take_bit_nat_eq_self)
  then have "of_octets (map unat (map (of_nat :: nat \<Rightarrow> byte) (octets (sin_addr a)))) = sin_addr a"
    by (simp add: of_octets_octets)
  then have "ip_address_from (ip_addr a @ bs) ip_len = Some a"
    using assms(2) by (simp add: ip_address_from_def ip_addr_def ip_len_def seg_def le16 octets_def)
  ultimately show ?thesis by blast
qed

theorem ip_address_roundtrip_witness:
  "ip_eq (ip_address_of ''127.0.0.1'' 8080) (ip_address_of (ip_ip (ip_address_of ''127.0.0.1'' 8080)) 8080) \<and>
   ip_address_from (ip_addr (ip_address_of ''127.0.0.1'' 8080)) ip_len = Some (ip_address_of ''127.0.0.1'' 8080)"
proof -
  let ?a = "ip_address_of ''127.0.0.1'' 8080"
  have "ip_is_valid ?a" "length (sin_zero ?a) = 8" "ip_port ?a = 8080"
    by (simp_all add: ip_address_of_def zero_sockaddr_def ip_is_valid_def ip_port_def Let_def split: option.split)
  then show ?thesis using ip_address_roundtrip [of ?a "[]"] by (simp add: ip_eq_def)
qed

text \<open>
  C36: an address that cannot be parsed. \<^verbatim>\<open>IpAddress(ip, port)\<close> ignores the failure of \<^verbatim>\<open>inet_pton\<close>: the object counts as
  valid and equals the wildcard address \<^verbatim>\<open>0.0.0.0\<close> on the same port.
\<close>

theorem ip_address_unparsed:
  assumes "inet_pton ip = None"
  shows "ip_is_valid (ip_address_of ip port) \<and> ip_eq (ip_address_of ip port) (ip_address_any port) \<and>
    ip_ip (ip_address_of ip port) = ''0.0.0.0''"
proof -
  have "ip_address_of ip port = ip_address_any port"
    using assms by (simp add: ip_address_of_def ip_address_any_def Let_def zero_sockaddr_def)
  moreover have "inet_ntop 0 = ''0.0.0.0''" by (simp add: inet_ntop_def octets_def show_nat.simps digit_def char_of_def bit_Suc_0_iff)
  ultimately show ?thesis by (simp add: ip_is_valid_def ip_eq_def ip_ip_def ip_address_any_def zero_sockaddr_def)
qed

theorem ip_address_unparsed_witness:
  "ip_is_valid (ip_address_of ''localhost'' 80) \<and> ip_ip (ip_address_of ''localhost'' 80) = ''0.0.0.0''"
proof -
  have "inet_pton ''localhost'' = None" by (simp add: inet_pton_def is_digit_def)
  then show ?thesis using ip_address_unparsed by blast
qed

end
