(* ===== verification/Socket.thy ===== *)
theory Socket
  imports Ip_Address
begin

text \<open>
  \<^verbatim>\<open>Socket\<close> (\<^verbatim>\<open>include/net/socket.hpp\<close>, \<^verbatim>\<open>src/net/socket.cpp\<close>). What the system calls return is the parameter \<open>os\<close>, the
  calls made are listed. A failed call ends the process through \<^verbatim>\<open>std::exit\<close>: the result is then \<^term>\<open>Inl\<close> of the message
  logged.
\<close>

section \<open>Operations\<close>

datatype sock_type = TCP | UDP

datatype sockopt = SO_REUSEADDR | SO_REUSEPORT | SO_RCVBUF | SO_SNDBUF

datatype sock_call =
    Sys_Socket i32
  | Sys_Setsockopt i32 sockopt i32
  | Sys_Bind i32 "byte list" u32
  | Sys_Listen i32 i32

text \<open>\<^verbatim>\<open>SOCK_CLOEXEC\<close>, \<^verbatim>\<open>SOCK_STREAM\<close>, \<^verbatim>\<open>SOCK_DGRAM\<close>\<close>

definition sock_cloexec :: i32 where
  "sock_cloexec = 524288"

definition sock_stream :: i32 where
  "sock_stream = 1"

definition sock_dgram :: i32 where
  "sock_dgram = 2"

definition socket_buffer_size :: i32 where
  "socket_buffer_size = 4 * 1024 * 1024"

definition fails :: "(sock_call \<Rightarrow> i32) \<Rightarrow> sock_call \<Rightarrow> bool" where
  "fails os c \<longleftrightarrow> sint (os c) < 0"

definition socket_new :: "(sock_call \<Rightarrow> i32) \<Rightarrow> u16 \<Rightarrow> sock_type \<Rightarrow> sock_call list \<times> (string + i32)" where
  "socket_new os port type =
     (let c0 = Sys_Socket (sock_cloexec OR (if type = TCP then sock_stream else sock_dgram)); fd = os c0 in
      if sint fd < 0 then ([c0], Inl ''Failed to create socket'')
      else let c1 = Sys_Setsockopt fd SO_REUSEADDR 1 in
      if fails os c1 then ([c0, c1], Inl ''Failed to set SO_REUSEADDR'')
      else let c2 = Sys_Setsockopt fd SO_REUSEPORT 1 in
      if fails os c2 then ([c0, c1, c2], Inl ''Failed to set SO_REUSEPORT'')
      else let r = Sys_Setsockopt fd SO_RCVBUF socket_buffer_size; s = Sys_Setsockopt fd SO_SNDBUF socket_buffer_size;
               b = Sys_Bind fd (ip_addr (ip_address_any port)) ip_len;
               finish = (\<lambda>cs. if fails os b then (cs @ [b], Inl ''Failed to bind socket'') else (cs @ [b], Inr fd)) in
      if type = UDP then
        if fails os r then ([c0, c1, c2, r], Inl ''Failed to set UDP socket buffer size'')
        else if fails os s then ([c0, c1, c2, r, s], Inl ''Failed to set UDP socket buffer size'')
        else finish [c0, c1, c2, r, s]
      else finish [c0, c1, c2])"

text \<open>\<^verbatim>\<open>listen\<close>: \<^verbatim>\<open>-1\<close> after logging the failure, else \<^verbatim>\<open>0\<close>.\<close>

definition socket_listen :: "(sock_call \<Rightarrow> i32) \<Rightarrow> i32 \<Rightarrow> i32 \<Rightarrow> i32" where
  "socket_listen os fd backlog = (if fails os (Sys_Listen fd backlog) then - 1 else 0)"

end
