(* ===== verification/Tcp_Thread.thy ===== *)
theory Tcp_Thread
  imports Tcp_Channel Socket
begin

text \<open>
  The worker thread of a TCP server: \<^verbatim>\<open>TcpThread\<close> (\<^verbatim>\<open>include/core/tcp_thread.hpp\<close>, \<^verbatim>\<open>src/core/tcp_thread.cpp\<close>)
  and the coroutine \<^verbatim>\<open>accept_loop\<close> (\<^verbatim>\<open>src/net/acceptor.cpp\<close>), on the event loop of \<open>Io_Thread\<close>.
\<close>

section \<open>Accepting\<close>

text \<open>
  Arming the multishot accept. \<^verbatim>\<open>unhandled_exception\<close> of this promise calls \<^verbatim>\<open>std::terminate\<close>, so here an
  exception is \<^term>\<open>None\<close>.
\<close>

definition accept_arm :: "('r, 'q) tcp_api \<Rightarrow> 'r tcp_worker \<Rightarrow> 'r tcp_worker option" where
  "accept_arm api w =
     (case put_sqe api (\<lambda>q. set_data (Tok Accept_Tok) (prep_multishot_accept (tw_listen w) None None sock_cloexec q)) w of
        (True, _) \<Rightarrow> None
      | (False, w') \<Rightarrow> Some w')"

definition accept_await :: "'r tcp_worker \<Rightarrow> 'r tcp_worker" where
  "accept_await w = w\<lparr>tw_atok := token_await_suspend () (tw_atok w), tw_aco := At_Token\<rparr>"

text \<open>
  The coroutine up to its first suspension. The listening socket is opened on the server's port; a failure there ends the
  process, while the result of \<^verbatim>\<open>listen\<close> is ignored.
\<close>

definition accept_start :: "('r, 'q) tcp_api \<Rightarrow> (sock_call \<Rightarrow> i32) \<Rightarrow> i32 \<Rightarrow> 'r tcp_worker \<Rightarrow> 'r tcp_worker option" where
  "accept_start api os port w =
     (case snd (socket_new os (ucast port) TCP) of
        Inl _ \<Rightarrow> None
      | Inr fd \<Rightarrow> let _ = socket_listen os fd 4096 in
          map_option accept_await (accept_arm api (w\<lparr>tw_listen := fd, tw_atok := token_new, tw_aco := Running\<rparr>)))"

text \<open>\<^verbatim>\<open>~Socket\<close> of the listening socket, a local variable of the coroutine.\<close>

definition close_listen :: "'r tcp_worker \<Rightarrow> 'r tcp_worker" where
  "close_listen w = (if 0 \<le> sint (tw_listen w) then w\<lparr>tw_closed := tw_closed w @ [tw_listen w]\<rparr> else w)"

text \<open>The body after \<^verbatim>\<open>co_await\<close>. A negative result ends the loop.\<close>

definition accept_resume ::
  "('r, 'q) tcp_api \<Rightarrow> 'r tcp_worker tcp_server \<Rightarrow> 'r tcp_worker \<Rightarrow> 'r tcp_worker option" where
  "accept_resume api srv w =
     (let fd = tk_res (tw_atok w); flag = tk_flag (tw_atok w) in
      if sint fd < 0
      then Some (close_listen (w\<lparr>tw_aco := Finished\<rparr>))
      else do {
        w1 \<leftarrow> (if has_more flag then Some w else accept_arm api w);
        (ch, w2) \<leftarrow> tcp_pool_acquire api srv fd w1;
        Some (accept_await (if ch = None then w2\<lparr>tw_closed := tw_closed w2 @ [fd]\<rparr> else w2)) })"

section \<open>Completions\<close>

text \<open>\<^verbatim>\<open>token->complete(res, flags)\<close>, with the coroutine it resumes.\<close>

fun tcp_complete ::
  "('r, 'q) tcp_api \<Rightarrow> 'r tcp_worker tcp_server \<Rightarrow> tcp_tok \<Rightarrow> i32 \<Rightarrow> i32 \<Rightarrow> 'r tcp_worker \<Rightarrow> 'r tcp_worker option" where
  "tcp_complete api srv Accept_Tok res flag w =
     (case token_complete res flag (tw_atok w) of (h, t) \<Rightarrow>
        if h = None then Some (w\<lparr>tw_atok := t\<rparr>) else accept_resume api srv (w\<lparr>tw_atok := t, tw_aco := Running\<rparr>))"
| "tcp_complete api srv (Recv_Tok c) res flag w =
     (case token_complete res flag (ch_rtok (chan w c)) of (h, t) \<Rightarrow>
        if h = None then Some (chan_upd c (\<lambda>ch. ch\<lparr>ch_rtok := t\<rparr>) w)
        else read_resume api srv c (chan_upd c (\<lambda>ch. ch\<lparr>ch_rtok := t, ch_rco := Running\<rparr>) w))"
| "tcp_complete api srv (Send_Tok c) res flag w =
     (case token_complete res flag (ch_wtok (chan w c)) of (h, t) \<Rightarrow>
        if h = None then Some (chan_upd c (\<lambda>ch. ch\<lparr>ch_wtok := t\<rparr>) w)
        else send_resume api srv c (chan_upd c (\<lambda>ch. ch\<lparr>ch_wtok := t, ch_wco := Running\<rparr>) w))"

section \<open>Hooks of the event loop\<close>

text \<open>
  \<^verbatim>\<open>on_batch_done\<close>: a range-based \<^verbatim>\<open>for\<close> over the vector. A callback that appended to it would invalidate the
  iteration; only \<^verbatim>\<open>tcp_read_loop\<close> appends, from completions, so the loop runs over the value at its start.
\<close>

fun read_callbacks ::
  "'r tcp_worker tcp_server \<Rightarrow> nat list \<Rightarrow> 'r tcp_worker \<Rightarrow> 'r tcp_worker option" where
  "read_callbacks srv [] w = Some w"
| "read_callbacks srv (c # cs) w = do {
     w' \<leftarrow> on_read srv c (chan_upd c (\<lambda>ch. ch\<lparr>ch_in_pending := False\<rparr>) w);
     read_callbacks srv cs w' }"

definition tcp_on_batch_done :: "'r tcp_worker tcp_server \<Rightarrow> 'r tcp_worker \<Rightarrow> 'r tcp_worker option" where
  "tcp_on_batch_done srv w =
     map_option (\<lambda>w'. w'\<lparr>tw_pending := []\<rparr>) (read_callbacks srv (tw_pending w) w)"

definition tcp_on_loop_start :: "('r, 'q) tcp_api \<Rightarrow> (sock_call \<Rightarrow> i32) \<Rightarrow> i32 \<Rightarrow> 'r tcp_worker \<Rightarrow> 'r tcp_worker option" where
  "tcp_on_loop_start api os port w = accept_start api os port w"

text \<open>
  The batch loop of \<^verbatim>\<open>on_stop\<close>. It has no test for the sentinel: a completion of the wake-up read would
  call \<^verbatim>\<open>complete\<close> through the pointer \<^verbatim>\<open>-1\<close>, which is \<^term>\<open>None\<close>.
\<close>

fun stop_batch ::
  "(tcp_tok \<Rightarrow> i32 \<Rightarrow> i32 \<Rightarrow> 'w \<Rightarrow> 'w option) \<Rightarrow> tcp_tok cqe list \<Rightarrow> bool \<Rightarrow> 'w \<Rightarrow> (bool \<times> 'w) option" where
  "stop_batch complete [] done w = Some (done, w)"
| "stop_batch complete (c # cs) done w =
     (case cqe_data c of
        Tok t \<Rightarrow> Option.bind (complete t (cqe_res c) (cqe_flags c) w) (stop_batch complete cs done)
      | Null_Data \<Rightarrow> stop_batch complete cs True w
      | Minus_One \<Rightarrow> None)"

text \<open>One pass of \<^verbatim>\<open>for (bool done = false; !done;)\<close>.\<close>

definition stop_turn ::
  "('r, 'q) tcp_api \<Rightarrow> 'r tcp_worker tcp_server \<Rightarrow> 'r tcp_worker \<Rightarrow> (bool \<times> 'r tcp_worker) option" where
  "stop_turn api srv w = do {
     w1 \<leftarrow> (if it_cpu w = - 1
        then (case ring_submit_and_wait api 1 (it_ring w) of (Inl _, _) \<Rightarrow> None | (Inr _, ring) \<Rightarrow> Some (w\<lparr>it_ring := ring\<rparr>))
        else Some w);
     let ((n, cs), ring) = peek_batch_cqe api (ir_queue_depth (it_ring w1)) (it_ring w1);
     if nat (sint n) \<le> length cs then do {
       (fin, w2) \<leftarrow> stop_batch (tcp_complete api srv) (take (nat (sint n)) cs) False (w1\<lparr>it_ring := ring\<rparr>);
       Some (fin, w2\<lparr>it_ring := cqe_advance api n (it_ring w2)\<rparr>) }
     else None }"

partial_function (option) stop_loop ::
  "('r, 'q) tcp_api \<Rightarrow> 'r tcp_worker tcp_server \<Rightarrow> 'r tcp_worker \<Rightarrow> 'r tcp_worker option" where
  "stop_loop api srv w =
     Option.bind (stop_turn api srv w) (\<lambda>x. if fst x then Some (snd x) else stop_loop api srv (snd x))"

declare stop_loop.simps [code]

text \<open>\<^verbatim>\<open>accept_handle_.destroy()\<close>: a coroutine suspended in its loop still owns the listening socket.\<close>

definition destroy_accept :: "'r tcp_worker \<Rightarrow> 'r tcp_worker" where
  "destroy_accept w =
     (if tw_aco w = No_Frame then w
      else (if tw_aco w = Finished then w else close_listen w)\<lparr>tw_aco := No_Frame\<rparr>)"

definition tcp_on_stop ::
  "('r, 'q) tcp_api \<Rightarrow> 'r tcp_worker tcp_server \<Rightarrow> 'r tcp_worker \<Rightarrow> 'r tcp_worker option" where
  "tcp_on_stop api srv w =
     (case put_sqe api (\<lambda>q. set_data Null_Data (prep_cancel_all q)) w of
        (True, _) \<Rightarrow> None
      | (False, w1) \<Rightarrow> map_option destroy_accept (stop_loop api srv w1))"

definition tcp_run_loop ::
  "('r, 'q) tcp_api \<Rightarrow> 'r tcp_worker tcp_server \<Rightarrow> (sock_call \<Rightarrow> i32) \<Rightarrow> i32 \<Rightarrow> bool list \<Rightarrow> 'r tcp_worker \<Rightarrow>
   (bool \<times> 'r tcp_worker) option" where
  "tcp_run_loop api srv os port =
     run_loop api Wakeup_Buf (tcp_on_loop_start api os port) (tcp_complete api srv) (tcp_on_batch_done srv) (tcp_on_stop api srv)"

end
