(* ===== verification/Tcp_Lifecycle.thy ===== *)
theory Tcp_Lifecycle
  imports Tcp_Thread
begin

text \<open>
  The life of a TCP connection, from \<^verbatim>\<open>TcpChannelPool::acquire\<close> to its return to the pool: what the code does
  when the peer closes, what completions on a closing channel do, and when a channel is handed back twice.
\<close>

section \<open>The end of a connection\<close>

text \<open>An open connection with nothing to send: both coroutines are suspended.\<close>

definition conn_idle :: "tcp_channel \<Rightarrow> bool" where
  "conn_idle ch \<longleftrightarrow> ch_notify ch = \<lparr>nt_pending = False, nt_closed = False, nt_handle = Some ()\<rparr> \<and>
     ch_wco ch = At_Notify \<and> \<not> ws_has_send_data (ch_wbuf ch) \<and>
     wb_pending_head (ch_wbuf ch) = wb_pending_tail (ch_wbuf ch) \<and>
     tk_handle (ch_rtok ch) = Some () \<and> ch_rco ch = At_Token"

lemma sint_pred:
  fixes x :: i32
  assumes "- (2 ^ 31) < sint x"
  shows "sint (x - 1) = sint x - 1"
proof -
  have "sint x < 2 ^ 31" using sint_lt [of x] by simp
  then show ?thesis using assms by (simp add: sint_word_ariths signed_take_bit_int_eq_self)
qed

lemma in_flight_dec_open:
  assumes "c < length (tw_chans w)" and "\<not> is_closing (chan w c)"
  shows "in_flight_dec api c w = Some (chan_upd c (\<lambda>ch. ch\<lparr>ch_in_flight := ch_in_flight ch - 1\<rparr>) w)"
  using assms by (auto simp: in_flight_dec_def on_drained_def is_closing_def Let_def)

lemma tcp_close_idle:
  assumes c: "c < length (tw_chans w)" and h: "ch_notify (chan w c) = \<lparr>nt_pending = False, nt_closed = False, nt_handle = Some ()\<rparr>"
    and e: "\<not> ws_has_send_data (ch_wbuf (chan w c))" "wb_pending_head (ch_wbuf (chan w c)) = wb_pending_tail (ch_wbuf (chan w c))"
    and f: "\<not> has_in_flight (chan w c)"
  shows "tcp_close api c w = Some (chan_upd c (\<lambda>ch. ch\<lparr>ch_notify := \<lparr>nt_pending = False, nt_closed = True, nt_handle = None\<rparr>,
      ch_wbuf := (ch_wbuf ch)\<lparr>wb_send_head := 0, wb_send_tail := 0, wb_pending_head := 0, wb_pending_tail := 0,
        ws_head_offset := 0\<rparr>, ch_wco := Finished, ch_fd := - 1\<rparr>) (w\<lparr>tw_closed := tw_closed w @ [ch_fd (chan w c)]\<rparr>))"
  using c h f ws_reset_empty [OF e]
  by (simp add: tcp_close_def tcp_notify_close_def nt_notify_close_def write_wake_def write_send_def write_finish_def
      is_closing_def has_in_flight_def chan_upd_commute)
    (simp add: chan_upd_def chan_def)

text \<open>
  The peer closes: the receive completes with no data. The count goes down before the channel is closed, so
  \<^verbatim>\<open>on_drained\<close> finds it open and does not release it; afterwards nothing is in flight any more.
\<close>

lemma eof_keeps_pool:
  assumes c: "c < length (tw_chans w)" and idle: "conn_idle (chan w c)"
    and n: "- (2 ^ 31) < sint (ch_in_flight (chan w c))" "sint (ch_in_flight (chan w c)) \<le> 1"
    and inv: "rs_inv (tw_br w) (ch_rbuf (chan w c))" and res: "sint res \<le> 0"
    and srv: "\<And>w. on_close srv c res w = Some w"
  shows "\<exists>w'. tcp_complete api srv (Recv_Tok c) res flag w = Some w' \<and>
    tw_freeq w' = tw_freeq w \<and> tw_head w' = tw_head w \<and> tw_tail w' = tw_tail w \<and> tw_mask w' = tw_mask w \<and>
    tw_br w' = fold br_release (rb_list (ch_rbuf (chan w c))) (tw_br w) \<and>
    is_closed (chan w' c) \<and> is_closing (chan w' c) \<and> ch_rco (chan w' c) = Finished \<and> ch_wco (chan w' c) = Finished \<and>
    \<not> has_in_flight (chan w' c) \<and> it_ring w' = it_ring w \<and> it_sqes w' = it_sqes w \<and> tw_pool w' = tw_pool w \<and>
    tw_closed w' = tw_closed w @ [ch_fd (chan w c)] \<and>
    length (tw_chans w') = length (tw_chans w) \<and> (\<forall>d. d \<noteq> c \<longrightarrow> chan w' d = chan w d)"
proof -
  let ?w = "chan_upd c (\<lambda>ch. ch\<lparr>ch_rtok := (ch_rtok (chan w c))\<lparr>tk_res := res, tk_flag := flag, tk_handle := None\<rparr>,
      ch_rco := Running\<rparr>) w"
  let ?w1 = "chan_upd c (\<lambda>ch. ch\<lparr>ch_in_flight := ch_in_flight ch - 1\<rparr>) ?w"
  have opn: "\<not> is_closing (chan ?w c)" using c idle by (simp add: conn_idle_def is_closing_def)
  have dec: "in_flight_dec api c ?w = Some ?w1" using in_flight_dec_open [OF _ opn] c by simp
  have zero: "\<not> has_in_flight (chan ?w1 c)"
    using c sint_pred [OF n(1)] n(2) by (simp add: has_in_flight_def)
  obtain r' where rs: "rs_reset (ch_rbuf (chan w c)) (tw_br w) =
      Some (r', fold br_release (rb_list (ch_rbuf (chan w c))) (tw_br w))"
    using rs_reset_ok [OF inv] by blast
  have cl: "tcp_close api c ?w1 = Some (chan_upd c (\<lambda>ch. ch\<lparr>ch_notify := \<lparr>nt_pending = False, nt_closed = True, nt_handle = None\<rparr>,
      ch_wbuf := (ch_wbuf ch)\<lparr>wb_send_head := 0, wb_send_tail := 0, wb_pending_head := 0, wb_pending_tail := 0,
        ws_head_offset := 0\<rparr>, ch_wco := Finished, ch_fd := - 1\<rparr>) (?w1\<lparr>tw_closed := tw_closed ?w1 @ [ch_fd (chan ?w1 c)]\<rparr>))"
    by (rule tcp_close_idle) (use c idle zero in \<open>simp_all add: conn_idle_def\<close>)
  show ?thesis
    using idle c res dec cl rs zero opn
    by (simp add: conn_idle_def token_complete_def read_resume_def Let_def srv read_finish_def is_closing_def
        is_closed_def has_in_flight_def)
qed

section \<open>The start of a connection\<close>

text \<open>A channel nobody uses.\<close>

definition conn_unused :: "buf_ring \<Rightarrow> tcp_channel \<Rightarrow> bool" where
  "conn_unused b ch \<longleftrightarrow> \<not> ws_has_send_data (ch_wbuf ch) \<and>
     wb_pending_head (ch_wbuf ch) = wb_pending_tail (ch_wbuf ch) \<and>
     rs_inv b (ch_rbuf ch) \<and> rb_list (ch_rbuf ch) = [] \<and> ch_in_flight ch = 0"

lemma tcp_assign_idle:
  assumes c: "c < length (tw_chans w)" and n: "ch_in_flight (chan w c) = 0" and sqe: "sqe_free api w"
    and e: "\<not> ws_has_send_data (ch_wbuf (chan w c))" "wb_pending_head (ch_wbuf (chan w c)) = wb_pending_tail (ch_wbuf (chan w c))"
    and srv: "\<And>w. on_accept srv c w = Some w"
  shows "\<exists>w'. tcp_assign api srv fd c w = Some w' \<and> conn_idle (chan w' c) \<and> ch_in_flight (chan w' c) = 1 \<and>
    ch_fd (chan w' c) = fd \<and> ch_rbuf (chan w' c) = ch_rbuf (chan w c) \<and> tw_br w' = tw_br w \<and>
    tw_freeq w' = tw_freeq w \<and> tw_head w' = tw_head w \<and> tw_tail w' = tw_tail w \<and> tw_mask w' = tw_mask w \<and>
    tw_closed w' = tw_closed w \<and> length (tw_chans w') = length (tw_chans w) \<and> (\<forall>d. d \<noteq> c \<longrightarrow> chan w' d = chan w d)"
proof -
  have s: "sqe_free api (chan_upd c f w)" for f using sqe by (simp add: sqe_free_def)
  show ?thesis
    using c n e
    by (simp add: tcp_assign_def read_start_def recv_arm_def put_sqe_eq s recv_await_def write_start_def srv
        write_loop_suspends notify_token_new_def nt_await_suspend_def conn_idle_def
        token_await_suspend_def in_flight_inc_def chan_upd_commute)
qed

text \<open>The free channels of the pool, in the order they will be handed out.\<close>

definition pool_free :: "'r tcp_worker \<Rightarrow> nat list" where
  "pool_free w = map unat (ring_list (tw_freeq w) (tw_mask w) (tw_head w) (tw_tail w))"

definition pool_unused :: "'r tcp_worker \<Rightarrow> bool" where
  "pool_unused w \<longleftrightarrow> distinct (pool_free w) \<and>
     (\<forall>c \<in> set (pool_free w). c < length (tw_chans w) \<and> conn_unused (tw_br w) (chan w c))"

section \<open>A new pool\<close>

definition pool_add :: "(nat \<Rightarrow> read_stream \<times> write_stream) \<Rightarrow> nat \<Rightarrow> 'r tcp_worker \<Rightarrow> 'r tcp_worker" where
  "pool_add bufs i w = w\<lparr>tw_chans := tw_chans w @ [tcp_channel_new (- 1) (fst (bufs i)) (snd (bufs i))],
     tw_freeq := (tw_freeq w)[ring_slot (tw_mask w) (tw_tail w) := of_nat i], tw_tail := tw_tail w + 1\<rparr>"

lemma pool_add_fields [simp]:
  "tw_br (pool_add bufs i w) = tw_br w" "tw_mask (pool_add bufs i w) = tw_mask w" "tw_head (pool_add bufs i w) = tw_head w"
  "length (tw_freeq (pool_add bufs i w)) = length (tw_freeq w)"
  by (simp_all add: pool_add_def)

lemma pool_add_fold:
  fixes bufs :: "nat \<Rightarrow> read_stream \<times> write_stream"
  assumes "ring_ok (tw_freeq w) (tw_mask w) (tw_head w) (tw_tail w)" and "tw_head w = tw_tail w" and "tw_chans w = []"
    and "m \<le> length (tw_freeq w)"
  defines "w' \<equiv> fold (pool_add bufs) [0..<m] w"
  shows "tw_chans w' = map (\<lambda>i. tcp_channel_new (- 1) (fst (bufs i)) (snd (bufs i))) [0..<m] \<and>
    ring_list (tw_freeq w') (tw_mask w') (tw_head w') (tw_tail w') = map of_nat [0..<m] \<and>
    ring_ok (tw_freeq w') (tw_mask w') (tw_head w') (tw_tail w') \<and>
    length (tw_freeq w') = length (tw_freeq w) \<and> tw_br w' = tw_br w"
  unfolding w'_def using assms(4)
proof (induction m)
  case 0
  then show ?case using assms(1-3) by (simp add: ring_list_def)
next
  case (Suc m)
  let ?w = "fold (pool_add bufs) [0..<m] w"
  have IH: "tw_chans ?w = map (\<lambda>i. tcp_channel_new (- 1) (fst (bufs i)) (snd (bufs i))) [0..<m]"
      "ring_list (tw_freeq ?w) (tw_mask ?w) (tw_head ?w) (tw_tail ?w) = map of_nat [0..<m]"
      "ring_ok (tw_freeq ?w) (tw_mask ?w) (tw_head ?w) (tw_tail ?w)" "length (tw_freeq ?w) = length (tw_freeq w)"
      "tw_br ?w = tw_br w"
    using Suc by auto
  have "unat (tw_tail ?w - tw_head ?w) = m" using arg_cong [OF IH(2), of length] by simp
  then have lt: "unat (tw_tail ?w - tw_head ?w) < length (tw_freeq ?w)" using Suc.prems IH(4) by simp
  show ?case
    using IH ring_list_push [OF IH(3) lt, of "of_nat m"] ring_ok_push(1) [OF IH(3) lt]
    by (simp add: pool_add_def [of bufs m ?w])
qed

lemma tcp_pool_new_unused:
  assumes pow: "is_power_of_two n" and len: "length freeq = unat n"
    and bufs: "\<And>i. conn_unused (tw_br w) (tcp_channel_new (- 1) (fst (bufs i)) (snd (bufs i)))"
  shows "\<exists>w'. tcp_pool_new bufs freeq n w = Some w' \<and> pool_unused w' \<and> pool_free w' = [0..<unat n] \<and>
    tw_chans w' = map (\<lambda>i. tcp_channel_new (- 1) (fst (bufs i)) (snd (bufs i))) [0..<unat n]"
proof -
  obtain k where k: "k < 31" "n = 2 ^ k" "unat n = 2 ^ k" using pow by (rule is_power_of_twoE)
  let ?u = "w\<lparr>tw_chans := [], tw_freeq := freeq, tw_head := 0, tw_tail := 0, tw_psize := n, tw_mask := n - 1\<rparr>"
  let ?w = "fold (pool_add bufs) [0..<unat n] ?u"
  have new: "tcp_pool_new bufs freeq n w = Some ?w"
    using pow by (simp add: tcp_pool_new_def pool_add_def [abs_def])
  have m: "n - 1 = mask k" using k(2) by (simp add: mask_eq_exp_minus_1)
  have "ring_ok (tw_freeq ?u) (tw_mask ?u) (tw_head ?u) (tw_tail ?u)"
    using len k m by (auto simp: ring_ok_def)
  from pool_add_fold [OF this, of "unat n" bufs] len
  have w: "tw_chans ?w = map (\<lambda>i. tcp_channel_new (- 1) (fst (bufs i)) (snd (bufs i))) [0..<unat n]"
      "ring_list (tw_freeq ?w) (tw_mask ?w) (tw_head ?w) (tw_tail ?w) = map of_nat [0..<unat n]" "tw_br ?w = tw_br w"
    by simp_all
  have "map unat (map of_nat [0..<unat n] :: i32 list) = [0..<unat n]"
    by (intro nth_equalityI) (simp_all add: unat_of_nat_le [of _ n] less_imp_le)
  then have "pool_free ?w = [0..<unat n]" by (simp only: pool_free_def w(2))
  moreover from this have "pool_unused ?w" using w(1,3) bufs by (simp add: pool_unused_def chan_def)
  ultimately show ?thesis using new w(1) by auto
qed

section \<open>A channel released twice\<close>

lemma tcp_close_in_flight:
  assumes c: "c < length (tw_chans w)" and idle: "conn_idle (chan w c)" and f: "has_in_flight (chan w c)"
  shows "tcp_close api c w = Some (chan_upd c (\<lambda>ch. ch\<lparr>ch_notify := \<lparr>nt_pending = False, nt_closed = True, nt_handle = Some ()\<rparr>,
      ch_wco := At_Notify, ch_fd := - 1\<rparr>) (w\<lparr>tw_closed := tw_closed w @ [ch_fd (chan w c)]\<rparr>))"
proof -
  let ?w = "chan_upd c (\<lambda>ch. ch\<lparr>ch_notify := \<lparr>nt_pending = False, nt_closed = True, nt_handle = None\<rparr>, ch_wco := Running\<rparr>) w"
  have "write_send api c ?w = Some (True, ?w)"
    by (rule write_send_empty) (use c idle f in \<open>simp_all add: conn_idle_def has_in_flight_def\<close>)
  moreover have "write_loop api c ?w = Some (chan_upd c (\<lambda>ch. ch\<lparr>ch_notify := nt_await_suspend () (ch_notify (chan ?w c)),
      ch_wco := At_Notify\<rparr>) ?w)"
    by (rule write_loop_suspends) (use c idle in \<open>simp_all add: conn_idle_def\<close>)
  ultimately show ?thesis
    using c idle
    by (simp add: tcp_close_def tcp_notify_close_def nt_notify_close_def conn_idle_def write_wake_def nt_await_suspend_def
        chan_upd_commute)
qed

definition freed :: "nat \<Rightarrow> 'r tcp_worker \<Rightarrow> 'r tcp_worker" where
  "freed c w = w\<lparr>tw_freeq := (tw_freeq w)[ring_slot (tw_mask w) (tw_tail w) := of_nat c], tw_tail := tw_tail w + 1\<rparr>"

lemma freed_simps [simp]:
  "chan (freed c w) d = chan w d" "tw_chans (freed c w) = tw_chans w" "tw_br (freed c w) = tw_br w" "tw_head (freed c w) = tw_head w"
  "tw_mask (freed c w) = tw_mask w" "it_ring (freed c w) = it_ring w" "tw_pending (freed c w) = tw_pending w"
  "chan_upd e f (freed c w) = freed c (chan_upd e f w)" "length (tw_freeq (freed c w)) = length (tw_freeq w)"
  by (simp_all add: freed_def chan_upd_commute)

lemma release_closed: "ch_fd (chan w c) = - 1 \<Longrightarrow> tcp_pool_release c w = Some (freed c w)"
  by (simp add: tcp_pool_release_def is_closed_def freed_def)

text \<open>The part of the worker the pool uses.\<close>

definition pool_ring_ok :: "'r tcp_worker \<Rightarrow> bool" where
  "pool_ring_ok w \<longleftrightarrow> ring_ok (tw_freeq w) (tw_mask w) (tw_head w) (tw_tail w)"

definition same_pool :: "'r tcp_worker \<Rightarrow> 'r tcp_worker \<Rightarrow> bool" where
  "same_pool w w' \<longleftrightarrow> tw_freeq w' = tw_freeq w \<and> tw_mask w' = tw_mask w \<and> tw_head w' = tw_head w \<and> tw_tail w' = tw_tail w"

lemma same_pool_free: "same_pool w w' \<Longrightarrow> pool_free w' = pool_free w"
  and same_pool_ok: "same_pool w w' \<Longrightarrow> pool_ring_ok w' = pool_ring_ok w"
  by (simp_all add: same_pool_def pool_free_def pool_ring_ok_def)

lemma freed_pool:
  assumes "pool_ring_ok w" and "length (pool_free w) < length (tw_freeq w)" and "c < 2 ^ 32"
  shows "pool_free (freed c w) = pool_free w @ [c]" and "pool_ring_ok (freed c w)"
proof -
  have lt: "unat (tw_tail w - tw_head w) < length (tw_freeq w)" using assms(2) by (simp add: pool_free_def)
  show "pool_free (freed c w) = pool_free w @ [c]"
    using ring_list_push [OF assms(1) [unfolded pool_ring_ok_def] lt] assms(3)
    by (simp add: pool_free_def freed_def unat_of_nat take_bit_nat_eq_self)
  show "pool_ring_ok (freed c w)"
    using ring_ok_push(1) [OF assms(1) [unfolded pool_ring_ok_def] lt] by (simp add: pool_ring_ok_def freed_def)
qed

text \<open>The count of a closing channel reaches zero: the write coroutine ends and the channel is released.\<close>

lemma last_completion_waiting:
  assumes c: "c < length (tw_chans w)" and fd: "ch_fd (chan w c) = - 1" and n: "ch_in_flight (chan w c) = 1"
    and h: "ch_notify (chan w c) = \<lparr>nt_pending = False, nt_closed = True, nt_handle = Some ()\<rparr>"
    and e: "\<not> ws_has_send_data (ch_wbuf (chan w c))" "wb_pending_head (ch_wbuf (chan w c)) = wb_pending_tail (ch_wbuf (chan w c))"
  shows "\<exists>f. in_flight_dec api c w = Some (freed c (chan_upd c f w)) \<and>
    f (chan w c) = (chan w c)\<lparr>ch_in_flight := 0, ch_notify := \<lparr>nt_pending = False, nt_closed = True, nt_handle = None\<rparr>,
      ch_wbuf := (ch_wbuf (chan w c))\<lparr>wb_send_head := 0, wb_send_tail := 0, wb_pending_head := 0, wb_pending_tail := 0,
        ws_head_offset := 0\<rparr>, ch_wco := Finished\<rparr>"
  using c fd n h ws_reset_empty [OF e]
  by (simp add: in_flight_dec_def on_drained_def is_closing_def tcp_notify_def nt_notify_def write_wake_def write_send_def
      has_in_flight_def write_finish_def release_closed chan_upd_commute Let_def)
    (rule exI, rule conjI, rule refl, simp)

lemma last_completion_again:
  assumes c: "c < length (tw_chans w)" and fd: "ch_fd (chan w c) = - 1" and n: "ch_in_flight (chan w c) = 1"
    and h: "nt_closed (ch_notify (chan w c))" "nt_handle (ch_notify (chan w c)) = None"
  shows "in_flight_dec api c w = Some (freed c (chan_upd c
    (\<lambda>ch. ch\<lparr>ch_in_flight := ch_in_flight ch - 1, ch_notify := (ch_notify (chan w c))\<lparr>nt_pending := True\<rparr>\<rparr>) w))"
  using c fd n h
  by (simp add: in_flight_dec_def on_drained_def is_closing_def tcp_notify_def nt_notify_def release_closed
      Let_def)

text \<open>A completion with data and without \<^verbatim>\<open>IORING_CQE_F_MORE\<close> on the closing channel: released, and armed again.\<close>

lemma data_after_close:
  assumes c: "c < length (tw_chans w)" and fd: "ch_fd (chan w c) = - 1" and n: "ch_in_flight (chan w c) = 1"
    and h: "ch_notify (chan w c) = \<lparr>nt_pending = False, nt_closed = True, nt_handle = Some ()\<rparr>"
    and e: "\<not> ws_has_send_data (ch_wbuf (chan w c))" "wb_pending_head (ch_wbuf (chan w c)) = wb_pending_tail (ch_wbuf (chan w c))"
    and t: "tk_handle (ch_rtok (chan w c)) = Some ()"
    and rb: "rs_inv (tw_br w) (ch_rbuf (chan w c))" "rb_list (ch_rbuf (chan w c)) = []"
    and i: "cqe_buffer_id flag \<in> br_blocks (tw_br w)" and res: "0 < sint res" "unat res \<le> unat (br_bsize (tw_br w))"
    and more: "\<not> has_more flag" and sqe: "\<And>r. fst (u_get_sqe api r)"
  shows "\<exists>w'. tcp_complete api srv (Recv_Tok c) res flag w = Some w' \<and> same_pool (freed c w) w' \<and>
    length (tw_chans w') = length (tw_chans w) \<and> ch_fd (chan w' c) = - 1 \<and> ch_in_flight (chan w' c) = 1 \<and>
    nt_closed (ch_notify (chan w' c)) \<and> nt_handle (ch_notify (chan w' c)) = None \<and>
    tk_handle (ch_rtok (chan w' c)) = Some () \<and> rs_inv (tw_br w') (ch_rbuf (chan w' c))"
proof -
  let ?i = "cqe_buffer_id flag" and ?b = "br_set_data_size (cqe_buffer_id flag) res (tw_br w)"
  let ?w = "chan_upd c (\<lambda>ch. ch\<lparr>ch_rtok := (ch_rtok (chan w c))\<lparr>tk_res := res, tk_flag := flag, tk_handle := None\<rparr>,
      ch_rco := Running\<rparr>) w"
  obtain f where dec: "in_flight_dec api c ?w = Some (freed c (chan_upd c f ?w))"
    and f: "f (chan ?w c) = (chan ?w c)\<lparr>ch_in_flight := 0, ch_notify := \<lparr>nt_pending = False, nt_closed = True, nt_handle = None\<rparr>,
      ch_wbuf := (ch_wbuf (chan ?w c))\<lparr>wb_send_head := 0, wb_send_tail := 0, wb_pending_head := 0, wb_pending_tail := 0,
        ws_head_offset := 0\<rparr>, ch_wco := Finished\<rparr>"
    using last_completion_waiting [of c ?w api] c fd n h e by auto
  have "0 < unat res" using res(1) by (cases "res = 0") (simp_all add: unat_gt_0)
  moreover have "length (rb_list (ch_rbuf (chan w c))) < length (rb_queue (ch_rbuf (chan w c)))"
    using rb by (auto simp: rs_inv_def rb_shape_def)
  ultimately obtain r' where r': "rb_push_buf ?i ?b (ch_rbuf (chan w c)) = (True, r')" "rs_inv ?b r'"
    using rs_receive_ok [OF rb(1) i, of res] rb(2) res(2) by auto
  have len: "unat ?i < length (br_dsize (tw_br w))"
    using i rb(1) by (simp add: br_blocks_def rs_inv_def rb_filled_def br_shape_def word_less_nat_alt)
  have s: "sqe_free api w'" for w' :: "'a tcp_worker" using sqe by (simp add: sqe_free_def)
  show ?thesis
    using c t dec f res(1) more len r' fd
    by (simp add: token_complete_def read_resume_def Let_def recv_arm_def put_sqe_eq s recv_store_def recv_await_def
        mark_pending_read_def token_await_suspend_def in_flight_inc_def same_pool_def freed_def chan_upd_commute)
qed

lemma error_after_close:
  assumes c: "c < length (tw_chans w)" and fd: "ch_fd (chan w c) = - 1" and n: "ch_in_flight (chan w c) = 1"
    and h: "nt_closed (ch_notify (chan w c))" "nt_handle (ch_notify (chan w c)) = None"
    and t: "tk_handle (ch_rtok (chan w c)) = Some ()" and rb: "rs_inv (tw_br w) (ch_rbuf (chan w c))"
    and res: "sint res \<le> 0" and srv: "\<And>c res w. on_close srv c res w = Some w"
  shows "\<exists>w'. tcp_complete api srv (Recv_Tok c) res flag w = Some w' \<and> same_pool (freed c w) w'"
proof -
  let ?w = "chan_upd c (\<lambda>ch. ch\<lparr>ch_rtok := (ch_rtok (chan w c))\<lparr>tk_res := res, tk_flag := flag, tk_handle := None\<rparr>,
      ch_rco := Running\<rparr>) w"
  have dec: "in_flight_dec api c ?w = Some (freed c (chan_upd c
      (\<lambda>ch. ch\<lparr>ch_in_flight := ch_in_flight ch - 1, ch_notify := (ch_notify (chan ?w c))\<lparr>nt_pending := True\<rparr>\<rparr>) ?w))"
    by (rule last_completion_again) (use c fd n h in simp_all)
  obtain r' b' where "rs_reset (ch_rbuf (chan w c)) (tw_br w) = Some (r', b')"
    using rs_reset_ok [OF rb] by blast
  then show ?thesis
    using c t dec res h
    by (simp add: token_complete_def read_resume_def Let_def srv is_closing_def read_finish_def same_pool_def freed_def
        chan_upd_commute)
qed

section \<open>A connection closed by the application\<close>

definition sample_tcp_api :: "(unit, unit) tcp_api" where
  "sample_tcp_api = \<lparr>u_queue_init = \<lambda>_ _. (0, ()), u_queue_init_params = \<lambda>_ _. (0, ()), u_get_sqe = \<lambda>_. (True, ()),
     u_wait_cqe = \<lambda>_. (0, None, ()), u_peek_cqe = \<lambda>_. (0, None, ()), u_peek_batch_cqe = \<lambda>_ _. (0, [], ()),
     u_submit = \<lambda>_. (0, ()), u_submit_and_wait = \<lambda>_ _. (0, ()), u_register_files = \<lambda>_ _. (0, ()),
     u_cqe_seen = \<lambda>_ _. (), u_cq_advance = \<lambda>_ _. (), u_ring_fd = \<lambda>_. 0\<rparr>"

definition default_srv :: "'w tcp_server" where
  "default_srv = \<lparr>on_read = \<lambda>_. Some, on_write = \<lambda>_ _. Some, on_accept = \<lambda>_. Some, on_close = \<lambda>_ _. Some\<rparr>"

definition sample_worker :: "unit tcp_worker" where
  "sample_worker = \<lparr>it_cpu = - 1, it_ring = \<lparr>ir_ring = (), ir_queue_depth = 8\<rparr>, it_sqes = [], it_wakeup_fd = None,
     tw_br = sample_br, tw_pool = sample_pool, tw_chans = [], tw_freeq = [], tw_head = 0, tw_tail = 0, tw_psize = 0,
     tw_mask = 0, tw_pending = [], tw_closed = [], tw_listen = 3, tw_atok = token_new, tw_aco = No_Frame\<rparr>"

definition sample_bufs :: "nat \<Rightarrow> read_stream \<times> write_stream" where
  "sample_bufs i = (read_stream_new [0, 0] [0, 0] [0, 0] 0 sample_br, sample_ws)"

lemma sample_unused: "conn_unused sample_br (tcp_channel_new fd (fst (sample_bufs i)) (snd (sample_bufs i)))"
proof -
  have "rs_inv sample_br (fst (sample_bufs i))" "rb_list (fst (sample_bufs i)) = []"
    using read_stream_new_ok [OF sample_br_shape] by (simp_all add: sample_bufs_def sample_br_def)
  then show ?thesis
    by (simp add: conn_unused_def tcp_channel_new_def)
      (simp add: sample_bufs_def sample_ws_def write_stream_new_def write_buf_new_def write_buf.defs write_stream.defs
        ws_has_send_data_def)
qed


definition sample_conn :: tcp_channel where
  "sample_conn = (tcp_channel_new 7 (fst (sample_bufs 0)) (snd (sample_bufs 0)))\<lparr>
     ch_notify := \<lparr>nt_pending = False, nt_closed = False, nt_handle = Some ()\<rparr>, ch_in_flight := 1,
     ch_rtok := \<lparr>tk_handle = Some (), tk_res = 0, tk_flag = 0\<rparr>, ch_rco := At_Token, ch_wco := At_Notify\<rparr>"

definition sample_busy :: "unit tcp_worker" where
  "sample_busy = sample_worker\<lparr>tw_chans := [sample_conn], tw_freeq := [0, 0], tw_psize := 2, tw_mask := 1\<rparr>"

lemma sample_conn_idle:
  "conn_idle sample_conn" "rs_inv sample_br (ch_rbuf sample_conn)" "rb_list (ch_rbuf sample_conn) = []"
  using sample_unused [of 7 0] by (simp_all add: conn_unused_def conn_idle_def sample_conn_def tcp_channel_new_def)

lemma sample_busy_chan: "chan sample_busy 0 = sample_conn" "tw_br sample_busy = sample_br"
  by (simp_all add: sample_busy_def sample_worker_def chan_def)

lemma sample_busy_pool: "pool_ring_ok sample_busy" "pool_free sample_busy = []"
  unfolding pool_ring_ok_def ring_ok_def pool_free_def ring_list_def
  by (intro exI [of _ 1]; simp add: sample_busy_def sample_worker_def mask_eq_exp_minus_1)
    (simp add: sample_busy_def sample_worker_def)


end
