(* ===== verification/Buf_Kernel.thy ===== *)
theory Buf_Kernel
  imports Read_Stream
begin

text \<open>
  The kernel's part in receiving: it writes into the buffers it has been given, and it is given those that the log of the
  calls of \<open>Buf_Ring\<close> publishes.
\<close>

section \<open>Filling a buffer\<close>

text \<open>The kernel writes a message into a buffer it has been given.\<close>

definition kernel_fill :: "u32 \<Rightarrow> byte list \<Rightarrow> buf_ring \<Rightarrow> buf_ring" where
  "kernel_fill i ds b = b\<lparr>br_bufs := blit (br_buf_addr b i) ds (br_bufs b)\<rparr>"

lemma kernel_fill_fields [simp]:
  "br_num (kernel_fill i ds b) = br_num b" "br_bsize (kernel_fill i ds b) = br_bsize b"
  "br_dsize (kernel_fill i ds b) = br_dsize b" "br_group (kernel_fill i ds b) = br_group b"
  "br_log (kernel_fill i ds b) = br_log b" "br_mask (kernel_fill i ds b) = br_mask b"
  "br_data_size (kernel_fill i ds b) = br_data_size b" "br_blocks (kernel_fill i ds b) = br_blocks b"
  "br_buf_addr (kernel_fill i ds b) = br_buf_addr b"
  by (auto simp: kernel_fill_def br_data_size_def br_blocks_def br_buf_addr_def)

lemma kernel_fill_inside:
  assumes "br_shape b" and "i \<in> br_blocks b" and "length ds \<le> unat (br_bsize b)"
  shows "br_buf_addr b i + length ds \<le> length (br_bufs b)"
proof -
  have "unat i < unat (br_num b)" using assms(2) by (simp add: br_blocks_def word_less_nat_alt)
  from block_inside [OF this assms(3)] show ?thesis
    using assms(1) br_buf_addr_unat [OF assms(1,2)] by (simp add: br_shape_def)
qed

lemma kernel_fill_shape:
  assumes "br_shape b" and "i \<in> br_blocks b" and "length ds \<le> unat (br_bsize b)"
  shows "br_shape (kernel_fill i ds b)"
  using assms(1) kernel_fill_inside [OF assms] unfolding br_shape_def by (simp add: kernel_fill_def)

lemma kernel_fill_block:
  assumes sh: "br_shape b" and i: "i \<in> br_blocks b" and ds: "length ds \<le> unat (br_bsize b)"
  shows "seg (br_buf_addr b i) (length ds) (br_bufs (kernel_fill i ds b)) = ds"
    and "j \<in> br_blocks b \<Longrightarrow> j \<noteq> i \<Longrightarrow> unat (br_data_size b j) \<le> unat (br_bsize b) \<Longrightarrow>
      br_block (kernel_fill i ds b) j = br_block b j"
proof -
  note ins = kernel_fill_inside [OF sh i ds]
  show "seg (br_buf_addr b i) (length ds) (br_bufs (kernel_fill i ds b)) = ds"
    using seg_blit_extend [of "br_buf_addr b i" 0 ds "br_bufs b"] ins by (simp add: kernel_fill_def)
  assume j: "j \<in> br_blocks b" "j \<noteq> i" "unat (br_data_size b j) \<le> unat (br_bsize b)"
  have "unat j \<noteq> unat i" using j(2) by (simp add: word_unat_eq_iff)
  from block_disjoint [OF this j(3) ds] show "br_block (kernel_fill i ds b) j = br_block b j"
    using seg_blit_other [OF ins] br_buf_addr_unat [OF sh i] br_buf_addr_unat [OF sh j(1)]
    by (simp add: br_block_def) (simp add: kernel_fill_def)
qed

lemma rb_filled_kernel_fill:
  assumes f: "rb_filled b is" and i: "i \<in> br_blocks b" "i \<notin> set is" and ds: "length ds \<le> unat (br_bsize b)"
  shows "rb_filled (kernel_fill i ds b) is" and "j \<in> set is \<Longrightarrow> br_block (kernel_fill i ds b) j = br_block b j"
proof -
  have sh: "br_shape b" using f by (simp add: rb_filled_def)
  show "rb_filled (kernel_fill i ds b) is" using f kernel_fill_shape [OF sh i(1) ds] by (simp add: rb_filled_def)
  show "j \<in> set is \<Longrightarrow> br_block (kernel_fill i ds b) j = br_block b j"
    using kernel_fill_block(2) [OF sh i(1) ds, of j] f i(2) by (auto simp: rb_filled_def)
qed

section \<open>Handing buffers over\<close>

text \<open>The buffers handed to the kernel between two states of the ring, read from the log of the calls.\<close>

definition handed :: "buf_ring \<Rightarrow> buf_ring \<Rightarrow> u32 list" where
  "handed b b' = map ucast (drop (length (br_published b)) (br_published b'))"

lemma br_blocks_u16:
  assumes "br_shape b" and "i \<in> br_blocks b"
  shows "ucast (ucast i :: u16) = i"
proof -
  obtain k where "k \<le> 15" "unat (br_num b) = 2 ^ k" using assms(1) by (auto simp: br_shape_def)
  then have "unat i < 2 ^ k" using assms(2) by (simp add: br_blocks_def word_less_nat_alt)
  also have "(2::nat) ^ k \<le> 2 ^ 15" by (rule power_increasing [OF \<open>k \<le> 15\<close>]) simp
  finally have "unat i < 2 ^ 16" by simp
  then show ?thesis by (simp add: word_unat_eq_iff unsigned_ucast_eq unsigned_take_bit_eq take_bit_nat_eq_self)
qed

lemma handed_release: "br_shape b \<Longrightarrow> i \<in> br_blocks b \<Longrightarrow> handed b (br_release i b) = [i]"
  by (simp add: handed_def br_release_publishes br_blocks_u16)

end
