(* ===== verification/Tcp_Receive.thy ===== *)
theory Tcp_Receive
  imports Tcp_Lifecycle Buf_Kernel
begin

text \<open>
  The receive buffers of a TCP worker, which all its channels share. Whatever the worker, its connections and the
  application do, every receive buffer is in one place: with the kernel, or in the queue of one channel. Hence no
  connection sees the data of another, and no buffer is written by the kernel while the application reads it.
\<close>

section \<open>Operations that leave the receive side alone\<close>

abbreviation rbufs :: "'r tcp_worker \<Rightarrow> read_stream list" where
  "rbufs w \<equiv> map ch_rbuf (tw_chans w)"

definition recv_view :: "'r tcp_worker \<Rightarrow> buf_ring \<times> read_stream list \<times> nat list" where
  "recv_view w = (tw_br w, rbufs w, tw_pending w)"

lemma recv_view_fields [simp]:
  "recv_view (w\<lparr>tw_pool := p\<rparr>) = recv_view w" "recv_view (w\<lparr>it_ring := r\<rparr>) = recv_view w"
  "recv_view (w\<lparr>it_sqes := q\<rparr>) = recv_view w" "recv_view (w\<lparr>tw_freeq := f\<rparr>) = recv_view w"
  "recv_view (w\<lparr>tw_tail := i\<rparr>) = recv_view w" "recv_view (w\<lparr>tw_head := i\<rparr>) = recv_view w"
  "recv_view (w\<lparr>tw_closed := c\<rparr>) = recv_view w"
  "recv_view (w\<lparr>tw_atok := t\<rparr>) = recv_view w" "recv_view (w\<lparr>tw_aco := s\<rparr>) = recv_view w"
  "recv_view (w\<lparr>tw_listen := l\<rparr>) = recv_view w"
  by (simp_all add: recv_view_def)

lemma rbufs_chan_upd: "rbufs (chan_upd c f w) = (rbufs w)[c := ch_rbuf (f (chan w c))]"
  by (simp add: chan_upd_def map_update)

lemma recv_view_chan_upd [simp]:
  assumes "ch_rbuf (f (chan w c)) = ch_rbuf (chan w c)"
  shows "recv_view (chan_upd c f w) = recv_view w"
proof -
  have "(rbufs w)[c := ch_rbuf (chan w c)] = rbufs w"
  proof (cases "c < length (tw_chans w)")
    case True
    then have "rbufs w ! c = ch_rbuf (chan w c)" by (simp add: chan_def)
    then show ?thesis using list_update_id [of "rbufs w" c] by simp
  qed (simp add: list_update_beyond)
  then show ?thesis using assms by (simp add: recv_view_def rbufs_chan_upd)
qed

lemma put_sqe_recv: "put_sqe api fill w = (t, w') \<Longrightarrow> recv_view w' = recv_view w"
  by (auto simp: put_sqe_def split: prod.splits sum.splits)

lemma write_finish_recv: "write_finish c w = Some w' \<Longrightarrow> recv_view w' = recv_view w"
  by (auto simp: write_finish_def split: Option.bind_splits)

lemma write_send_recv:
  assumes "write_send api c w = Some (again, w')"
  shows "recv_view w' = recv_view w"
proof (cases "is_closing (chan w c) \<and> \<not> has_in_flight (chan w c)")
  case True
  then show ?thesis using assms by (auto simp: write_send_def dest: write_finish_recv)
next
  case False
  then show ?thesis
    using assms
    by (auto simp: write_send_def in_flight_inc_def Let_def split: Option.bind_splits prod.splits if_splits bool.splits
        dest!: put_sqe_recv)
qed

lemma write_loop_recv:
  assumes "write_loop api c w = Some w'"
  shows "recv_view w' = recv_view w"
proof (rule write_loop.raw_induct [where P = "\<lambda>api c w w'. recv_view w' = recv_view w", OF _ assms])
  fix loop api c w w'
  assume IH: "\<And>api c w w'. loop api c w = Some w' \<Longrightarrow> recv_view w' = recv_view w"
    and body: "(if ws_has_send_data (ch_wbuf (chan w c))
      then Option.bind (write_send api c w) (\<lambda>x. if fst x then loop api c (snd x) else Some (snd x))
      else let (ready, t) = nt_co_await () (ch_notify (chan w c))
        in if ready
           then Option.bind (write_send api c (chan_upd c (\<lambda>ch. ch\<lparr>ch_notify := t\<rparr>) w))
                  (\<lambda>x. if fst x then loop api c (snd x) else Some (snd x))
           else Some (chan_upd c (\<lambda>ch. ch\<lparr>ch_notify := t, ch_wco := At_Notify\<rparr>) w)) = Some w'"
  have step: "recv_view w' = recv_view u"
    if "Option.bind (write_send api c u) (\<lambda>x. if fst x then loop api c (snd x) else Some (snd x)) = Some w'" for u
    using that IH by (auto split: Option.bind_splits if_splits dest!: write_send_recv)
  show "recv_view w' = recv_view w"
    using body by (auto simp: Let_def split: if_splits prod.splits dest!: step)
qed

lemma write_wake_recv: "write_wake api c w = Some w' \<Longrightarrow> recv_view w' = recv_view w"
  by (auto simp: write_wake_def split: Option.bind_splits if_splits dest!: write_send_recv write_loop_recv)

lemma tcp_notify_recv: "tcp_notify api c w = Some w' \<Longrightarrow> recv_view w' = recv_view w"
  by (auto simp: tcp_notify_def Let_def split: prod.splits if_splits dest!: write_wake_recv)

lemma tcp_notify_close_recv: "tcp_notify_close api c w = Some w' \<Longrightarrow> recv_view w' = recv_view w"
  by (auto simp: tcp_notify_close_def Let_def split: prod.splits if_splits dest!: write_wake_recv)

lemma tcp_submit_recv: "tcp_submit api c w = Some (ok, w') \<Longrightarrow> recv_view w' = recv_view w"
  by (auto simp: tcp_submit_def Let_def split: prod.splits if_splits dest!: tcp_notify_recv)

lemma tcp_append_recv: "tcp_append c data sz w = Some (ok, w') \<Longrightarrow> recv_view w' = recv_view w"
  by (auto simp: tcp_append_def)

lemma tcp_prepend_recv: "tcp_prepend c data sz w = Some (ok, w') \<Longrightarrow> recv_view w' = recv_view w"
  by (auto simp: tcp_prepend_def)

lemma tcp_pool_release_recv: "tcp_pool_release c w = Some w' \<Longrightarrow> recv_view w' = recv_view w"
  by (auto simp: tcp_pool_release_def split: if_splits)

lemma on_drained_recv: "on_drained api c w = Some w' \<Longrightarrow> recv_view w' = recv_view w"
  by (auto simp: on_drained_def split: Option.bind_splits if_splits dest!: tcp_notify_recv tcp_pool_release_recv)

lemma in_flight_dec_recv: "in_flight_dec api c w = Some w' \<Longrightarrow> recv_view w' = recv_view w"
  by (auto simp: in_flight_dec_def Let_def split: if_splits dest!: on_drained_recv)

lemma tcp_close_recv: "tcp_close api c w = Some w' \<Longrightarrow> recv_view w' = recv_view w"
  by (auto simp: tcp_close_def split: Option.bind_splits dest!: tcp_notify_close_recv)

lemma recv_arm_recv: "recv_arm api c w = (t, w') \<Longrightarrow> recv_view w' = recv_view w"
  by (auto simp: recv_arm_def in_flight_inc_def split: prod.splits bool.splits dest!: put_sqe_recv)

lemma read_start_recv: "recv_view (read_start api c w) = recv_view w"
  by (auto simp: read_start_def recv_throw_def recv_await_def split: prod.splits bool.splits dest!: recv_arm_recv)

lemma write_start_recv: "write_start api c w = Some w' \<Longrightarrow> recv_view w' = recv_view w"
  by (auto simp: write_start_def dest!: write_loop_recv)

lemma accept_arm_recv: "accept_arm api w = Some w' \<Longrightarrow> recv_view w' = recv_view w"
  by (auto simp: accept_arm_def split: prod.splits bool.splits dest!: put_sqe_recv)

section \<open>Where the buffers are\<close>

text \<open>
  The buffers the kernel holds: those published, less those it has completed receives with, which \<open>taken\<close> lists.
  The other buffers are in the queues of the channels, but for those in \<open>lost\<close>.
\<close>

definition kernel_bufs :: "u32 list \<Rightarrow> buf_ring \<Rightarrow> u32 multiset" where
  "kernel_bufs taken b = mset (map ucast (br_published b)) - mset taken"

definition parts :: "u32 list \<Rightarrow> u32 list \<Rightarrow> buf_ring \<Rightarrow> read_stream list \<Rightarrow> bool" where
  "parts lost taken b rs \<longleftrightarrow> br_shape b \<and> (\<forall>r \<in> set rs. rs_inv b r \<and> length (rb_queue r) = unat (br_num b)) \<and>
     mset taken \<subseteq># mset (map ucast (br_published b)) \<and>
     kernel_bufs taken b + mset (concat (map rb_list rs)) + mset lost = mset_set (br_blocks b)"

definition tcp_parts :: "u32 list \<Rightarrow> u32 list \<Rightarrow> 'r tcp_worker \<Rightarrow> bool" where
  "tcp_parts lost taken w \<longleftrightarrow> parts lost taken (tw_br w) (rbufs w)"

lemma tcp_parts_view: "recv_view w' = recv_view w \<Longrightarrow> tcp_parts lost taken w' \<longleftrightarrow> tcp_parts lost taken w"
  by (simp add: tcp_parts_def recv_view_def)

lemma partsD:
  assumes "parts lost taken b rs"
  shows "br_shape b" "\<And>r. r \<in> set rs \<Longrightarrow> rs_inv b r" "\<And>r. r \<in> set rs \<Longrightarrow> length (rb_queue r) = unat (br_num b)"
    "mset taken \<subseteq># mset (map ucast (br_published b))"
    "kernel_bufs taken b + mset (concat (map rb_list rs)) + mset lost = mset_set (br_blocks b)"
  using assms by (auto simp: parts_def)

lemma finite_br_blocks [simp]: "finite (br_blocks b)"
  by (rule finite)

lemma mset_concat_update:
  "c < length xss \<Longrightarrow> mset (concat (xss[c := ys])) + mset (xss ! c) = mset (concat xss) + mset ys"
proof (induction xss arbitrary: c)
  case (Cons xs xss)
  then show ?case by (cases c) (simp_all add: ac_simps)
qed simp

lemma distinct_concat_nth:
  "distinct (concat xss) \<Longrightarrow> c < length xss \<Longrightarrow> d < length xss \<Longrightarrow> i \<in> set (xss ! c) \<Longrightarrow> i \<in> set (xss ! d) \<Longrightarrow> c = d"
proof (induction xss arbitrary: c d)
  case (Cons xs xss)
  then show ?case by (cases c; cases d) (fastforce dest: nth_mem)+
qed simp

text \<open>No buffer is in two places.\<close>

lemma parts_disjoint:
  assumes p: "parts lost taken b rs" and c: "c < length rs"
  shows "i \<in># kernel_bufs taken b \<Longrightarrow> i \<in> br_blocks b \<and> (\<forall>r \<in> set rs. i \<notin> set (rb_list r))"
    and "i \<in> set (rb_list (rs ! c)) \<Longrightarrow> d < length rs \<Longrightarrow> d \<noteq> c \<Longrightarrow> i \<notin> set (rb_list (rs ! d))"
    and "i \<in> set (rb_list (rs ! c)) \<Longrightarrow> i \<in> br_blocks b"
proof -
  note E = partsD(5) [OF p]
  have cnt: "count (kernel_bufs taken b) i + count (mset (concat (map rb_list rs))) i \<le> 1" for i
  proof -
    have "count (kernel_bufs taken b) i + count (mset (concat (map rb_list rs))) i + count (mset lost) i =
        count (mset_set (br_blocks b)) i"
      using arg_cong [OF E, of "\<lambda>m. count m i"] by (simp only: count_union)
    also have "\<dots> \<le> 1" by (simp add: count_mset_set')
    finally show ?thesis by linarith
  qed
  show "i \<in># kernel_bufs taken b \<Longrightarrow> i \<in> br_blocks b \<and> (\<forall>r \<in> set rs. i \<notin> set (rb_list r))"
  proof (intro conjI ballI notI)
    assume i: "i \<in># kernel_bufs taken b"
    then show "i \<in> br_blocks b" using arg_cong [OF E, of set_mset] by auto
    fix r assume "r \<in> set rs" "i \<in> set (rb_list r)"
    then have "i \<in># mset (concat (map rb_list rs))" by auto
    then show False using i cnt [of i] by (simp only: count_greater_zero_iff [symmetric])
  qed
  show "i \<in> set (rb_list (rs ! c)) \<Longrightarrow> i \<in> br_blocks b"
    using arg_cong [OF E, of set_mset] c by auto
  assume i: "i \<in> set (rb_list (rs ! c))" and d: "d < length rs" "d \<noteq> c"
  have "count (mset (concat (map rb_list rs))) j = (if j \<in> set (concat (map rb_list rs)) then 1 else 0)" for j
  proof (cases "j \<in> set (concat (map rb_list rs))")
    case True
    then have "0 < count (mset (concat (map rb_list rs))) j" by (simp only: count_greater_zero_iff set_mset_mset)
    then have "count (mset (concat (map rb_list rs))) j = 1" using cnt [of j] by linarith
    then show ?thesis by (simp only: True if_True)
  next
    case False
    then show ?thesis by (simp only: count_eq_zero_iff set_mset_mset if_False not_False_eq_True)
  qed
  then have "distinct (concat (map rb_list rs))" by (simp only: distinct_count_atmost_1 simp_thms)
  then show "i \<notin> set (rb_list (rs ! d))"
    using distinct_concat_nth [of "map rb_list rs" c d i] c d i by auto
qed

section \<open>What the steps do to them\<close>

text \<open>Giving buffers back changes nothing for the channels that do not hold them.\<close>

lemma rs_inv_release_other:
  assumes inv: "rs_inv b r" and i: "i \<in> br_blocks b" "i \<notin> set (rb_list r)"
  shows "rs_inv (br_release i b) r" and "rs_data (br_release i b) r = rs_data b r"
proof -
  have fill: "rb_filled b (rb_list r)" and sh: "br_shape b" using inv by (auto simp: rs_inv_def rb_filled_def)
  have same: "br_data_size (br_release i b) j = br_data_size b j" "br_block (br_release i b) j = br_block b j"
    if "j \<in> set (rb_list r)" for j
  proof -
    have "j \<in> br_blocks b" "j \<noteq> i" using fill that i(2) by (auto simp: rb_filled_def)
    then show "br_data_size (br_release i b) j = br_data_size b j" "br_block (br_release i b) j = br_block b j"
      using br_release_other [OF sh i(1)] by auto
  qed
  show d: "rs_data (br_release i b) r = rs_data b r" using same(2) by (simp add: rs_data_def br_bytes_def cong: map_cong)
  have "rb_filled (br_release i b) (rb_list r)"
    using fill same(1) br_release_shape [OF sh] by (auto simp: rb_filled_def)
  moreover have "off_ok (br_release i b) (rb_list r) (rs_off r)"
    using inv same(1) by (cases "rb_list r") (auto simp: rs_inv_def)
  ultimately show "rs_inv (br_release i b) r" using inv d by (simp add: rs_inv_def)
qed

lemma rs_inv_release_all:
  assumes "rs_inv b r" and "set is \<subseteq> br_blocks b" and "set is \<inter> set (rb_list r) = {}"
  shows "rs_inv (fold br_release is b) r \<and> rs_data (fold br_release is b) r = rs_data b r"
  using assms
proof (induction "is" arbitrary: b)
  case (Cons i "is")
  then show ?case using rs_inv_release_other [of b r i] by simp
qed simp

lemma br_fold_fields [simp]:
  "br_num (fold br_release is b) = br_num b" "br_blocks (fold br_release is b) = br_blocks b"
  by (induction "is" arbitrary: b) simp_all

lemma br_release_all_shape: "br_shape b \<Longrightarrow> br_shape (fold br_release is b)"
  by (induction "is" arbitrary: b) (simp_all add: br_release_shape)

lemma mset_give_back:
  fixes A A' C C' N X S I L :: "'a multiset"
  assumes "A' = A + I" and "C' + X = C + N" and "X = I + N" and "A + C + L = S"
  shows "A' + C' + L = S"
proof -
  have "(C' + I) + N = C + N" using assms(2,3) by (simp add: add.assoc)
  then have "C' + I = C" by (simp only: add_right_cancel)
  then show ?thesis using assms(1,4) by (simp add: ac_simps)
qed

text \<open>Channel \<open>c\<close> gives back its first \<open>k\<close> buffers.\<close>

lemma parts_release_other:
  assumes p: "parts lost taken b rs" and c: "c < length rs" and d: "d < length rs" "d \<noteq> c"
    and b': "b' = fold br_release (take k (rb_list (rs ! c))) b"
  shows "rs_inv b' (rs ! d)" and "rs_data b' (rs ! d) = rs_data b (rs ! d)"
proof -
  note D = parts_disjoint [OF p]
  have sub: "set (take k (rb_list (rs ! c))) \<subseteq> br_blocks b" using D(3) [OF c] by (auto dest: in_set_takeD)
  have "set (take k (rb_list (rs ! c))) \<inter> set (rb_list (rs ! d)) = {}" using D(2) [OF c] d by (auto dest: in_set_takeD)
  from rs_inv_release_all [OF _ sub this] partsD(2) [OF p] d(1)
  show "rs_inv b' (rs ! d)" and "rs_data b' (rs ! d) = rs_data b (rs ! d)" by (simp_all add: b')
qed

lemma parts_release_published:
  assumes p: "parts lost taken b rs" and c: "c < length rs" and b': "b' = fold br_release (take k (rb_list (rs ! c))) b"
  shows "(map ucast (br_published b') :: u32 list) = map ucast (br_published b) @ take k (rb_list (rs ! c))"
proof -
  have sub: "set (take k (rb_list (rs ! c))) \<subseteq> br_blocks b" using parts_disjoint(3) [OF p c] by (auto dest: in_set_takeD)
  have "map (\<lambda>i. ucast (ucast i :: u16)) (take k (rb_list (rs ! c))) = take k (rb_list (rs ! c))"
    using sub br_blocks_u16 [OF partsD(1) [OF p]] by (intro map_idI) auto
  then show ?thesis using br_release_all_publishes [OF partsD(1) [OF p] sub] by (simp add: b' comp_def)
qed

lemma parts_release:
  assumes p: "parts lost taken b rs" and c: "c < length rs" and l: "rb_list r' = drop k (rb_list (rs ! c))"
    and b': "b' = fold br_release (take k (rb_list (rs ! c))) b"
    and r': "rs_inv b' r'" "length (rb_queue r') = length (rb_queue (rs ! c))"
  shows "parts lost taken b' (rs[c := r'])"
  unfolding parts_def
proof (intro conjI ballI)
  note P = partsD [OF p] and pub = parts_release_published [OF p c b']
  let ?is = "take k (rb_list (rs ! c))"
  show "br_shape b'" using br_release_all_shape [OF P(1)] by (simp add: b')
  show "mset taken \<subseteq># mset (map ucast (br_published b'))"
    unfolding pub using P(4) by (simp only: mset_append) (rule subset_mset.add_increasing2; simp)
  have 1: "kernel_bufs taken b' = kernel_bufs taken b + mset ?is"
    using P(4) by (simp only: kernel_bufs_def pub mset_append subset_mset.add_diff_assoc2)
  have 2: "mset (concat (map rb_list (rs[c := r']))) + mset (rb_list (rs ! c)) =
      mset (concat (map rb_list rs)) + mset (rb_list r')"
    using mset_concat_update [of c "map rb_list rs" "rb_list r'"] c by (simp only: map_update length_map nth_map)
  have 3: "mset (rb_list (rs ! c)) = mset ?is + mset (rb_list r')"
    unfolding l by (simp only: append_take_drop_id flip: mset_append)
  show "kernel_bufs taken b' + mset (concat (map rb_list (rs[c := r']))) + mset lost = mset_set (br_blocks b')"
    using mset_give_back [OF 1 2 3 P(5)] by (simp add: b')
  fix r assume "r \<in> set (rs[c := r'])"
  then obtain d where d: "d < length rs" "r = (rs[c := r']) ! d" by (auto simp: in_set_conv_nth)
  show "rs_inv b' r" using parts_release_other(1) [OF p c d(1) _ b'] r'(1) d c by (cases "d = c") auto
  show "length (rb_queue r) = unat (br_num b')" using r'(2) P(3) d c by (cases "d = c") (auto simp: b')
qed


text \<open>
  The kernel takes buffer \<open>i\<close>, fills it with \<open>ds\<close>, and the channel \<open>c\<close> stores it.
\<close>

lemma rs_inv_kernel_fill:
  assumes inv: "rs_inv b r" and i: "i \<in> br_blocks b" "i \<notin> set (rb_list r)" and ds: "length ds \<le> unat (br_bsize b)"
  shows "rs_inv (kernel_fill i ds b) r" and "rs_data (kernel_fill i ds b) r = rs_data b r"
proof -
  have f: "rb_filled b (rb_list r)" using inv by (simp add: rs_inv_def)
  show d: "rs_data (kernel_fill i ds b) r = rs_data b r"
    using rb_filled_kernel_fill(2) [OF f i ds] by (simp add: rs_data_def br_bytes_def cong: map_cong)
  show "rs_inv (kernel_fill i ds b) r"
    using inv d rb_filled_kernel_fill(1) [OF f i ds] by (cases "rb_list r") (simp_all add: rs_inv_def)
qed

definition kernel_store :: "u32 \<Rightarrow> byte list \<Rightarrow> buf_ring \<Rightarrow> buf_ring" where
  "kernel_store i ds b = br_set_data_size i (of_nat (length ds)) (kernel_fill i ds b)"

lemma kernel_store_fields [simp]:
  "br_num (kernel_store i ds b) = br_num b" "br_bsize (kernel_store i ds b) = br_bsize b"
  "br_blocks (kernel_store i ds b) = br_blocks b" "br_published (kernel_store i ds b) = br_published b"
  by (simp_all add: kernel_store_def br_blocks_def br_published_def)

lemma kernel_store_other:
  assumes inv: "rs_inv b r" and i: "i \<in> br_blocks b" "i \<notin> set (rb_list r)" and ds: "length ds \<le> unat (br_bsize b)"
  shows "rs_inv (kernel_store i ds b) r" and "rs_data (kernel_store i ds b) r = rs_data b r"
  using rs_inv_set_other [OF rs_inv_kernel_fill(1) [OF assms], of i] rs_inv_kernel_fill(2) [OF assms] i
  by (simp_all add: kernel_store_def)

lemma kernel_store_push:
  assumes inv: "rs_inv b r" and i: "i \<in> br_blocks b" "i \<notin> set (rb_list r)"
    and ds: "0 < length ds" "length ds \<le> unat (br_bsize b)" and q: "length (rb_queue r) = unat (br_num b)"
  shows "\<exists>r'. rb_push_buf i (kernel_store i ds b) r = (True, r') \<and> rs_inv (kernel_store i ds b) r' \<and>
    rb_list r' = rb_list r @ [i] \<and> length (rb_queue r') = length (rb_queue r) \<and>
    rs_data (kernel_store i ds b) r' = rs_data b r @ ds"
proof -
  let ?b = "kernel_fill i ds b" and ?n = "of_nat (length ds) :: u32"
  have sh: "br_shape b" using inv by (simp add: rs_inv_def rb_filled_def)
  note f = rs_inv_kernel_fill [OF inv i ds(2)]
  have n: "unat ?n = length ds"
    using ds(2) unat_u32_less [of "br_bsize b"] by (simp add: unat_of_nat take_bit_nat_eq_self)
  have "length (rb_list r) < length (rb_queue r)"
  proof -
    have "rb_filled (kernel_store i ds b) (rb_list r @ [i])"
      using kernel_store_other(1) [OF inv i ds(2)] i ds n br_set_data_size_sizes(1) [of ?b i ?n] kernel_fill_shape [OF sh i(1) ds(2)]
      by (auto simp: rs_inv_def rb_filled_def kernel_store_def [symmetric])
    from rb_filled_length [OF this] show ?thesis by (simp add: q)
  qed
  from rs_receive_ok [OF f(1) _ i(2), of ?n] this obtain r' where r': "rb_push_buf i (kernel_store i ds b) r = (True, r')"
      "rs_inv (kernel_store i ds b) r'" "rb_list r' = rb_list r @ [i]"
      "rs_data (kernel_store i ds b) r' = rs_data ?b r @ seg (br_buf_addr ?b i) (unat ?n) (br_bufs ?b)"
    using i(1) ds n by (auto simp: kernel_store_def)
  have "length (rb_queue r') = length (rb_queue r)" using r'(1) by (auto simp: rb_push_buf_def split: if_splits)
  moreover have "rs_data (kernel_store i ds b) r' = rs_data b r @ ds"
    using r'(4) n f(2) kernel_fill_block(1) [OF sh i(1) ds(2)] by simp
  ultimately show ?thesis using r' by blast
qed

lemma mset_take_one:
  assumes "i \<in># A - mset taken" and "mset taken \<subseteq># A"
  shows "A - mset (taken @ [i]) + {#i#} = A - mset taken" and "mset (taken @ [i]) \<subseteq># A"
proof -
  show "A - mset (taken @ [i]) + {#i#} = A - mset taken"
    using insert_DiffM [OF assms(1)] by (simp add: diff_diff_add_mset)
  have "mset taken + {#i#} \<subseteq># mset taken + (A - mset taken)" using assms(1) by (intro subset_mset.add_mono) simp_all
  then show "mset (taken @ [i]) \<subseteq># A" using assms(2) by (simp add: subset_mset.add_diff_inverse)
qed

lemma mset_move_one:
  fixes K K' C C' L S :: "'a multiset"
  assumes "K' + {#i#} = K" and "C' = C + {#i#}" and "K + C + L = S"
  shows "K' + C' + L = S"
  using assms(3) unfolding assms(2) assms(1) [symmetric] by (simp add: ac_simps)

lemma parts_store:
  assumes p: "parts lost taken b rs" and i: "i \<in># kernel_bufs taken b" and c: "c < length rs"
    and ds: "0 < length ds" "length ds \<le> unat (br_bsize b)"
    and r': "r' = snd (rb_push_buf i (kernel_store i ds b) (rs ! c))"
  shows "parts lost (taken @ [i]) (kernel_store i ds b) (rs[c := r'])"
    and "map (rs_data (kernel_store i ds b)) (rs[c := r']) = (map (rs_data b) rs)[c := rs_data b (rs ! c) @ ds]"
proof -
  note P = partsD [OF p] and I = parts_disjoint(1) [OF p c i]
  have rc: "rs ! c \<in> set rs" using c by simp
  have r: "rs_inv (kernel_store i ds b) r'" "rb_list r' = rb_list (rs ! c) @ [i]"
      "length (rb_queue r') = length (rb_queue (rs ! c))" "rs_data (kernel_store i ds b) r' = rs_data b (rs ! c) @ ds"
    using kernel_store_push [OF P(2) [OF rc] _ _ ds P(3) [OF rc], of i] I rc by (auto simp: r')
  have o: "rs_inv (kernel_store i ds b) x" "rs_data (kernel_store i ds b) x = rs_data b x" if "x \<in> set rs" for x
    using kernel_store_other [OF P(2) [OF that] _ _ ds(2), of i] I that by auto
  have "map (rs_data (kernel_store i ds b)) rs = map (rs_data b) rs" using o(2) by simp
  then show "map (rs_data (kernel_store i ds b)) (rs[c := r']) = (map (rs_data b) rs)[c := rs_data b (rs ! c) @ ds]"
    by (simp only: map_update r(4))
  have sh: "br_shape (kernel_store i ds b)" using r(1) by (simp add: rs_inv_def rb_filled_def)
  have all: "rs_inv (kernel_store i ds b) x \<and> length (rb_queue x) = unat (br_num (kernel_store i ds b))"
    if "x \<in> set (rs[c := r'])" for x
    using set_update_subset_insert [of rs c r'] that r(1,3) o(1) P(3) rc by auto
  note K = mset_take_one [OF i [unfolded kernel_bufs_def] P(4)]
  have "mset (concat (map rb_list (rs[c := r']))) + mset (rb_list (rs ! c)) =
      mset (concat (map rb_list rs)) + (mset (rb_list (rs ! c)) + {#i#})"
    using mset_concat_update [of c "map rb_list rs" "rb_list r'"] c by (simp add: map_update r(2))
  then have 2: "mset (concat (map rb_list (rs[c := r']))) = mset (concat (map rb_list rs)) + {#i#}" by simp
  have 1: "kernel_bufs (taken @ [i]) (kernel_store i ds b) + {#i#} = kernel_bufs taken b"
    unfolding kernel_bufs_def kernel_store_fields by (rule K(1))
  from mset_move_one [OF 1 2 P(5)] show "parts lost (taken @ [i]) (kernel_store i ds b) (rs[c := r'])"
    using sh all K(2) unfolding parts_def kernel_store_fields by blast
qed

text \<open>The kernel takes buffer \<open>i\<close> and nobody stores it.\<close>

lemma parts_lose:
  assumes p: "parts lost taken b rs" and i: "i \<in># kernel_bufs taken b" and rs: "rs \<noteq> []"
    and ds: "length ds \<le> unat (br_bsize b)"
  shows "parts (lost @ [i]) (taken @ [i]) (kernel_fill i ds b) rs"
    and "map (rs_data (kernel_fill i ds b)) rs = map (rs_data b) rs"
proof -
  note P = partsD [OF p] and I = parts_disjoint(1) [OF p _ i]
  have I: "i \<in> br_blocks b \<and> (\<forall>r \<in> set rs. i \<notin> set (rb_list r))" using I [of 0] rs by simp
  have o: "rs_inv (kernel_fill i ds b) x" "rs_data (kernel_fill i ds b) x = rs_data b x" if "x \<in> set rs" for x
    using rs_inv_kernel_fill [OF P(2) [OF that] _ _ ds, of i] I that by auto
  then show "map (rs_data (kernel_fill i ds b)) rs = map (rs_data b) rs" by simp
  note K = mset_take_one [OF i [unfolded kernel_bufs_def] P(4)]
  have "kernel_bufs (taken @ [i]) (kernel_fill i ds b) + {#i#} = kernel_bufs taken b"
    using K(1) by (simp add: kernel_bufs_def br_published_def)
  then have "kernel_bufs (taken @ [i]) (kernel_fill i ds b) + mset (concat (map rb_list rs)) + mset (lost @ [i]) =
      mset_set (br_blocks b)"
    using P(5) by simp (metis (no_types, lifting) add_mset_add_single union_mset_add_mset_left)
  then show "parts (lost @ [i]) (taken @ [i]) (kernel_fill i ds b) rs"
    using o(1) P(3) K(2) kernel_fill_shape [OF P(1) _ ds] I by (simp add: parts_def br_published_def)
qed


section \<open>Steps that only read\<close>

text \<open>The bytes each channel has received and not consumed.\<close>

definition rdata :: "'r tcp_worker \<Rightarrow> byte list list" where
  "rdata w = map (rs_data (tw_br w)) (rbufs w)"

text \<open>
  A step that, on the receive side, consumes bytes of channel \<open>c\<close> only and keeps every buffer in its place. This is also what
  the callbacks of an application may do.
\<close>

definition keeps :: "nat \<Rightarrow> 'r tcp_worker \<Rightarrow> 'r tcp_worker \<Rightarrow> bool" where
  "keeps c w w' \<longleftrightarrow> length (tw_chans w') = length (tw_chans w) \<and> tw_pending w' = tw_pending w \<and>
     (\<forall>lost taken. tcp_parts lost taken w \<longrightarrow>
        tcp_parts lost taken w' \<and> (\<exists>n. rdata w' = (rdata w)[c := drop n (rdata w ! c)]))"

lemma recv_viewD:
  assumes "recv_view w' = recv_view w"
  shows "tw_br w' = tw_br w" "rbufs w' = rbufs w" "tw_pending w' = tw_pending w" "length (tw_chans w') = length (tw_chans w)"
    "rdata w' = rdata w"
proof -
  show b: "tw_br w' = tw_br w" and r: "rbufs w' = rbufs w" and "tw_pending w' = tw_pending w"
    using assms by (simp_all add: recv_view_def)
  show "length (tw_chans w') = length (tw_chans w)" using arg_cong [OF r, of length] by simp
  show "rdata w' = rdata w" by (simp only: rdata_def b r)
qed

lemma keeps_view: "recv_view w' = recv_view w \<Longrightarrow> keeps c w w'"
  unfolding keeps_def using tcp_parts_view recv_viewD by (metis drop0 list_update_id)

lemma keeps_refl [simp]: "keeps c w w"
  by (rule keeps_view) simp

lemma keeps_trans:
  assumes 1: "keeps c w w1" and 2: "keeps c w1 w2"
  shows "keeps c w w2"
  unfolding keeps_def
proof (intro conjI allI impI)
  show "length (tw_chans w2) = length (tw_chans w)" "tw_pending w2 = tw_pending w"
    using 1 2 by (simp_all add: keeps_def)
  fix lost taken assume p: "tcp_parts lost taken w"
  then obtain n where p1: "tcp_parts lost taken w1" and n: "rdata w1 = (rdata w)[c := drop n (rdata w ! c)]"
    using 1 by (auto simp: keeps_def)
  then obtain m where p2: "tcp_parts lost taken w2" and m: "rdata w2 = (rdata w1)[c := drop m (rdata w1 ! c)]"
    using 2 by (auto simp: keeps_def)
  show "tcp_parts lost taken w2" by (rule p2)
  show "\<exists>n. rdata w2 = (rdata w)[c := drop n (rdata w ! c)]"
  proof (cases "c < length (rdata w)")
    case True
    then show ?thesis by (intro exI [of _ "m + n"]) (simp add: m n)
  next
    case False
    then show ?thesis by (simp add: m n list_update_beyond)
  qed
qed

lemma keeps_parts:
  assumes b: "b' = fold br_release (take k (rb_list (ch_rbuf (chan w c)))) (tw_br w)" and c: "c < length (tw_chans w)"
    and l: "rb_list r' = drop k (rb_list (ch_rbuf (chan w c)))"
    and r': "tcp_parts lost taken w \<Longrightarrow> rs_inv b' r'" "length (rb_queue r') = length (rb_queue (ch_rbuf (chan w c)))"
      "rs_data b' r' = drop n (rs_data (tw_br w) (ch_rbuf (chan w c)))"
    and w': "tw_br w' = b'" "rbufs w' = (rbufs w)[c := r']"
    and p: "tcp_parts lost taken w"
  shows "tcp_parts lost taken w'" and "rdata w' = (rdata w)[c := drop n (rdata w ! c)]"
proof -
  have rc: "rbufs w ! c = ch_rbuf (chan w c)" using c by (simp add: chan_def)
  have p': "parts lost taken (tw_br w) (rbufs w)" using p by (simp add: tcp_parts_def)
  have lc: "c < length (rbufs w)" using c by simp
  show "tcp_parts lost taken w'"
    using parts_release [OF p' lc, of r' k b'] b l r'(1) [OF p] r'(2) unfolding tcp_parts_def w' rc by blast
  show "rdata w' = (rdata w)[c := drop n (rdata w ! c)]"
  proof (rule nth_equalityI)
    show "length (rdata w') = length ((rdata w)[c := drop n (rdata w ! c)])"
      using arg_cong [OF w'(2), of length] by (simp add: rdata_def)
    fix d assume "d < length (rdata w')"
    then have d: "d < length (rbufs w)" using arg_cong [OF w'(2), of length] by (simp add: rdata_def)
    show "rdata w' ! d = (rdata w)[c := drop n (rdata w ! c)] ! d"
    proof (cases "d = c")
      case True
      then show ?thesis using c r'(3) unfolding rdata_def w' by (simp add: rc chan_def)
    next
      case False
      then show ?thesis
        using parts_release_other(2) [OF p' lc d False, of b' k] b d unfolding rdata_def w' by (simp add: rc)
    qed
  qed
qed


lemma tcp_partsD:
  assumes "tcp_parts lost taken w" and "c < length (tw_chans w)"
  shows "rs_inv (tw_br w) (ch_rbuf (chan w c))"
  using partsD(2) [of lost taken "tw_br w" "rbufs w"] assms by (simp add: tcp_parts_def chan_def)

lemma keeps_consume:
  assumes "tcp_consume c sz w = Some (ok, w')" and c: "c < length (tw_chans w)"
  shows "keeps c w w'"
proof -
  obtain r' b' where r': "rs_consume sz (ch_rbuf (chan w c)) (tw_br w) = Some (ok, r', b')"
      and w': "w' = chan_upd c (\<lambda>ch. ch\<lparr>ch_rbuf := r'\<rparr>) (w\<lparr>tw_br := b'\<rparr>)"
    using assms(1) by (auto simp: tcp_consume_def)
  have v: "tw_br w' = b'" "rbufs w' = (rbufs w)[c := r']" by (simp_all add: w' rbufs_chan_upd)
  show ?thesis unfolding keeps_def
  proof (intro conjI allI impI)
    show "length (tw_chans w') = length (tw_chans w)" "tw_pending w' = tw_pending w" by (simp_all add: w')
    fix lost taken assume p: "tcp_parts lost taken w"
    note inv = tcp_partsD [OF p c]
    have "\<exists>k n. b' = fold br_release (take k (rb_list (ch_rbuf (chan w c)))) (tw_br w) \<and> rs_inv b' r' \<and>
        rb_list r' = drop k (rb_list (ch_rbuf (chan w c))) \<and> length (rb_queue r') = length (rb_queue (ch_rbuf (chan w c))) \<and>
        rs_data b' r' = drop n (rs_data (tw_br w) (ch_rbuf (chan w c)))"
    proof (cases "sz \<le> rb_bytes (ch_rbuf (chan w c))")
      case True
      then show ?thesis using rs_consume_ok [OF inv True] r' by auto
    next
      case False
      then have "r' = ch_rbuf (chan w c) \<and> b' = tw_br w" using r' by (simp add: rs_consume_def not_le)
      then show ?thesis using inv by (intro exI [of _ 0]) simp
    qed
    then obtain k n where k: "b' = fold br_release (take k (rb_list (ch_rbuf (chan w c)))) (tw_br w)" "rs_inv b' r'"
        "rb_list r' = drop k (rb_list (ch_rbuf (chan w c)))" "length (rb_queue r') = length (rb_queue (ch_rbuf (chan w c)))"
        "rs_data b' r' = drop n (rs_data (tw_br w) (ch_rbuf (chan w c)))" by blast
    from keeps_parts [OF k(1) c k(3) k(2) k(4,5) v p]
    show "tcp_parts lost taken w'" "\<exists>n. rdata w' = (rdata w)[c := drop n (rdata w ! c)]" by blast+
  qed
qed

lemma rs_peek_loop_lengths:
  "rs_peek_loop r b i sz idx pd ps = Some (idx', pd', ps') \<Longrightarrow> length pd' = length pd \<and> length ps' = length ps"
proof (induction r b i sz idx pd ps rule: rs_peek_loop.induct)
  case (1 r b i sz idx pd ps)
  show ?case
  proof (cases "i < rb_tail r \<and> 0 < sz \<and> unat idx < length pd \<and> unat idx < length ps")
    case True
    note IH = "1.IH" [OF _ refl refl refl refl refl]
    show ?thesis using "1.prems" True IH by (subst (asm) (1) rs_peek_loop.simps) (simp add: Let_def)
  next
    case False
    then show ?thesis using "1.prems" by (subst (asm) rs_peek_loop.simps) (auto simp: Let_def split: if_splits)
  qed
qed

lemma rs_peek_keeps:
  assumes "rs_peek sz b r = Some (ok, r')"
  shows "rb_list r' = rb_list r" and "rs_data b' r' = rs_data b' r" and "rb_queue r' = rb_queue r"
    and "rs_inv b' r' \<longleftrightarrow> rs_inv b' r"
proof -
  have "r' = r \<or> (\<exists>idx pd ps. r' = r\<lparr>rb_pdata := pd, rb_psize := ps, rb_pcount := idx\<rparr> \<and>
      length pd = length (rb_pdata r) \<and> length ps = length (rb_psize r))"
    using assms rs_peek_loop_lengths [of r b "rb_head r" sz 0 "rb_pdata r" "rb_psize r"]
    by (auto simp: rs_peek_def split: if_splits Option.bind_splits)
  then obtain idx pd ps where r': "r' = r \<or> r' = r\<lparr>rb_pdata := pd, rb_psize := ps, rb_pcount := idx\<rparr>"
      "r' = r \<or> length pd = length (rb_pdata r) \<and> length ps = length (rb_psize r)" by blast
  then show l: "rb_list r' = rb_list r" and "rb_queue r' = rb_queue r" by (auto simp: rb_list_def)
  show d: "rs_data b' r' = rs_data b' r" using r'(1) l by (auto simp: rs_data_def)
  have "rb_shape r' \<longleftrightarrow> rb_shape r" using r' by (auto simp: rb_shape_def)
  then show "rs_inv b' r' \<longleftrightarrow> rs_inv b' r" using r'(1) l d by (auto simp: rs_inv_def)
qed

lemma keeps_peek:
  assumes "tcp_peek c sz w = Some (ok, w')" and c: "c < length (tw_chans w)"
  shows "keeps c w w'"
proof -
  obtain r' where r': "rs_peek sz (tw_br w) (ch_rbuf (chan w c)) = Some (ok, r')"
      and w': "w' = chan_upd c (\<lambda>ch. ch\<lparr>ch_rbuf := r'\<rparr>) w"
    using assms(1) by (auto simp: tcp_peek_def)
  note k = rs_peek_keeps [OF r']
  have v: "tw_br w' = tw_br w" "rbufs w' = (rbufs w)[c := r']" by (simp_all add: w' rbufs_chan_upd)
  show ?thesis unfolding keeps_def
  proof (intro conjI allI impI)
    show "length (tw_chans w') = length (tw_chans w)" "tw_pending w' = tw_pending w" by (simp_all add: w')
    fix lost taken assume p: "tcp_parts lost taken w"
    have "rs_inv (tw_br w) r'" using k(4) tcp_partsD [OF p c] by simp
    from keeps_parts [of "tw_br w" 0 w c r' lost taken 0 w', OF _ c _ this _ _ v p]
    have "tcp_parts lost taken w'" "rdata w' = (rdata w)[c := drop 0 (rdata w ! c)]" using k(1-3) by simp_all
    then show "tcp_parts lost taken w'" "\<exists>n. rdata w' = (rdata w)[c := drop n (rdata w ! c)]" by blast+
  qed
qed

lemma keeps_read_finish:
  assumes "read_finish c w = Some w'" and c: "c < length (tw_chans w)"
  shows "keeps c w w'"
proof -
  obtain r' b' where r': "rs_reset (ch_rbuf (chan w c)) (tw_br w) = Some (r', b')"
      and w': "w' = chan_upd c (\<lambda>ch. ch\<lparr>ch_rbuf := r', ch_rco := Finished\<rparr>) (w\<lparr>tw_br := b'\<rparr>)"
    using assms(1) by (auto simp: read_finish_def split: Option.bind_splits)
  have v: "tw_br w' = b'" "rbufs w' = (rbufs w)[c := r']" by (simp_all add: w' rbufs_chan_upd)
  show ?thesis unfolding keeps_def
  proof (intro conjI allI impI)
    show "length (tw_chans w') = length (tw_chans w)" "tw_pending w' = tw_pending w" by (simp_all add: w')
    fix lost taken assume p: "tcp_parts lost taken w"
    let ?r = "ch_rbuf (chan w c)"
    have q: "b' = fold br_release (rb_list ?r) (tw_br w)" "rs_inv b' r'" "rb_list r' = []" "rb_queue r' = rb_queue ?r"
      using rs_reset_ok [OF tcp_partsD [OF p c]] r' by auto
    then have "rs_off r' = 0" by (simp add: rs_inv_def)
    then have "rs_data b' r' = drop (length (rs_data (tw_br w) ?r)) (rs_data (tw_br w) ?r)" using q(3) by (simp add: rs_data_def)
    from keeps_parts [of b' "length (rb_list ?r)" w c r' lost taken _ w', OF _ c _ q(2) _ this v p]
    show "tcp_parts lost taken w'" "\<exists>n. rdata w' = (rdata w)[c := drop n (rdata w ! c)]" using q(1,3,4) by auto
  qed
qed


section \<open>Storing a received buffer\<close>

text \<open>The view of the worker after \<^verbatim>\<open>tcp_read_loop\<close> stored buffer \<open>i\<close>.\<close>

lemma recv_store_view:
  assumes "recv_store c i (of_nat (length ds)) w = Some w'" and c: "c < length (tw_chans w)"
    and b: "tw_br w = kernel_fill i ds b"
  shows "tw_br w' = kernel_store i ds b"
    and "rbufs w' = (rbufs w)[c := snd (rb_push_buf i (kernel_store i ds b) (rbufs w ! c))]"
    and "set (tw_pending w') \<subseteq> insert c (set (tw_pending w))"
proof -
  have "rbufs w ! c = ch_rbuf (chan w c)" using c by (simp add: chan_def)
  then show "tw_br w' = kernel_store i ds b"
    and "rbufs w' = (rbufs w)[c := snd (rb_push_buf i (kernel_store i ds b) (rbufs w ! c))]"
    and "set (tw_pending w') \<subseteq> insert c (set (tw_pending w))"
    using assms by (auto simp: recv_store_def mark_pending_read_def Let_def kernel_store_def rbufs_chan_upd split: if_splits)
qed

lemma recv_await_view [simp]: "recv_view (recv_await c w) = recv_view w"
  by (simp add: recv_await_def)

lemma recv_throw_view [simp]: "recv_view (recv_throw c w) = recv_view w"
  by (simp add: recv_throw_def)

text \<open>What a completion with data does to the receive side: the buffer is stored, or it is not.\<close>

lemma read_resume_data:
  fixes w w' :: "'r tcp_worker"
  assumes "read_resume api srv c w = Some w'" and "0 < sint (tk_res (ch_rtok (chan w c)))"
  obtains (stored) w2 w3 :: "'r tcp_worker" where "recv_view w2 = recv_view w" "recv_view w' = recv_view w3"
      "recv_store c (cqe_buffer_id (tk_flag (ch_rtok (chan w c)))) (tk_res (ch_rtok (chan w c))) w2 = Some w3"
  | (thrown) "recv_view w' = recv_view w"
proof -
  obtain w1 t w2 where w1: "in_flight_dec api c w = Some w1"
      and w2: "(if has_more (tk_flag (ch_rtok (chan w c))) then (False, w1) else recv_arm api c w1) = (t, w2)"
    using assms by (auto simp: read_resume_def Let_def split: Option.bind_splits) (metis surj_pair)
  have v: "recv_view w2 = recv_view w"
    using in_flight_dec_recv [OF w1] w2 recv_arm_recv [of api c w1 t w2] by (auto split: if_splits)
  show thesis
  proof (cases t)
    case True
    then have "w' = recv_throw c w2" using assms w1 w2 by (simp add: read_resume_def Let_def)
    then show thesis using v by (intro thrown) simp
  next
    case False
    then obtain w3 where "recv_store c (cqe_buffer_id (tk_flag (ch_rtok (chan w c)))) (tk_res (ch_rtok (chan w c))) w2 = Some w3"
        "w' = recv_await c w3"
      using assms w1 w2 by (auto simp: read_resume_def Let_def)
    then show thesis using v by (intro stored [of w2 w3]) simp_all
  qed
qed

end
