(* ===== verification/Tcp_Application.thy ===== *)
theory Tcp_Application
  imports Tcp_Receive "HOL-Library.Sublist"
begin

text \<open>
  A TCP worker with its application: what may happen to the receive side of a worker, the contract of the application's
  callbacks, and that every run keeps the receive buffers apart.
\<close>

section \<open>Runs of a worker\<close>

text \<open>
  What can happen to a worker. The state also records, per channel, all bytes delivered to it (\<open>got\<close>), the buffers
  that a completion carried and no channel stored (\<open>lost\<close>), and the buffers the kernel completed receives with
  (\<open>taken\<close>). The kernel completes a receive with any data and any buffer it holds.
\<close>

type_synonym 'r recv_state = "byte list list \<times> u32 list \<times> u32 list \<times> 'r tcp_worker"

inductive tcp_event :: "('r, 'q) tcp_api \<Rightarrow> 'r tcp_worker tcp_server \<Rightarrow> 'r recv_state \<Rightarrow> 'r recv_state \<Rightarrow> bool"
  for api srv where
  ev_start: "tcp_on_loop_start api os port w = Some w' \<Longrightarrow>
     tcp_event api srv (got, lost, taken, w) (got, lost, taken, w')"
| ev_data: "c < length (tw_chans w) \<Longrightarrow> i \<in># kernel_bufs taken (tw_br w) \<Longrightarrow>
     0 < length ds \<Longrightarrow> length ds \<le> unat (br_bsize (tw_br w)) \<Longrightarrow> cqe_buffer_id flag = i \<Longrightarrow>
     tcp_complete api srv (Recv_Tok c) (of_nat (length ds)) flag (w\<lparr>tw_br := kernel_fill i ds (tw_br w)\<rparr>) = Some w' \<Longrightarrow>
     tcp_event api srv (got, lost, taken, w)
       (if i \<in> set (rb_list (rbufs w' ! c)) then (got[c := got ! c @ ds], lost, taken @ [i], w')
        else (got, lost @ [i], taken @ [i], w'))"
| ev_end: "c < length (tw_chans w) \<Longrightarrow> sint res \<le> 0 \<Longrightarrow> tcp_complete api srv (Recv_Tok c) res flag w = Some w' \<Longrightarrow>
     tcp_event api srv (got, lost, taken, w) (got, lost, taken, w')"
| ev_send: "c < length (tw_chans w) \<Longrightarrow> tcp_complete api srv (Send_Tok c) res flag w = Some w' \<Longrightarrow>
     tcp_event api srv (got, lost, taken, w) (got, lost, taken, w')"
| ev_accept: "tcp_complete api srv Accept_Tok res flag w = Some w' \<Longrightarrow>
     tcp_event api srv (got, lost, taken, w) (got, lost, taken, w')"
| ev_batch: "tcp_on_batch_done srv w = Some w' \<Longrightarrow>
     tcp_event api srv (got, lost, taken, w) (got, lost, taken, w')"

text \<open>What can be read on a channel is the last part of what was delivered to it.\<close>

fun recv_ok :: "'r recv_state \<Rightarrow> bool" where
  "recv_ok (got, lost, taken, w) \<longleftrightarrow>
     tcp_parts lost taken w \<and> set (tw_pending w) \<subseteq> {..<length (tw_chans w)} \<and> length got = length (tw_chans w) \<and>
     (\<forall>c < length (tw_chans w). suffix (rdata w ! c) (got ! c))"

lemma br_bsize_small:
  assumes "br_shape b"
  shows "unat (br_bsize b) < 2 ^ 31"
proof -
  have "0 < unat (br_num b)" and lt: "unat (br_num b) * unat (br_bsize b) < 2 ^ 31"
    using assms by (auto simp: br_shape_def)
  then have "1 * unat (br_bsize b) \<le> unat (br_num b) * unat (br_bsize b)" by (intro mult_le_mono1) simp
  then show ?thesis using lt by linarith
qed

lemma length_rdata [simp]: "length (rdata w) = length (tw_chans w)"
  by (simp add: rdata_def)

lemma recv_ok_keeps:
  assumes "recv_ok (got, lost, taken, w)" and "keeps c w w'"
  shows "recv_ok (got, lost, taken, w')"
proof -
  obtain n where n: "rdata w' = (rdata w)[c := drop n (rdata w ! c)]" and p: "tcp_parts lost taken w'"
    using assms unfolding keeps_def recv_ok.simps by blast
  have "suffix (rdata w' ! d) (got ! d)" if "d < length (tw_chans w)" for d
    using assms(1) that suffix_drop [of n "rdata w ! c"] suffix_order.trans
    by (cases "d = c") (auto simp: n)
  then show ?thesis using assms p by (simp add: keeps_def)
qed

lemma recv_ok_view:
  fixes w w' :: "'r tcp_worker"
  assumes "recv_ok (got, lost, taken, w)" and "recv_view w' = recv_view w"
  shows "recv_ok (got, lost, taken, w')"
  by (rule recv_ok_keeps [OF assms(1) keeps_view [OF assms(2)]])

lemma start_ok:
  assumes "tcp_on_loop_start api os port w = Some w'" and "recv_ok (got, lost, taken, w)"
  shows "recv_ok (got, lost, taken, w')"
proof -
  have "recv_view w' = recv_view w"
    using assms(1) by (auto simp: tcp_on_loop_start_def accept_start_def accept_await_def split: sum.splits dest!: accept_arm_recv)
  then show ?thesis by (rule recv_ok_view [OF assms(2)])
qed

lemma recv_ok_data:
  assumes ok: "recv_ok (got, lost, taken, w)" and c: "c < length (tw_chans w)" and i: "i \<in># kernel_bufs taken (tw_br w)"
    and ds: "0 < length ds" "length ds \<le> unat (br_bsize (tw_br w))"
    and w': "tw_br w' = kernel_store i ds (tw_br w)"
      "rbufs w' = (rbufs w)[c := snd (rb_push_buf i (kernel_store i ds (tw_br w)) (rbufs w ! c))]"
      "set (tw_pending w') \<subseteq> insert c (set (tw_pending w))"
  shows "recv_ok (got[c := got ! c @ ds], lost, taken @ [i], w')" and "i \<in> set (rb_list (rbufs w' ! c))"
proof -
  have p: "parts lost taken (tw_br w) (rbufs w)" and lc: "c < length (rbufs w)" using ok c by (simp_all add: tcp_parts_def)
  note s = parts_store [OF p i lc ds refl]
  have r: "rdata w' = (rdata w)[c := rdata w ! c @ ds]" using s(2) lc unfolding rdata_def w' by simp
  have l: "length (tw_chans w') = length (tw_chans w)" using arg_cong [OF w'(2), of length] by simp
  have "suffix (rdata w' ! d) ((got[c := got ! c @ ds]) ! d)" if "d < length (tw_chans w)" for d
    using ok c that by (cases "d = c") (simp_all add: r)
  then show "recv_ok (got[c := got ! c @ ds], lost, taken @ [i], w')"
    using ok s(1) w'(3) l c unfolding recv_ok.simps tcp_parts_def w'(1,2) by auto
  have "rbufs w ! c \<in> set (rbufs w)" using lc by (rule nth_mem)
  from kernel_store_push [OF partsD(2) [OF p this] _ _ ds partsD(3) [OF p this], of i] parts_disjoint(1) [OF p lc i] this
  show "i \<in> set (rb_list (rbufs w' ! c))" using lc by (auto simp: w'(2))
qed

lemma recv_ok_lost:
  assumes ok: "recv_ok (got, lost, taken, w)" and c: "c < length (tw_chans w)" and i: "i \<in># kernel_bufs taken (tw_br w)"
    and ds: "length ds \<le> unat (br_bsize (tw_br w))"
    and w': "recv_view w' = recv_view (w\<lparr>tw_br := kernel_fill i ds (tw_br w)\<rparr>)"
  shows "recv_ok (got, lost @ [i], taken @ [i], w')" and "i \<notin> set (rb_list (rbufs w' ! c))"
proof -
  have p: "parts lost taken (tw_br w) (rbufs w)" and lc: "c < length (rbufs w)" using ok c by (simp_all add: tcp_parts_def)
  have v: "tw_br w' = kernel_fill i ds (tw_br w)" "rbufs w' = rbufs w" "tw_pending w' = tw_pending w"
    using recv_viewD [OF w'] by simp_all
  have "rbufs w \<noteq> []" using lc by auto
  note s = parts_lose [OF p i this ds]
  have "rdata w' = rdata w" using s(2) unfolding rdata_def v .
  moreover have "length (tw_chans w') = length (tw_chans w)" using arg_cong [OF v(2), of length] by simp
  ultimately show "recv_ok (got, lost @ [i], taken @ [i], w')"
    using ok s(1) unfolding recv_ok.simps tcp_parts_def v by simp
  show "i \<notin> set (rb_list (rbufs w' ! c))" using parts_disjoint(1) [OF p lc i] lc by (simp add: v(2))
qed

section \<open>The application\<close>

text \<open>
  The contract of a TCP server with the application: a callback on a channel may consume what that channel received, and
  it touches the receive side in no other way.
\<close>

locale tcp_application =
  fixes srv :: "'r tcp_worker tcp_server"
  assumes on_read_keeps: "c < length (tw_chans w) \<Longrightarrow> on_read srv c w = Some w' \<Longrightarrow> keeps c w w'"
    and on_write_keeps: "c < length (tw_chans w) \<Longrightarrow> on_write srv c n w = Some w' \<Longrightarrow> keeps c w w'"
    and on_accept_keeps: "c < length (tw_chans w) \<Longrightarrow> on_accept srv c w = Some w' \<Longrightarrow> keeps c w w'"
    and on_close_keeps: "c < length (tw_chans w) \<Longrightarrow> on_close srv c n w = Some w' \<Longrightarrow> keeps c w w'"

begin

lemma tcp_assign_keeps:
  assumes a: "tcp_assign api srv fd c w = Some w'" and c: "c < length (tw_chans w)"
  shows "keeps c w w'"
proof -
  let ?w0 = "chan_upd c (\<lambda>ch. ch\<lparr>ch_fd := fd, ch_notify := notify_token_new\<rparr>) w"
  obtain w2 where w2: "write_start api c (read_start api c ?w0) = Some w2" "on_accept srv c w2 = Some w'"
    using a by (auto simp: tcp_assign_def split: Option.bind_splits)
  have v: "recv_view w2 = recv_view w" using write_start_recv [OF w2(1)] read_start_recv [of api c ?w0] by simp
  have "c < length (tw_chans w2)" using c recv_viewD(4) [OF v] by simp
  then show ?thesis using keeps_trans [OF keeps_view [OF v] on_accept_keeps] w2(2) by blast
qed

lemma tcp_pool_acquire_keeps:
  assumes "tcp_pool_acquire api srv fd w = Some (x, w')"
  shows "\<exists>c. keeps c w w'"
proof (cases "tw_head w = tw_tail w")
  case True
  then show ?thesis using assms by (auto simp: tcp_pool_acquire_def)
next
  case False
  let ?c = "unat (tw_freeq w ! ring_slot (tw_mask w) (tw_head w))" and ?w1 = "w\<lparr>tw_head := tw_head w + 1\<rparr>"
  have c: "?c < length (tw_chans ?w1)" and a: "tcp_assign api srv fd ?c ?w1 = Some w'"
    using assms False by (auto simp: tcp_pool_acquire_def Let_def split: if_splits)
  have "keeps ?c w ?w1" by (rule keeps_view) simp
  then show ?thesis using keeps_trans [OF _ tcp_assign_keeps [OF a c]] by blast
qed

lemma accept_resume_keeps:
  assumes "accept_resume api srv w = Some w'"
  shows "\<exists>c. keeps c w w'"
proof (cases "sint (tk_res (tw_atok w)) < 0")
  case True
  then have "recv_view w' = recv_view w" using assms by (auto simp: accept_resume_def close_listen_def)
  then show ?thesis using keeps_view by blast
next
  case False
  obtain w1 x w2 where w1: "(if has_more (tk_flag (tw_atok w)) then Some w else accept_arm api w) = Some w1"
      and w2: "tcp_pool_acquire api srv (tk_res (tw_atok w)) w1 = Some (x, w2)"
      and w': "recv_view w' = recv_view w2"
    using assms False by (auto simp: accept_resume_def accept_await_def Let_def split: Option.bind_splits)
  have "recv_view w1 = recv_view w" using w1 accept_arm_recv by (auto split: if_splits)
  moreover obtain c where "keeps c w1 w2" using tcp_pool_acquire_keeps [OF w2] by blast
  ultimately have "keeps c w w'" using keeps_trans keeps_view w' by blast
  then show ?thesis by blast
qed

lemma read_resume_end_keeps:
  assumes r: "read_resume api srv c w = Some w'" and res: "sint (tk_res (ch_rtok (chan w c))) \<le> 0"
    and c: "c < length (tw_chans w)"
  shows "keeps c w w'"
proof -
  obtain w1 w2 w3 where w1: "in_flight_dec api c w = Some w1"
      and w2: "on_close srv c (tk_res (ch_rtok (chan w c))) w1 = Some w2"
      and w3: "(if is_closing (chan w2 c) then Some w2 else tcp_close api c w2) = Some w3" "read_finish c w3 = Some w'"
    using r res by (auto simp: read_resume_def Let_def split: Option.bind_splits)
  have v1: "recv_view w1 = recv_view w" by (rule in_flight_dec_recv [OF w1])
  then have c1: "c < length (tw_chans w1)" using c recv_viewD(4) by metis
  have k2: "keeps c w1 w2" by (rule on_close_keeps [OF c1 w2])
  have v3: "recv_view w3 = recv_view w2" using w3(1) tcp_close_recv by (auto split: if_splits)
  have "length (tw_chans w3) = length (tw_chans w1)" using recv_viewD(4) [OF v3] k2 by (simp add: keeps_def)
  then have "keeps c w3 w'" using keeps_read_finish [OF w3(2)] c1 by simp
  then show ?thesis using keeps_trans keeps_view v1 k2 v3 by meson
qed

lemma send_resume_keeps:
  assumes s: "send_resume api srv c w = Some w'" and c: "c < length (tw_chans w)"
  shows "keeps c w w'"
proof -
  obtain w1 where w1: "in_flight_dec api c w = Some w1" using s by (auto simp: send_resume_def Let_def split: Option.bind_splits)
  have v1: "recv_view w1 = recv_view w" by (rule in_flight_dec_recv [OF w1])
  then have c1: "c < length (tw_chans w1)" using c recv_viewD(4) by metis
  show ?thesis
  proof (cases "sint (tk_res (ch_wtok (chan w c))) \<le> 0")
    case True
    then obtain w2 where "(if is_closing (chan w1 c) then Some w1 else tcp_close api c w1) = Some w2" "write_finish c w2 = Some w'"
      using s w1 by (auto simp: send_resume_def Let_def split: Option.bind_splits)
    then have "recv_view w' = recv_view w" using v1 write_finish_recv tcp_close_recv by (metis option.inject)
    then show ?thesis by (rule keeps_view)
  next
    case False
    then obtain b p w2 where w2: "on_write srv c (tk_res (ch_wtok (chan w c)))
          (chan_upd c (\<lambda>ch. ch\<lparr>ch_wbuf := b\<rparr>) (w1\<lparr>tw_pool := p\<rparr>)) = Some w2" "write_loop api c w2 = Some w'"
      using s w1 by (auto simp: send_resume_def Let_def split: Option.bind_splits if_splits)
    have "keeps c w (chan_upd c (\<lambda>ch. ch\<lparr>ch_wbuf := b\<rparr>) (w1\<lparr>tw_pool := p\<rparr>))" using v1 by (intro keeps_view) simp
    moreover have "keeps c (chan_upd c (\<lambda>ch. ch\<lparr>ch_wbuf := b\<rparr>) (w1\<lparr>tw_pool := p\<rparr>)) w2"
      by (rule on_write_keeps [OF _ w2(1)]) (simp add: c1)
    ultimately show ?thesis using keeps_trans keeps_view [OF write_loop_recv [OF w2(2)]] by blast
  qed
qed


text \<open>The read callbacks of a batch.\<close>

lemma read_callbacks_ok:
  assumes "read_callbacks srv cs w = Some w'" and "recv_ok (got, lost, taken, w)" and "set cs \<subseteq> {..<length (tw_chans w)}"
  shows "recv_ok (got, lost, taken, w')"
  using assms
proof (induction cs arbitrary: w)
  case (Cons c cs)
  let ?w = "chan_upd c (\<lambda>ch. ch\<lparr>ch_in_pending := False\<rparr>) w"
  obtain w1 where w1: "on_read srv c ?w = Some w1" "read_callbacks srv cs w1 = Some w'"
    using Cons.prems(1) by (auto split: Option.bind_splits)
  have k: "keeps c w w1"
    by (rule keeps_trans [OF keeps_view on_read_keeps [OF _ w1(1)]]) (use Cons.prems(3) in simp_all)
  show ?case
    by (rule Cons.IH [OF w1(2) recv_ok_keeps [OF Cons.prems(2) k]]) (use Cons.prems(3) k in \<open>simp add: keeps_def\<close>)
qed simp

lemma batch_ok:
  assumes b: "tcp_on_batch_done srv w = Some w'" and ok: "recv_ok (got, lost, taken, w)"
  shows "recv_ok (got, lost, taken, w')"
proof -
  obtain w1 where w1: "read_callbacks srv (tw_pending w) w = Some w1" "w' = w1\<lparr>tw_pending := []\<rparr>"
    using b by (auto simp: tcp_on_batch_done_def)
  have "recv_ok (got, lost, taken, w1)" by (rule read_callbacks_ok [OF w1(1) ok]) (use ok in simp)
  then show ?thesis by (simp add: w1(2) tcp_parts_def rdata_def)
qed

text \<open>A completion with data.\<close>

lemma data_ok:
  assumes ok: "recv_ok (got, lost, taken, w)" and c: "c < length (tw_chans w)" and i: "i \<in># kernel_bufs taken (tw_br w)"
    and ds: "0 < length ds" "length ds \<le> unat (br_bsize (tw_br w))" and flag: "cqe_buffer_id flag = i"
    and w': "tcp_complete api srv (Recv_Tok c) (of_nat (length ds)) flag (w\<lparr>tw_br := kernel_fill i ds (tw_br w)\<rparr>) = Some w'"
  shows "recv_ok (if i \<in> set (rb_list (rbufs w' ! c)) then (got[c := got ! c @ ds], lost, taken @ [i], w')
     else (got, lost @ [i], taken @ [i], w'))"
proof -
  let ?n = "of_nat (length ds) :: i32" and ?wk = "w\<lparr>tw_br := kernel_fill i ds (tw_br w)\<rparr>"
  obtain h t where t: "token_complete ?n flag (ch_rtok (chan w c)) = (h, t)" by fastforce
  have tk: "tk_res t = ?n" "tk_flag t = flag" using t by (auto simp: token_complete_def)
  have "br_shape (tw_br w)" using ok partsD(1) by (auto simp: tcp_parts_def)
  then have "sint ?n = int (length ds)" using ds(2) br_bsize_small by (intro sint_of_nat_small) fastforce
  then have pos: "0 < sint ?n" using ds(1) by simp
  show ?thesis
  proof (cases h)
    case None
    then have "recv_view w' = recv_view ?wk" using w' t by auto
    from recv_ok_lost [OF ok c i ds(2) this] show ?thesis by simp
  next
    case (Some x)
    let ?wr = "chan_upd c (\<lambda>ch. ch\<lparr>ch_rtok := t, ch_rco := Running\<rparr>) ?wk"
    have v: "recv_view ?wr = recv_view ?wk" by simp
    have r: "read_resume api srv c ?wr = Some w'" using w' t Some by simp
    have tr: "ch_rtok (chan ?wr c) = t" using c by simp
    have "0 < sint (tk_res (ch_rtok (chan ?wr c)))" using pos tk tr by simp
    with r show ?thesis
    proof (cases rule: read_resume_data)
      case (stored w2 w3)
      have v2: "tw_br w2 = kernel_fill i ds (tw_br w)" "rbufs w2 = rbufs w" "tw_pending w2 = tw_pending w"
          "length (tw_chans w2) = length (tw_chans w)"
        using recv_viewD [OF stored(1) [unfolded v]] by simp_all
      have "recv_store c i (of_nat (length ds)) w2 = Some w3" using stored(3) tk flag by (simp only: tr)
      from recv_store_view [OF this _ v2(1)]
      have "tw_br w3 = kernel_store i ds (tw_br w)" "set (tw_pending w3) \<subseteq> insert c (set (tw_pending w))"
          "rbufs w3 = (rbufs w)[c := snd (rb_push_buf i (kernel_store i ds (tw_br w)) (rbufs w ! c))]"
        using c by (simp_all add: v2)
      then show ?thesis
        using recv_ok_data [OF ok c i ds, of w'] recv_viewD(1-3) [OF stored(2)] by simp
    next
      case thrown
      from recv_ok_lost [OF ok c i ds(2) thrown [unfolded v]] show ?thesis by simp
    qed
  qed
qed

lemma end_ok:
  assumes ok: "recv_ok (got, lost, taken, w)" and c: "c < length (tw_chans w)" and res: "sint res \<le> 0"
    and w': "tcp_complete api srv (Recv_Tok c) res flag w = Some w'"
  shows "recv_ok (got, lost, taken, w')"
proof -
  obtain h t where t: "token_complete res flag (ch_rtok (chan w c)) = (h, t)" by fastforce
  let ?wr = "chan_upd c (\<lambda>ch. ch\<lparr>ch_rtok := t, ch_rco := Running\<rparr>) w"
  have tk: "tk_res t = res" using t by (auto simp: token_complete_def)
  show ?thesis
  proof (cases h)
    case None
    then have "recv_view w' = recv_view w" using w' t by auto
    then show ?thesis by (rule recv_ok_view [OF ok])
  next
    case (Some x)
    have "read_resume api srv c ?wr = Some w'" using w' t Some by simp
    then have "keeps c ?wr w'" by (rule read_resume_end_keeps) (use c res tk in simp_all)
    from recv_ok_keeps [OF recv_ok_view [OF ok] this] show ?thesis by simp
  qed
qed

lemma send_ok:
  assumes ok: "recv_ok (got, lost, taken, w)" and c: "c < length (tw_chans w)"
    and w': "tcp_complete api srv (Send_Tok c) res flag w = Some w'"
  shows "recv_ok (got, lost, taken, w')"
proof -
  obtain h t where t: "token_complete res flag (ch_wtok (chan w c)) = (h, t)" by fastforce
  let ?wr = "chan_upd c (\<lambda>ch. ch\<lparr>ch_wtok := t, ch_wco := Running\<rparr>) w"
  show ?thesis
  proof (cases h)
    case None
    then have "recv_view w' = recv_view w" using w' t by auto
    then show ?thesis by (rule recv_ok_view [OF ok])
  next
    case (Some x)
    have "send_resume api srv c ?wr = Some w'" using w' t Some by simp
    then have "keeps c ?wr w'" by (rule send_resume_keeps) (use c in simp)
    from recv_ok_keeps [OF recv_ok_view [OF ok] this] show ?thesis by simp
  qed
qed

lemma accept_ok:
  assumes ok: "recv_ok (got, lost, taken, w)" and w': "tcp_complete api srv Accept_Tok res flag w = Some w'"
  shows "recv_ok (got, lost, taken, w')"
proof -
  obtain h t where t: "token_complete res flag (tw_atok w) = (h, t)" by fastforce
  let ?wr = "w\<lparr>tw_atok := t, tw_aco := Running\<rparr>"
  show ?thesis
  proof (cases h)
    case None
    then have "recv_view w' = recv_view w" using w' t by auto
    then show ?thesis by (rule recv_ok_view [OF ok])
  next
    case (Some x)
    have "accept_resume api srv ?wr = Some w'" using w' t Some by simp
    from accept_resume_keeps [OF this] obtain c where "keeps c ?wr w'" by blast
    from recv_ok_keeps [OF recv_ok_view [OF ok] this] show ?thesis by simp
  qed
qed

text \<open>Every event, and so every run.\<close>

lemma event_ok: "tcp_event api srv s s' \<Longrightarrow> recv_ok s \<Longrightarrow> recv_ok s'"
proof (induction rule: tcp_event.induct)
  case (ev_data c w i taken ds flag w' got lost)
  from data_ok [OF ev_data(7,1-6)] show ?case .
qed (blast intro: start_ok end_ok send_ok accept_ok batch_ok)+

lemma run_ok: "(tcp_event api srv)\<^sup>*\<^sup>* s s' \<Longrightarrow> recv_ok s \<Longrightarrow> recv_ok s'"
  by (induction rule: rtranclp_induct) (blast intro: event_ok)+

end

end
