(* ===== verification/Server.thy ===== *)
theory Server
  imports Io_Thread
begin

text \<open>
  \<^verbatim>\<open>Server\<close>, \<^verbatim>\<open>TcpServer\<close> and \<^verbatim>\<open>UdpServer\<close> (\<^verbatim>\<open>include/net/server.hpp\<close>, \<^verbatim>\<open>src/net/server.cpp\<close>): the settings, and the placement of the
  worker threads on CPUs. What libnuma and the scheduler report is the parameter \<open>topology\<close>; the construction of a worker
  thread is a parameter of \<^verbatim>\<open>start\<close>. \<^term>\<open>None\<close> is a failed assertion, an access outside a vector, or the end of the process.
\<close>

section \<open>Settings\<close>

record server =
  sv_port :: i32
  sv_thread_nums :: i32
  sv_buf_pool_size :: i32
  sv_cpu_affinity :: bool

record tcp_conf = server +
  tc_channel_capacity :: i32
  tc_buf_ring_size :: i32
  tc_pool_size :: i32
  tc_queue_depth :: u32

record udp_conf = server +
  uc_buf_ring_size :: i32
  uc_msghdr_pool_size :: i32
  uc_channel_capacity :: i32
  uc_queue_depth :: u32

text \<open>The constructor of \<^verbatim>\<open>Server\<close>; \<open>hw\<close> is \<^verbatim>\<open>hardware_concurrency()\<close>, and both comparisons with it are unsigned.\<close>

definition server_new :: "u32 \<Rightarrow> i32 \<Rightarrow> i32 \<Rightarrow> i32 \<Rightarrow> bool \<Rightarrow> server option" where
  "server_new hw port thread_nums buf_pool_size cpu_affinity =
     (if 0 < sint thread_nums \<and> thread_nums \<le> hw \<and> (cpu_affinity \<longrightarrow> thread_nums \<le> hw div 2)
      then Some \<lparr>sv_port = port, sv_thread_nums = thread_nums, sv_buf_pool_size = buf_pool_size, sv_cpu_affinity = cpu_affinity\<rparr>
      else None)"

definition tcp_server_new :: "u32 \<Rightarrow> i32 \<Rightarrow> i32 \<Rightarrow> i32 \<Rightarrow> i32 \<Rightarrow> i32 \<Rightarrow> i32 \<Rightarrow> u32 \<Rightarrow> bool \<Rightarrow> tcp_conf option" where
  "tcp_server_new hw port thread_nums buf_pool_size channel_capacity buf_ring_size pool_size queue_depth cpu_affinity =
     map_option (\<lambda>s. server.extend s (tcp_conf.fields channel_capacity buf_ring_size pool_size queue_depth))
       (server_new hw port thread_nums buf_pool_size cpu_affinity)"

definition udp_server_new :: "u32 \<Rightarrow> i32 \<Rightarrow> i32 \<Rightarrow> i32 \<Rightarrow> i32 \<Rightarrow> i32 \<Rightarrow> i32 \<Rightarrow> u32 \<Rightarrow> bool \<Rightarrow> udp_conf option" where
  "udp_server_new hw port thread_nums buf_pool_size buf_ring_size msghdr_pool_size channel_capacity queue_depth cpu_affinity =
     map_option (\<lambda>s. server.extend s (udp_conf.fields buf_ring_size msghdr_pool_size channel_capacity queue_depth))
       (server_new hw port thread_nums buf_pool_size cpu_affinity)"

section \<open>The CPUs\<close>

text \<open>
  \<open>tp_node_to_cpus\<close> overwrites the mask it is given, or leaves it alone when it fails; the code does not look at its
  result. \<open>tp_affinity\<close> is the set of \<^verbatim>\<open>sched_getaffinity\<close>, if the call succeeds.
\<close>

record topology =
  tp_num_nodes :: i32
  tp_mask :: "bool list"
  tp_node_to_cpus :: "nat \<Rightarrow> bool list \<Rightarrow> bool list"
  tp_affinity :: "bool list option"

definition set_bits :: "bool list \<Rightarrow> i32 list" where
  "set_bits m = map of_nat (filter (\<lambda>i. m ! i) [0..<length m])"

fun node_loop :: "(nat \<Rightarrow> bool list \<Rightarrow> bool list) \<Rightarrow> nat list \<Rightarrow> bool list \<Rightarrow> i32 list" where
  "node_loop f [] m = []"
| "node_loop f (n # ns) m = (let m' = f n m in set_bits m' @ node_loop f ns m')"

definition get_cpu_list :: "topology \<Rightarrow> i32 list" where
  "get_cpu_list tp =
     (let cpus = (if 0 < sint (tp_num_nodes tp)
                  then node_loop (tp_node_to_cpus tp) [0..<nat (sint (tp_num_nodes tp))] (tp_mask tp) else [])
      in if cpus = [] then (case tp_affinity tp of None \<Rightarrow> [] | Some s \<Rightarrow> set_bits s) else cpus)"

section \<open>Starting the workers\<close>

datatype start_error = Not_Enough_Cpus | Thread_Error ring_error

text \<open>
  The \<^verbatim>\<open>for\<close> loop of \<^verbatim>\<open>start\<close>. \<open>mk cpu\<close> constructs a worker thread: it may throw, or end the process. The result is the exception
  that left the loop, if any, and the threads created.
\<close>

fun start_loop ::
  "(i32 \<Rightarrow> (ring_error + 't) option) \<Rightarrow> (nat \<Rightarrow> i32 option) \<Rightarrow> nat list \<Rightarrow> 't list \<Rightarrow> (start_error option \<times> 't list) option" where
  "start_loop mk cpu_of [] ts = Some (None, ts)"
| "start_loop mk cpu_of (i # is) ts =
     (case Option.bind (cpu_of i) mk of
        None \<Rightarrow> None
      | Some (Inl e) \<Rightarrow> Some (Some (Thread_Error e), ts)
      | Some (Inr t) \<Rightarrow> start_loop mk cpu_of is (ts @ [t]))"

definition pick_cpu :: "i32 list \<Rightarrow> nat \<Rightarrow> i32 option" where
  "pick_cpu cpu_list i = (if i * 2 < length cpu_list then Some (cpu_list ! (i * 2)) else None)"

definition server_start ::
  "topology \<Rightarrow> (i32 \<Rightarrow> (ring_error + 't) option) \<Rightarrow> 'm server_scheme \<Rightarrow> (start_error option \<times> 't list) option" where
  "server_start tp mk sv =
     (let n = nat (sint (sv_thread_nums sv)) in
      if sv_cpu_affinity sv then
        let cpu_list = get_cpu_list tp in
        if sint (of_nat (length cpu_list) :: i32) < sint (sv_thread_nums sv * 2) then Some (Some Not_Enough_Cpus, [])
        else start_loop mk (pick_cpu cpu_list) [0..<n] []
      else start_loop mk (\<lambda>_. Some (- 1)) [0..<n] [])"

text \<open>\<^verbatim>\<open>TcpServer::start\<close> and \<^verbatim>\<open>UdpServer::start\<close>, which are the same text for the two kinds of thread.\<close>

definition tcp_server_start ::
  "topology \<Rightarrow> (i32 \<Rightarrow> (ring_error + 't) option) \<Rightarrow> tcp_conf \<Rightarrow> (start_error option \<times> 't list) option" where
  "tcp_server_start tp mk sv = server_start tp mk sv"

definition udp_server_start ::
  "topology \<Rightarrow> (i32 \<Rightarrow> (ring_error + 't) option) \<Rightarrow> udp_conf \<Rightarrow> (start_error option \<times> 't list) option" where
  "udp_server_start tp mk sv = server_start tp mk sv"

section \<open>Placement\<close>

lemma start_loop_all:
  assumes "\<And>i. i \<in> set is \<Longrightarrow> \<exists>c t. cpu_of i = Some c \<and> mk c = Some (Inr t)"
  shows "start_loop mk cpu_of is ts =
    Some (None, ts @ map (\<lambda>i. projr (the (mk (the (cpu_of i))))) is)"
  using assms
proof (induction "is" arbitrary: ts)
  case (Cons i "is")
  obtain c t where c: "cpu_of i = Some c" "mk c = Some (Inr t)" using Cons.prems [of i] by auto
  have "start_loop mk cpu_of is (ts @ [t]) = Some (None, (ts @ [t]) @ map (\<lambda>i. projr (the (mk (the (cpu_of i))))) is)"
    by (rule Cons.IH) (use Cons.prems in simp)
  then show ?case using c by simp
qed simp

lemma server_start_cpus:
  assumes nums: "0 < sint (sv_thread_nums sv)" "sint (sv_thread_nums sv) < 2 ^ 30" and len: "length (get_cpu_list tp) < 2 ^ 31"
    and aff: "sv_cpu_affinity sv"
  defines "n \<equiv> unat (sv_thread_nums sv)"
  shows "server_start tp mk sv =
    (if length (get_cpu_list tp) < n * 2 then Some (Some Not_Enough_Cpus, [])
     else start_loop mk (\<lambda>i. Some (get_cpu_list tp ! (i * 2))) [0..<n] [])"
proof -
  have n: "sint (sv_thread_nums sv) = int n" using unat_nonneg_sint [of "sv_thread_nums sv"] nums(1) by (simp add: n_def)
  then have "n < 2 ^ 30" using nums(2) by simp
  moreover have "sv_thread_nums sv * 2 = of_nat (n * 2)" by (simp add: n_def)
  ultimately have d: "sint (sv_thread_nums sv * 2) = int (n * 2)" by (simp only:) (rule sint_of_nat_small, simp)
  have "sint (of_nat (length (get_cpu_list tp)) :: i32) = int (length (get_cpu_list tp))" using len by (rule sint_of_nat_small)
  moreover have pick: "start_loop mk (pick_cpu l) is ts = start_loop mk (\<lambda>i. Some (l ! (i * 2))) is ts"
    if "\<And>i. i \<in> set is \<Longrightarrow> i * 2 < length l" for l "is" ts
    using that by (induction "is" arbitrary: ts) (auto simp: pick_cpu_def split: option.split sum.split)
  have "start_loop mk (pick_cpu (get_cpu_list tp)) [0..<n] [] = start_loop mk (\<lambda>i. Some (get_cpu_list tp ! (i * 2))) [0..<n] []"
    if "n * 2 \<le> length (get_cpu_list tp)" using that by (intro pick) simp
  ultimately show ?thesis using aff n d by (simp add: server_start_def Let_def)
qed

text \<open>
  C32: the placement of pinned workers. With CPU affinity, \<^verbatim>\<open>start\<close> throws before it creates any thread exactly when there are
  fewer than two CPUs per worker. Otherwise no access leaves the list, one worker is created per requested thread, in
  order, worker \<open>i\<close> on entry \<open>2 i\<close> of the list; if the list names each CPU once, no two workers share a CPU.
\<close>

theorem server_start_placement:
  assumes nums: "0 < sint (sv_thread_nums sv)" "sint (sv_thread_nums sv) < 2 ^ 30" and len: "length (get_cpu_list tp) < 2 ^ 31"
    and aff: "sv_cpu_affinity sv" and mk: "\<And>cpu. mk cpu = Some (Inr cpu)"
  defines "n \<equiv> unat (sv_thread_nums sv)"
  shows "if length (get_cpu_list tp) < n * 2 then server_start tp mk sv = Some (Some Not_Enough_Cpus, [])
    else \<exists>cpus. server_start tp mk sv = Some (None, cpus) \<and> length cpus = n \<and>
      (\<forall>i < n. cpus ! i = get_cpu_list tp ! (2 * i)) \<and> (distinct (get_cpu_list tp) \<longrightarrow> distinct cpus)"
proof -
  let ?l = "get_cpu_list tp" and ?cpus = "map (\<lambda>i. get_cpu_list tp ! (i * 2)) [0..<n]"
  have "start_loop mk (\<lambda>i. Some (?l ! (i * 2))) [0..<n] [] = Some (None, ?cpus)"
    using start_loop_all [of "[0..<n]" "\<lambda>i. Some (?l ! (i * 2))" mk "[]"] mk by simp
  moreover have "distinct ?cpus" if "n * 2 \<le> length ?l" "distinct ?l"
    using that by (auto simp: distinct_map inj_on_def nth_eq_iff_index_eq)
  ultimately show ?thesis
    using server_start_cpus [OF nums len aff, of mk] by (auto simp: n_def mult.commute)
qed

definition sample_topology :: topology where
  "sample_topology = \<lparr>tp_num_nodes = 2, tp_mask = replicate 8 False,
     tp_node_to_cpus = \<lambda>n _. map (\<lambda>i. i mod 2 = n) [0..<8], tp_affinity = None\<rparr>"

definition sample_server :: server where
  "sample_server = \<lparr>sv_port = 80, sv_thread_nums = 3, sv_buf_pool_size = 64, sv_cpu_affinity = True\<rparr>"

lemma sample_cpu_list: "get_cpu_list sample_topology = [0, 2, 4, 6, 1, 3, 5, 7]"
  by code_simp

theorem server_start_placement_witness:
  "\<exists>cpus. server_start sample_topology (\<lambda>cpu. Some (Inr cpu)) sample_server = Some (None, cpus) \<and> length cpus = 3 \<and> distinct cpus"
  using server_start_placement [of sample_server sample_topology "\<lambda>cpu. Some (Inr cpu)"]
  by (auto simp: sample_server_def sample_cpu_list)

section \<open>The polling threads\<close>

text \<open>The CPU of the kernel's submission-queue polling thread of a worker on \<open>cpu\<close>.\<close>

definition sq_cpu :: "i32 \<Rightarrow> i32" where
  "sq_cpu cpu = sq_thread_cpu (make_sqpoll_params cpu)"

text \<open>
  C33: workers and polling threads. \<^verbatim>\<open>make_sqpoll_params\<close> puts the polling thread of a worker on the CPU with the next number, while
  \<^verbatim>\<open>start\<close> spaces the workers by two entries of the list. When the list is a run of consecutive numbers, the \<open>2 n\<close> threads
  all have a CPU of their own.
\<close>

theorem sqpoll_separate:
  assumes nums: "0 < sint (sv_thread_nums sv)" "sint (sv_thread_nums sv) < 2 ^ 30" and aff: "sv_cpu_affinity sv"
    and list: "get_cpu_list tp = map (\<lambda>i. of_nat (first + i)) [0..<m]" "first + m < 2 ^ 31" "unat (sv_thread_nums sv) * 2 \<le> m"
    and mk: "\<And>cpu. mk cpu = Some (Inr cpu)"
  shows "\<exists>cpus. server_start tp mk sv = Some (None, cpus) \<and> distinct (cpus @ map sq_cpu cpus)"
proof -
  let ?n = "unat (sv_thread_nums sv)" and ?l = "get_cpu_list tp"
  define f where "f a = (of_nat (first + a) :: i32)" for a
  let ?cpus = "map (\<lambda>i. f (i * 2)) [0..<?n]"
  have "length ?l < 2 ^ 31" using list(1,2) by simp
  from server_start_cpus [OF nums this aff, of mk]
  have "server_start tp mk sv = start_loop mk (\<lambda>i. Some (?l ! (i * 2))) [0..<?n] []" using list(1,3) by simp
  also have "\<dots> = Some (None, map (\<lambda>i. ?l ! (i * 2)) [0..<?n])"
    using start_loop_all [of "[0..<?n]" "\<lambda>i. Some (?l ! (i * 2))" mk "[]"] mk by simp
  also have "map (\<lambda>i. ?l ! (i * 2)) [0..<?n] = ?cpus" using list(1,3) by (simp add: f_def)
  finally have start: "server_start tp mk sv = Some (None, ?cpus)" .
  have sq: "map sq_cpu ?cpus = map (\<lambda>i. f (i * 2 + 1)) [0..<?n]"
    by (simp add: sq_cpu_def make_sqpoll_params_def f_def)
  have inj: "f a = f b \<longleftrightarrow> a = b" if "a < m" "b < m" for a b
  proof -
    have "unat (f a) = first + a" "unat (f b) = first + b"
      unfolding f_def using that list(2) by (simp_all only: unat_of_nat take_bit_nat_eq_self) simp_all
    then show ?thesis by (metis add_left_cancel)
  qed
  have "distinct ?cpus" "distinct (map sq_cpu ?cpus)"
    unfolding sq using list(3) by (auto simp: distinct_map inj_on_def inj)
  moreover have "f (i * 2) \<noteq> f (j * 2 + 1)" if "i < ?n" "j < ?n" for i j
  proof -
    have "i * 2 \<noteq> j * 2 + 1" by presburger
    then show ?thesis using inj [of "i * 2" "j * 2 + 1"] that list(3) by simp
  qed
  then have "set ?cpus \<inter> set (map sq_cpu ?cpus) = {}" unfolding sq by auto
  ultimately show ?thesis unfolding start by (intro exI [of _ ?cpus]) (simp only: distinct_append simp_thms)
qed

theorem sqpoll_separate_witness:
  "\<exists>cpus. server_start (sample_topology\<lparr>tp_num_nodes := 0, tp_affinity := Some (replicate 8 True)\<rparr>) (\<lambda>cpu. Some (Inr cpu)) sample_server =
     Some (None, cpus) \<and> distinct (cpus @ map sq_cpu cpus)"
  by (rule sqpoll_separate [of _ _ 0 8])
    (simp_all add: sample_server_def sample_topology_def get_cpu_list_def set_bits_def upt_rec Let_def)

lemma filter_parity:
  assumes "c < (2::nat)"
  shows "filter (\<lambda>i. i mod 2 = c) [0..<2 * m] = map (\<lambda>i. 2 * i + c) [0..<m]"
proof (induction m)
  case (Suc m)
  have "[0..<2 * Suc m] = [0..<2 * m] @ [2 * m, 2 * m + 1]" by simp
  moreover have "c = 0 \<or> c = 1" using assms by auto
  ultimately show ?case using Suc by auto
qed simp

text \<open>Two nodes that number their CPUs alternately, \<open>m\<close> each: the even CPUs are listed before the odd ones.\<close>

lemma alternating_cpu_list:
  assumes "tp_num_nodes tp = 2" and "0 < m"
    and node: "\<And>c mask. c < 2 \<Longrightarrow> tp_node_to_cpus tp c mask = map (\<lambda>i. i mod 2 = c) [0..<2 * m]"
  shows "get_cpu_list tp = map (\<lambda>i. of_nat (2 * i)) [0..<m] @ map (\<lambda>i. of_nat (2 * i + 1)) [0..<m]"
proof -
  have bits: "set_bits (map (\<lambda>i. i mod 2 = c) [0..<2 * m]) = map (\<lambda>i. of_nat (2 * i + c)) [0..<m]" if "c < 2" for c
  proof -
    have "filter (\<lambda>i. map (\<lambda>i. i mod 2 = c) [0..<2 * m] ! i) [0..<2 * m] = filter (\<lambda>i. i mod 2 = c) [0..<2 * m]"
      by (rule filter_cong) simp_all
    then show ?thesis using filter_parity [OF that, of m] by (simp add: set_bits_def comp_def)
  qed
  have "[0..<nat (sint (2 :: i32))] = [0, 1]" by (simp add: upt_rec)
  then show ?thesis
    using assms(1,2) bits [of 0] bits [of 1] node [of 0] node [of 1] by (simp add: get_cpu_list_def Let_def)
qed

text \<open>
  C34: shared CPUs. On a machine with two nodes that number their \<open>4 h\<close> CPUs alternately, \<^verbatim>\<open>get_cpu_list\<close> lists the even
  CPUs before the odd ones. If more than \<open>h\<close> pinned workers are started, all of them come up, on CPUs of their own, and
  the polling thread of each worker \<open>i\<close> that has a worker \<open>i + h\<close> is put on the CPU which that worker occupies.
\<close>

theorem sqpoll_collision:
  assumes nums: "0 < sint (sv_thread_nums sv)" "sint (sv_thread_nums sv) < 2 ^ 30" and aff: "sv_cpu_affinity sv"
    and nodes: "tp_num_nodes tp = 2"
      "\<And>c mask. c < 2 \<Longrightarrow> tp_node_to_cpus tp c mask = map (\<lambda>i. i mod 2 = c) [0..<2 * (2 * h)]"
    and h: "4 * h < 2 ^ 31" "h < unat (sv_thread_nums sv)" "unat (sv_thread_nums sv) \<le> 2 * h"
    and mk: "\<And>cpu. mk cpu = Some (Inr cpu)"
  shows "\<exists>cpus. server_start tp mk sv = Some (None, cpus) \<and> length cpus = unat (sv_thread_nums sv) \<and> distinct cpus \<and>
    (\<forall>i. i + h < unat (sv_thread_nums sv) \<longrightarrow> sq_cpu (cpus ! i) = cpus ! (i + h))"
proof -
  let ?n = "unat (sv_thread_nums sv)" and ?l = "get_cpu_list tp"
  have l: "?l = map (\<lambda>i. of_nat (2 * i)) [0..<2 * h] @ map (\<lambda>i. of_nat (2 * i + 1)) [0..<2 * h]"
    using alternating_cpu_list [OF nodes(1) _ nodes(2)] h(2,3) by simp
  define f where "f j = (if j < 2 * h then 2 * j else 2 * (j - 2 * h) + 1)" for j
  have f: "?l ! j = of_nat (f j)" "f j < 2 ^ 31" if "j < 4 * h" for j
    using that h(1) by (auto simp: l nth_append f_def)
  have "length ?l < 2 ^ 31" using l h(1) by simp
  from server_start_cpus [OF nums this aff, of mk]
  have "server_start tp mk sv = start_loop mk (\<lambda>i. Some (?l ! (i * 2))) [0..<?n] []" using l h(3) by simp
  also have "\<dots> = Some (None, map (\<lambda>i. ?l ! (i * 2)) [0..<?n])"
    using start_loop_all [of "[0..<?n]" "\<lambda>i. Some (?l ! (i * 2))" mk "[]"] mk by simp
  also have "map (\<lambda>i. ?l ! (i * 2)) [0..<?n] = map (\<lambda>i. of_nat (f (i * 2))) [0..<?n]" using h(3) by (simp add: f(1))
  finally have start: "server_start tp mk sv = Some (None, map (\<lambda>i. of_nat (f (i * 2))) [0..<?n])" .
  have "i = j" if "i < ?n" "j < ?n" "(of_nat (f (i * 2)) :: i32) = of_nat (f (j * 2))" for i j
  proof -
    have "f (i * 2) < 2 ^ 31" "f (j * 2) < 2 ^ 31" using that(1,2) h(3) f(2) by simp_all
    then have "f (i * 2) = f (j * 2)"
      using arg_cong [OF that(3), of unat] by (simp add: unat_of_nat take_bit_nat_eq_self)
    moreover have "even (f a) \<longleftrightarrow> a < 2 * h" for a by (simp add: f_def)
    ultimately have "i * 2 < 2 * h \<longleftrightarrow> j * 2 < 2 * h" by metis
    then show ?thesis using \<open>f (i * 2) = f (j * 2)\<close> by (cases "i * 2 < 2 * h") (simp_all add: f_def)
  qed
  then have "distinct (map (\<lambda>i. of_nat (f (i * 2)) :: i32) [0..<?n])" by (auto simp: distinct_map inj_on_def)
  moreover have "sq_cpu (of_nat (f (i * 2))) = of_nat (f ((i + h) * 2))" if "i + h < ?n" for i
    using that h(3) by (simp add: f_def sq_cpu_def make_sqpoll_params_def)
  ultimately show ?thesis unfolding start by (intro exI conjI) (rule refl, simp_all)
qed

theorem sqpoll_collision_witness:
  "\<exists>cpus. server_start sample_topology (\<lambda>cpu. Some (Inr cpu)) sample_server = Some (None, cpus) \<and> length cpus = 3 \<and>
     sq_cpu (cpus ! 0) = cpus ! 2"
proof -
  let ?mk = "\<lambda>cpu. Some (Inr cpu)" and ?n = "sv_thread_nums sample_server"
  have n: "unat ?n = 3" "0 < sint ?n" "sint ?n < 2 ^ 30" by (simp_all add: sample_server_def)
  obtain cpus where c: "server_start sample_topology ?mk sample_server = Some (None, cpus)" "length cpus = unat ?n"
      "\<forall>i. i + 2 < unat ?n \<longrightarrow> sq_cpu (cpus ! i) = cpus ! (i + 2)"
    using sqpoll_collision [OF n(2,3), of sample_topology 2 ?mk] n(1)
    by (auto simp: sample_server_def sample_topology_def)
  from c(3) [rule_format, of 0] have "sq_cpu (cpus ! 0) = cpus ! (0 + 2)" using n(1) by simp
  then have "sq_cpu (cpus ! 0) = cpus ! 2" by (simp only: add_0)
  then show ?thesis using c(1,2) n(1) by auto
qed

end
