(* ===== verification/Msghdr_Pool.thy ===== *)
theory Msghdr_Pool
  imports Pool_Interface Ring_Array
begin

text \<open>
  \<^verbatim>\<open>MsghdrPool\<close> (\<^verbatim>\<open>include/buffer/msghdr_pool.hpp\<close>, \<^verbatim>\<open>src/buffer/msghdr_pool.cpp\<close>): the message slots
  of a UDP worker. A slot has a \<^verbatim>\<open>msghdr\<close>, a peer address and \<^verbatim>\<open>max_iov\<close> entries of the one array
  \<^verbatim>\<open>iovecs_\<close>. A \<^verbatim>\<open>MsghdrSlot*\<close> is the index of the slot in \<^verbatim>\<open>slots_\<close>, and \<^verbatim>\<open>slot->iov\<close> the index of its
  first entry in \<^verbatim>\<open>iovecs_\<close>.
\<close>

section \<open>State and operations\<close>

text \<open>
  \<^verbatim>\<open>struct msghdr\<close>, the fields the program uses: \<^verbatim>\<open>msg_name\<close> is the slot whose address it points
  at, \<^verbatim>\<open>msg_iov\<close> an index of \<^verbatim>\<open>iovecs_\<close>.
\<close>

record msghdr =
  mh_name :: "nat option"
  mh_namelen :: u32
  mh_iov :: "nat option"
  mh_iovlen :: u64

text \<open>\<open>ms_channel\<close>: whether \<^verbatim>\<open>token_.channel_\<close> has been set to the worker's channel.\<close>

record msghdr_slot =
  ms_channel :: bool
  ms_hdr :: msghdr
  ms_addr :: "byte list"
  ms_iov :: nat

record msghdr_pool =
  mp_capacity :: i32
  mp_mask :: i32
  mp_max_iov :: i32
  mp_slots :: "msghdr_slot list"
  mp_iovecs :: "iovec list"
  mp_pool :: "nat list"
  mp_head :: u32
  mp_tail :: u32

text \<open>\<^verbatim>\<open>sizeof(sockaddr_storage)\<close>, and what \<^verbatim>\<open>memset\<close> to zero leaves.\<close>

definition sockaddr_storage_size :: nat where
  "sockaddr_storage_size = 128"

definition null_iov :: iovec where
  "null_iov = \<lparr>iov_base = None, iov_len = 0\<rparr>"

definition blank_hdr :: "nat \<Rightarrow> msghdr" where
  "blank_hdr s = \<lparr>mh_name = Some s, mh_namelen = of_nat sockaddr_storage_size, mh_iov = None, mh_iovlen = 0\<rparr>"

definition msghdr_pool_new :: "i32 \<Rightarrow> i32 \<Rightarrow> msghdr_pool option" where
  "msghdr_pool_new capacity max_iov =
     (if is_power_of_two capacity \<and> 0 < sint max_iov
      then Some \<lparr>mp_capacity = capacity, mp_mask = capacity - 1, mp_max_iov = max_iov,
        mp_slots = map (\<lambda>i. \<lparr>ms_channel = False, ms_hdr = blank_hdr i,
          ms_addr = replicate sockaddr_storage_size 0, ms_iov = unat (of_nat i * max_iov)\<rparr>)
          [0..<unat capacity],
        mp_iovecs = replicate (unat (capacity * max_iov)) null_iov,
        mp_pool = [0..<unat capacity], mp_head = 0, mp_tail = capacity\<rparr>
      else None)"

definition mp_acquire :: "msghdr_pool \<Rightarrow> nat option \<times> msghdr_pool" where
  "mp_acquire p =
     (if mp_head p = mp_tail p then (None, p)
      else (Some (mp_pool p ! ring_slot (mp_mask p) (mp_head p)), p\<lparr>mp_head := mp_head p + 1\<rparr>))"

definition mp_release :: "nat \<Rightarrow> msghdr_pool \<Rightarrow> msghdr_pool option" where
  "mp_release s p =
     (if mp_tail p - mp_head p < mp_capacity p \<and> s < length (mp_slots p)
      then do {
        iovecs \<leftarrow> copy_in (ms_iov (mp_slots p ! s)) (replicate (unat (mp_max_iov p)) null_iov) (mp_iovecs p);
        Some (p\<lparr>mp_slots := (mp_slots p)[s := (mp_slots p ! s)\<lparr>ms_hdr := blank_hdr s,
                   ms_addr := replicate sockaddr_storage_size 0\<rparr>],
                mp_iovecs := iovecs,
                mp_pool := (mp_pool p)[ring_slot (mp_mask p) (mp_tail p) := s],
                mp_tail := mp_tail p + 1\<rparr>) }
      else None)"

section \<open>Abstraction and invariant\<close>

definition mp_free :: "msghdr_pool \<Rightarrow> nat list" where
  "mp_free p = ring_list (mp_pool p) (mp_mask p) (mp_head p) (mp_tail p)"

definition mp_handles :: "msghdr_pool \<Rightarrow> nat set" where
  "mp_handles p = {..<length (mp_slots p)}"

text \<open>The entries of \<^verbatim>\<open>iovecs_\<close> that belong to slot \<open>s\<close>.\<close>

definition mp_segment :: "msghdr_pool \<Rightarrow> nat \<Rightarrow> iovec list" where
  "mp_segment p s = seg (s * unat (mp_max_iov p)) (unat (mp_max_iov p)) (mp_iovecs p)"

definition mp_shape :: "msghdr_pool \<Rightarrow> bool" where
  "mp_shape p \<longleftrightarrow>
     (\<exists>k < 31. mp_capacity p = 2 ^ k \<and> mp_mask p = mask k \<and> length (mp_slots p) = 2 ^ k \<and>
        length (mp_pool p) = 2 ^ k) \<and>
     ring_ok (mp_pool p) (mp_mask p) (mp_head p) (mp_tail p) \<and>
     0 < unat (mp_max_iov p) \<and>
     length (mp_iovecs p) = length (mp_slots p) * unat (mp_max_iov p) \<and>
     (\<forall>s < length (mp_slots p). ms_iov (mp_slots p ! s) = s * unat (mp_max_iov p) \<and>
        length (ms_addr (mp_slots p ! s)) = sockaddr_storage_size)"

text \<open>A blank slot: header and address reset, no entry filled in.\<close>

definition mp_blank :: "msghdr_pool \<Rightarrow> nat \<Rightarrow> bool" where
  "mp_blank p s \<longleftrightarrow> ms_hdr (mp_slots p ! s) = blank_hdr s \<and>
     ms_addr (mp_slots p ! s) = replicate sockaddr_storage_size 0 \<and>
     mp_segment p s = replicate (unat (mp_max_iov p)) null_iov"

definition mp_inv :: "msghdr_pool \<Rightarrow> bool" where
  "mp_inv p \<longleftrightarrow> mp_shape p \<and> distinct (mp_free p) \<and> set (mp_free p) \<subseteq> mp_handles p \<and>
     (\<forall>s \<in> set (mp_free p). mp_blank p s)"

text \<open>What an operation on slot \<open>s\<close> leaves alone: the other slots and their entries.\<close>

definition mp_frame :: "nat set \<Rightarrow> msghdr_pool \<Rightarrow> msghdr_pool \<Rightarrow> bool" where
  "mp_frame S p p' \<longleftrightarrow> length (mp_slots p') = length (mp_slots p) \<and> mp_max_iov p' = mp_max_iov p \<and>
     (\<forall>s \<in> mp_handles p - S. mp_slots p' ! s = mp_slots p ! s \<and> mp_segment p' s = mp_segment p s)"

lemma mp_frame_refl [simp]: "mp_frame S p p"
  by (simp add: mp_frame_def)

lemma mp_frame_trans: "mp_frame S p p' \<Longrightarrow> mp_frame T p' p'' \<Longrightarrow> mp_frame (S \<union> T) p p''"
  by (auto simp: mp_frame_def mp_handles_def)

lemma mp_frame_mono: "mp_frame S p p' \<Longrightarrow> S \<subseteq> T \<Longrightarrow> mp_frame T p p'"
  by (auto simp: mp_frame_def)

lemma mp_frame_handles: "mp_frame S p p' \<Longrightarrow> mp_handles p' = mp_handles p"
  by (simp add: mp_frame_def mp_handles_def)

lemma mp_frame_blank: "mp_frame S p p' \<Longrightarrow> s \<in> mp_handles p \<Longrightarrow> s \<notin> S \<Longrightarrow> mp_blank p' s = mp_blank p s"
  by (simp add: mp_frame_def mp_blank_def)

section \<open>The pool contract\<close>

lemma mp_capacity_unat: "mp_shape p \<Longrightarrow> unat (mp_capacity p) = length (mp_slots p)"
  by (auto simp: mp_shape_def unat_pow2)

lemma mp_lengths: "mp_shape p \<Longrightarrow> length (mp_pool p) = length (mp_slots p)"
  by (auto simp: mp_shape_def)

lemma mp_free_length: "length (mp_free p) = unat (mp_tail p - mp_head p)"
  by (simp add: mp_free_def)

lemma mp_acquire_inv:
  assumes inv: "mp_inv p" and free: "mp_free p = x # xs"
  shows "\<exists>p'. mp_acquire p = (Some x, p') \<and> mp_inv p' \<and> mp_free p' = xs \<and> mp_frame {} p p' \<and>
           x \<in> mp_handles p \<and> mp_blank p' x"
proof -
  let ?p = "p\<lparr>mp_head := mp_head p + 1\<rparr>"
  have ne: "mp_head p \<noteq> mp_tail p"
    using free ring_list_Nil_iff [of "mp_pool p" "mp_mask p" "mp_head p" "mp_tail p"] by (auto simp: mp_free_def)
  have pop: "x = mp_pool p ! ring_slot (mp_mask p) (mp_head p)" "mp_free ?p = xs"
    using free ring_list_pop [OF ne, of "mp_pool p" "mp_mask p"] by (simp_all add: mp_free_def)
  have sh: "mp_shape ?p"
    using inv ring_ok_pop(1) [OF _ ne, of "mp_pool p" "mp_mask p"] by (simp add: mp_inv_def mp_shape_def)
  have fr: "mp_frame {} p ?p" by (simp add: mp_frame_def mp_segment_def)
  then have "mp_blank ?p s = mp_blank p s" for s by (simp add: mp_blank_def mp_segment_def)
  then have "mp_inv ?p" "mp_blank ?p x" "x \<in> mp_handles p"
    using inv sh free pop(2) by (auto simp: mp_inv_def mp_handles_def)
  then show ?thesis using ne pop fr by (auto simp: mp_acquire_def)
qed

lemma mp_release_room:
  assumes inv: "mp_inv p" and x: "x \<in> mp_handles p" "x \<notin> set (mp_free p)"
  shows "mp_tail p - mp_head p < mp_capacity p"
proof -
  have "card (set (mp_free p)) < card (mp_handles p)"
    using inv x by (intro psubset_card_mono) (auto simp: mp_inv_def mp_handles_def)
  then have "length (mp_free p) < length (mp_slots p)"
    using inv by (simp add: mp_inv_def distinct_card mp_handles_def)
  then show ?thesis
    using inv mp_capacity_unat [of p] by (simp add: mp_inv_def mp_free_length word_less_nat_alt)
qed

text \<open>Clearing the entries of one slot.\<close>

lemma mp_clear_segment:
  assumes sh: "mp_shape p" and x: "x < length (mp_slots p)"
  defines "n \<equiv> unat (mp_max_iov p)"
  shows "copy_in (ms_iov (mp_slots p ! x)) (replicate n null_iov) (mp_iovecs p) =
      Some (blit (x * n) (replicate n null_iov) (mp_iovecs p))"
    and "seg (x * n) n (blit (x * n) (replicate n null_iov) (mp_iovecs p)) = replicate n null_iov"
    and "s < length (mp_slots p) \<Longrightarrow> s \<noteq> x \<Longrightarrow>
      seg (s * n) n (blit (x * n) (replicate n null_iov) (mp_iovecs p)) = seg (s * n) n (mp_iovecs p)"
proof -
  have len: "length (mp_iovecs p) = length (mp_slots p) * n" and off: "ms_iov (mp_slots p ! x) = x * n"
    using sh x by (simp_all add: mp_shape_def n_def)
  have le: "x * n + n \<le> length (mp_iovecs p)"
    using block_inside [OF x, of n n] len by simp
  then show "copy_in (ms_iov (mp_slots p ! x)) (replicate n null_iov) (mp_iovecs p) =
      Some (blit (x * n) (replicate n null_iov) (mp_iovecs p))"
    by (simp add: copy_in_def off)
  show "seg (x * n) n (blit (x * n) (replicate n null_iov) (mp_iovecs p)) = replicate n null_iov"
    using seg_blit_extend [of "x * n" 0 "replicate n null_iov" "mp_iovecs p"] le by simp
  show "seg (s * n) n (blit (x * n) (replicate n null_iov) (mp_iovecs p)) = seg (s * n) n (mp_iovecs p)"
    if "s < length (mp_slots p)" "s \<noteq> x"
    using that le block_disjoint [of s x n n] by (intro seg_blit_other) auto
qed

lemma mp_release_inv:
  assumes inv: "mp_inv p" and x: "x \<in> mp_handles p" "x \<notin> set (mp_free p)"
  shows "\<exists>p'. mp_release x p = Some p' \<and> mp_inv p' \<and> mp_free p' = mp_free p @ [x] \<and> mp_frame {x} p p' \<and>
           mp_blank p' x"
proof -
  have sh: "mp_shape p" and xl: "x < length (mp_slots p)"
    using inv x by (simp_all add: mp_inv_def mp_handles_def)
  let ?n = "unat (mp_max_iov p)"
  note clr = mp_clear_segment [OF sh xl]
  define p' where "p' = p\<lparr>mp_slots := (mp_slots p)[x := (mp_slots p ! x)\<lparr>ms_hdr := blank_hdr x,
                   ms_addr := replicate sockaddr_storage_size 0\<rparr>],
                mp_iovecs := blit (x * ?n) (replicate ?n null_iov) (mp_iovecs p),
                mp_pool := (mp_pool p)[ring_slot (mp_mask p) (mp_tail p) := x],
                mp_tail := mp_tail p + 1\<rparr>"
  have room: "mp_tail p - mp_head p < mp_capacity p" by (rule mp_release_room [OF inv x])
  then have rel: "mp_release x p = Some p'"
    using xl clr(1) by (simp add: mp_release_def p'_def)
  have lt: "unat (mp_tail p - mp_head p) < length (mp_pool p)"
    using room mp_capacity_unat [OF sh] mp_lengths [OF sh] by (simp add: word_less_nat_alt)
  have ok: "ring_ok (mp_pool p) (mp_mask p) (mp_head p) (mp_tail p)"
    using sh by (simp add: mp_shape_def)
  have free: "mp_free p' = mp_free p @ [x]"
    using ring_list_push [OF ok lt] by (simp add: mp_free_def p'_def)
  have fr: "mp_frame {x} p p'"
    using clr(3) by (auto simp: mp_frame_def mp_handles_def mp_segment_def p'_def)
  have blank: "mp_blank p' x"
    using xl clr(2) by (simp add: mp_blank_def mp_segment_def p'_def)
  have iovs: "length (mp_iovecs p') = length (mp_iovecs p)"
    using sh block_inside [OF xl, of ?n ?n] by (simp add: p'_def mp_shape_def)
  have "mp_shape p'"
    using sh ring_ok_push(1) [OF ok lt] iovs xl
    by (auto simp: mp_shape_def p'_def nth_list_update)
  moreover have "mp_blank p' s" if "s \<in> set (mp_free p)" for s
    using that inv x mp_frame_blank [OF fr, of s] by (auto simp: mp_inv_def)
  ultimately have "mp_inv p'"
    using inv x free blank mp_frame_handles [OF fr] by (auto simp: mp_inv_def)
  then show ?thesis using rel free fr blank by blast
qed

interpretation mp: free_pool mp_acquire mp_release mp_free mp_handles mp_inv
proof unfold_locales
  fix p :: msghdr_pool and x :: nat and xs
  show "set (mp_free p) \<subseteq> mp_handles p" and "distinct (mp_free p)" if "mp_inv p"
    using that by (auto simp: mp_inv_def)
  show "mp_acquire p = (None, p)" if "mp_inv p" "mp_free p = []"
    using that by (simp add: mp_acquire_def mp_free_def ring_list_Nil_iff)
  show "\<exists>p'. mp_acquire p = (Some x, p') \<and> mp_inv p' \<and> mp_free p' = xs \<and> mp_handles p' = mp_handles p"
    if "mp_inv p" "mp_free p = x # xs"
    using mp_acquire_inv [OF that] mp_frame_handles by blast
  show "\<exists>p'. mp_release x p = Some p' \<and> mp_inv p' \<and> mp_free p' = mp_free p @ [x] \<and>
      mp_handles p' = mp_handles p"
    if "mp_inv p" "x \<in> mp_handles p" "x \<notin> set (mp_free p)"
    using mp_release_inv [OF that] mp_frame_handles by blast
  show "mp_release x p = None" if "mp_inv p" "set (mp_free p) = mp_handles p"
  proof -
    have "length (mp_free p) = length (mp_slots p)"
      using that distinct_card [of "mp_free p"] by (simp add: mp_inv_def mp_handles_def)
    then have "\<not> mp_tail p - mp_head p < mp_capacity p"
      using that(1) mp_capacity_unat [of p] by (simp add: mp_inv_def mp_free_length word_less_nat_alt)
    then show ?thesis by (simp add: mp_release_def)
  qed
qed

section \<open>Construction\<close>

lemma msghdr_pool_new_ok:
  assumes pow: "is_power_of_two n" and iov: "0 < sint m" and small: "unat n * unat m < 2 ^ 31"
  shows "\<exists>p. msghdr_pool_new n m = Some p \<and> mp_inv p \<and> mp_free p = [0..<unat n] \<and>
    mp_handles p = {..<unat n} \<and> mp_max_iov p = m"
proof -
  obtain k where k: "k < 31" "n = 2 ^ k" "unat n = 2 ^ k"
    using pow by (rule is_power_of_twoE)
  obtain p where p: "msghdr_pool_new n m = Some p"
    using pow iov by (auto simp: msghdr_pool_new_def)
  then have f: "mp_capacity p = n" "mp_mask p = n - 1" "mp_max_iov p = m" "mp_head p = 0" "mp_tail p = n"
      "mp_pool p = [0..<unat n]" "mp_iovecs p = replicate (unat (n * m)) null_iov"
      "length (mp_slots p) = unat n"
      "\<And>s. s < unat n \<Longrightarrow> mp_slots p ! s = \<lparr>ms_channel = False, ms_hdr = blank_hdr s,
          ms_addr = replicate sockaddr_storage_size 0, ms_iov = unat (of_nat s * m)\<rparr>"
    using pow iov by (auto simp: msghdr_pool_new_def)
  have m: "n - 1 = mask k" using k(2) by (simp add: mask_eq_exp_minus_1)
  have pos: "0 < unat m" using iov by (cases "m = 0") (auto simp: unat_gt_0)
  have nm: "unat (n * m) = unat n * unat m" using small by (simp add: unat_word_ariths)
  have off: "unat (of_nat s * m) = s * unat m" if "s < unat n" for s
  proof -
    have "s * unat m \<le> unat n * unat m" using that by (intro mult_right_mono) simp_all
    then have "s * unat m < 2 ^ 32" by (rule le_less_trans) (use small in simp)
    moreover have "unat (of_nat s :: i32) = s"
      using that by (intro unat_of_nat_le [of s n]) simp
    ultimately show ?thesis by (simp only: unat_word_ariths) simp
  qed
  have "(2::nat) ^ k < 2 ^ 31" using k(1) by (rule power_strict_increasing) simp
  then have free: "mp_free p = [0..<unat n]"
    using k m by (intro nth_equalityI)
      (simp_all add: mp_free_def f ring_list_def ring_slot_mask unat_of_nat take_bit_nat_eq_self mod_less)
  have shape: "mp_shape p"
    using f k m pos nm off by (auto simp: mp_shape_def ring_ok_def)
  have "mp_blank p s" if "s < unat n" for s
  proof -
    have "s * unat m + unat m \<le> unat n * unat m"
      using block_inside [OF that, of "unat m" "unat m"] by simp
    then show ?thesis using f that nm by (simp add: mp_blank_def mp_segment_def seg_def)
  qed
  then have "mp_inv p" using shape free by (auto simp: mp_inv_def mp_handles_def f)
  then show ?thesis using p free f by (auto simp: mp_handles_def)
qed

text \<open>
  C20: exclusive ownership of message slots. After the constructor, over every run of acquisitions
  and releases of held slots: no slot is handed out twice, every slot is held or free, a slot is
  blank whenever it is handed out, releasing a held slot never trips the assertion, and \<^verbatim>\<open>acquire\<close>
  answers null exactly when all slots are held.
\<close>

theorem msghdr_pool_exclusive:
  assumes "is_power_of_two n" and "0 < sint m" and "unat n * unat m < 2 ^ 31"
    and "msghdr_pool_new n m = Some p0" and "pool_run mp_acquire mp_release p0 p held"
  shows "distinct (held @ mp_free p) \<and> set (held @ mp_free p) = {..<unat n} \<and>
    (\<forall>s \<in> set (mp_free p). mp_blank p s) \<and>
    (\<forall>s \<in> set held. \<exists>p'. mp_release s p = Some p') \<and>
    (fst (mp_acquire p) = None \<longleftrightarrow> set held = {..<unat n})"
proof -
  have p0: "mp_inv p0" "mp_free p0 = [0..<unat n]" "mp_handles p0 = {..<unat n}"
    using msghdr_pool_new_ok [OF assms(1-3)] unfolding assms(4) by blast+
  have p0: "mp_inv p0" "set (mp_free p0) = mp_handles p0" "mp_handles p0 = {..<unat n}"
    using p0 by (simp_all add: atLeast0LessThan)
  note run = mp.pool_run_inv [OF assms(5) p0(1,2)]
  have "\<forall>s \<in> set (mp_free p). mp_blank p s" using run by (simp add: mp_inv_def)
  moreover have "\<forall>s \<in> set held. \<exists>p'. mp_release s p = Some p'"
    using mp.pool_run_release_ok [OF assms(5) p0(1,2)] by blast
  moreover have "fst (mp_acquire p) = None \<longleftrightarrow> set held = {..<unat n}"
    using mp.pool_run_acquire_iff [OF assms(5) p0(1,2)] by (simp only: p0(3))
  ultimately show ?thesis using run by (simp only: p0(3))
qed

theorem msghdr_pool_exclusive_witness:
  "\<exists>p0 p. msghdr_pool_new 2 3 = Some p0 \<and> pool_run mp_acquire mp_release p0 p [0] \<and>
     distinct ([0] @ mp_free p) \<and> set ([0] @ mp_free p) = {..<2}"
proof -
  obtain p0 where p0: "msghdr_pool_new 2 3 = Some p0" "mp_inv p0" "mp_free p0 = [0, 1]"
    using msghdr_pool_new_ok [of 2 3] by (auto simp: is_power_of_two_def upt_rec)
  then have "mp_acquire p0 = (Some 0, snd (mp_acquire p0))"
    using mp.acq_first [OF p0(2,3)] by auto
  then have run: "pool_run mp_acquire mp_release p0 (snd (mp_acquire p0)) [0]"
    by (rule pool_acquire [OF pool_start])
  show ?thesis
    using p0(1) run msghdr_pool_exclusive [OF _ _ _ p0(1) run] by (auto simp: is_power_of_two_def)
qed

end
