(* ===== verification/Write_Dgram.thy ===== *)
theory Write_Dgram
  imports Write_Prepend Msghdr_Pool
begin

text \<open>
  \<^verbatim>\<open>WriteBufDgram\<close> (\<^verbatim>\<open>include/buffer/buffer.hpp\<close>, \<^verbatim>\<open>src/buffer/buffer.cpp\<close>): the write buffer of a UDP
  channel. \<^verbatim>\<open>submit\<close> moves the pending blocks into the \<^verbatim>\<open>iovec\<close>s of a message slot and queues the slot;
  \<^verbatim>\<open>release_slot\<close> gives the blocks and the slot back once the datagram is out.
\<close>

section \<open>State and operations\<close>

record write_dgram = write_buf +
  wd_slotq :: "nat list"
  wd_mhead :: u64
  wd_mtail :: u64
  wd_max_iov :: i32

definition write_dgram_new :: "u32 list \<Rightarrow> u32 list \<Rightarrow> nat list \<Rightarrow> msghdr_pool \<Rightarrow> i32 \<Rightarrow> write_dgram" where
  "write_dgram_new pending_bufs send_queue slot_queue msghdr_pool capacity =
     write_buf.extend (write_buf_new pending_bufs send_queue capacity)
       (write_dgram.fields slot_queue 0 0 (mp_max_iov msghdr_pool))"

definition wd_acquire_slot :: "msghdr_pool \<Rightarrow> nat option \<times> msghdr_pool" where
  "wd_acquire_slot mp = mp_acquire mp"

text \<open>
  The loop of \<^verbatim>\<open>submit\<close>: one \<^verbatim>\<open>iovec\<close> per pending block. A store outside \<^verbatim>\<open>iovecs_\<close> is \<^term>\<open>None\<close>;
  \<open>iov\<close> is \<^verbatim>\<open>slot->iov\<close>.
\<close>

function wd_fill_loop ::
  "nat \<Rightarrow> i32 \<Rightarrow> write_dgram \<Rightarrow> buf_pool \<Rightarrow> msghdr_pool \<Rightarrow> (i32 \<times> write_dgram \<times> msghdr_pool) option" where
  "wd_fill_loop iov iov_count w p mp =
     (if wb_pending_head w = wb_pending_tail w then Some (iov_count, w, mp)
      else
        let idx = wb_pending w ! ring_slot (wb_m w) (wb_pending_head w);
            v = \<lparr>iov_base = Some (bp_buf_addr p idx), iov_len = ucast (bp_data_size p idx)\<rparr>
        in do {
          iovecs \<leftarrow> copy_in (iov + unat iov_count) [v] (mp_iovecs mp);
          wd_fill_loop iov (iov_count + 1) (w\<lparr>wb_pending_head := wb_pending_head w + 1\<rparr>) p
            (mp\<lparr>mp_iovecs := iovecs\<rparr>) })"
  by pat_completeness auto
termination
  by (relation "measure (\<lambda>(_, _, w, _, _). unat (wb_pending_tail w - wb_pending_head w))")
    (auto simp: unat_word_diff_Suc(1))

declare wd_fill_loop.simps [simp del]

definition mp_set_hdr :: "nat \<Rightarrow> (msghdr \<Rightarrow> msghdr) \<Rightarrow> msghdr_pool \<Rightarrow> msghdr_pool" where
  "mp_set_hdr s f mp = mp\<lparr>mp_slots := (mp_slots mp)[s := (mp_slots mp ! s)\<lparr>ms_hdr := f (ms_hdr (mp_slots mp ! s))\<rparr>]\<rparr>"

definition wd_submit ::
  "nat option \<Rightarrow> write_dgram \<Rightarrow> buf_pool \<Rightarrow> msghdr_pool \<Rightarrow> (bool \<times> write_dgram \<times> msghdr_pool) option" where
  "wd_submit slot w p mp =
     (let pending_count = wb_pending_tail w - wb_pending_head w in
      if pending_count = 0 then Some (False, w, mp)
      else if wb_cap w \<le> wd_mtail w - wd_mhead w then Some (False, w, mp)
      else case slot of
        None \<Rightarrow> Some (False, w, mp)
      | Some s \<Rightarrow>
        if scast (wd_max_iov w) < pending_count then Some (False, w, mp)
        else do {
          (iov_count, w1, mp1) \<leftarrow> wd_fill_loop (ms_iov (mp_slots mp ! s)) 0 w p mp;
          Some (True,
            w1\<lparr>wd_slotq := (wd_slotq w1)[ring_slot (wb_m w1) (wd_mtail w1) := s], wd_mtail := wd_mtail w1 + 1\<rparr>,
            mp_set_hdr s (\<lambda>h. h\<lparr>mh_iov := Some (ms_iov (mp_slots mp1 ! s)), mh_iovlen := scast iov_count\<rparr>) mp1) })"

definition wd_peek_slot :: "i32 \<Rightarrow> write_dgram \<Rightarrow> nat option" where
  "wd_peek_slot offset w =
     (if sint offset < 0 \<or> wd_mtail w - wd_mhead w \<le> scast offset then None
      else Some (wd_slotq w ! ring_slot (wb_m w) (wd_mhead w + scast offset)))"

text \<open>
  The loop of \<^verbatim>\<open>release_slot\<close> over the listed entries of \<^verbatim>\<open>slot->iov\<close>; a null base or an entry outside
  \<^verbatim>\<open>iovecs_\<close> is \<^term>\<open>None\<close>.
\<close>

fun release_iovs :: "nat \<Rightarrow> nat list \<Rightarrow> msghdr_pool \<Rightarrow> buf_pool \<Rightarrow> buf_pool option" where
  "release_iovs iov [] mp p = Some p"
| "release_iovs iov (i # is) mp p =
     (if iov + i < length (mp_iovecs mp)
      then case iov_base (mp_iovecs mp ! (iov + i)) of
        None \<Rightarrow> None
      | Some a \<Rightarrow> do { p' \<leftarrow> bp_release_ptr a p; release_iovs iov is mp p' }
      else None)"

definition wd_release_slot :: "nat \<Rightarrow> buf_pool \<Rightarrow> msghdr_pool \<Rightarrow> (buf_pool \<times> msghdr_pool) option" where
  "wd_release_slot s p mp = do {
     p' \<leftarrow> release_iovs (ms_iov (mp_slots mp ! s)) [0..<unat (mh_iovlen (ms_hdr (mp_slots mp ! s)))] mp p;
     mp' \<leftarrow> mp_release s mp;
     Some (p', mp') }"

definition wd_clear_slot_queue :: "write_dgram \<Rightarrow> write_dgram" where
  "wd_clear_slot_queue w = w\<lparr>wd_mhead := wd_mtail w\<rparr>"

definition wd_slot_queue_size :: "write_dgram \<Rightarrow> i32" where
  "wd_slot_queue_size w = ucast (wd_mtail w - wd_mhead w)"

section \<open>Abstraction and invariant\<close>

definition wd_queue :: "write_dgram \<Rightarrow> nat list" where
  "wd_queue w = ring_list (wd_slotq w) (wb_m w) (wd_mhead w) (wd_mtail w)"

definition wd_shape :: "write_dgram \<Rightarrow> bool" where
  "wd_shape w \<longleftrightarrow> wb_shape w \<and> length (wd_slotq w) = length (wb_pending w) \<and>
     ring_ok (wd_slotq w) (wb_m w) (wd_mhead w) (wd_mtail w) \<and>
     0 < sint (wd_max_iov w)"

lemma write_dgram_new_ok:
  assumes "k < 31" and "length pend = 2 ^ k" and "length sq = 2 ^ k" and "length slots = 2 ^ k"
    and "0 < sint (mp_max_iov mp)"
  defines "w \<equiv> write_dgram_new pend sq slots mp (2 ^ k)"
  shows "wd_shape w" and "wb_plist w = []" and "wd_queue w = []" and "wd_max_iov w = mp_max_iov mp"
proof -
  note defs = write_dgram_new_def write_buf_new_def write_buf.defs write_dgram.defs
  show "wb_plist w = []" "wd_queue w = []" "wd_max_iov w = mp_max_iov mp"
    by (simp_all add: w_def defs wb_plist_def wd_queue_def ring_list_def)
  have m: "(2 ^ k :: i32) - 1 = mask k" by (simp add: mask_eq_exp_minus_1)
  have "wb_shape w"
    using assms(1-3) by (auto simp: w_def defs wb_shape_def m ucast_mask32 ring_ok_def)
  then show "wd_shape w"
    using assms(1-5) by (auto simp: wd_shape_def w_def defs m ucast_mask32 ring_ok_def)
qed

text \<open>
  What the kernel finds when it is given the header of slot \<open>s\<close>: \<^verbatim>\<open>msg_iovlen\<close> entries from \<^verbatim>\<open>msg_iov\<close> on,
  the bytes they point at, and \<^verbatim>\<open>msg_namelen\<close> with that many bytes of the address \<^verbatim>\<open>msg_name\<close> points at,
  if it is not null.
\<close>

definition slot_iovs :: "msghdr_pool \<Rightarrow> nat \<Rightarrow> iovec list" where
  "slot_iovs mp s =
     (let h = ms_hdr (mp_slots mp ! s) in
      case mh_iov h of None \<Rightarrow> [] | Some a \<Rightarrow> seg a (unat (mh_iovlen h)) (mp_iovecs mp))"

definition slot_payload :: "buf_pool \<Rightarrow> msghdr_pool \<Rightarrow> nat \<Rightarrow> byte list" where
  "slot_payload p mp s = concat (map (gather (bp_bufs p)) (slot_iovs mp s))"

definition slot_peer :: "msghdr_pool \<Rightarrow> nat \<Rightarrow> (u32 \<times> byte list) option" where
  "slot_peer mp s =
     (let h = ms_hdr (mp_slots mp ! s) in
      map_option (\<lambda>r. (mh_namelen h, take (unat (mh_namelen h)) (ms_addr (mp_slots mp ! r)))) (mh_name h))"

text \<open>Slot \<open>s\<close> carries the blocks \<open>is\<close>, in entries of its own.\<close>

definition block_iov :: "buf_pool \<Rightarrow> u32 \<Rightarrow> iovec" where
  "block_iov p i = \<lparr>iov_base = Some (bp_buf_addr p i), iov_len = ucast (bp_data_size p i)\<rparr>"

definition slot_carries :: "buf_pool \<Rightarrow> msghdr_pool \<Rightarrow> nat \<Rightarrow> u32 list \<Rightarrow> bool" where
  "slot_carries p mp s is \<longleftrightarrow>
     unat (mh_iovlen (ms_hdr (mp_slots mp ! s))) = length is \<and> length is \<le> unat (mp_max_iov mp) \<and>
     (is \<noteq> [] \<longrightarrow> mh_iov (ms_hdr (mp_slots mp ! s)) = Some (s * unat (mp_max_iov mp))) \<and>
     slot_iovs mp s = map (block_iov p) is"

lemma slot_carries_segment:
  "slot_carries p mp s is \<longleftrightarrow>
     unat (mh_iovlen (ms_hdr (mp_slots mp ! s))) = length is \<and> length is \<le> unat (mp_max_iov mp) \<and>
     (is \<noteq> [] \<longrightarrow> mh_iov (ms_hdr (mp_slots mp ! s)) = Some (s * unat (mp_max_iov mp))) \<and>
     take (length is) (mp_segment mp s) = map (block_iov p) is"
  by (cases "is = []")
    (auto simp: slot_carries_def slot_iovs_def mp_segment_def take_seg min_def Let_def seg_0 split: option.splits)

lemma gather_block_iov: "gather (bp_bufs p) (block_iov p i) = bp_block p i"
  by (simp add: gather_def block_iov_def bp_block_def)

lemma slot_carries_payload: "slot_carries p mp s is \<Longrightarrow> slot_payload p mp s = bp_bytes p is"
  by (simp add: slot_carries_def slot_payload_def bp_bytes_def gather_block_iov comp_def)

section \<open>Filling a slot\<close>

lemma wd_pop_ok:
  fixes w :: write_dgram
  assumes sh: "wb_shape w" and pl: "wb_plist w = i # is"
  shows "wb_pending_head w \<noteq> wb_pending_tail w"
    and "wb_pending w ! ring_slot (wb_m w) (wb_pending_head w) = i"
    and "wb_plist (w\<lparr>wb_pending_head := wb_pending_head w + 1\<rparr>) = is"
    and "wb_shape (w\<lparr>wb_pending_head := wb_pending_head w + 1\<rparr>)"
proof -
  show ne: "wb_pending_head w \<noteq> wb_pending_tail w" using pl wb_plist_empty [of w] by auto
  show "wb_pending w ! ring_slot (wb_m w) (wb_pending_head w) = i"
    and "wb_plist (w\<lparr>wb_pending_head := wb_pending_head w + 1\<rparr>) = is"
    using pl ring_list_pop [OF ne, of "wb_pending w" "wb_m w"] by (simp_all add: wb_plist_def)
  show "wb_shape (w\<lparr>wb_pending_head := wb_pending_head w + 1\<rparr>)"
    using sh ring_ok_pop(1) [OF wb_rings(1) [OF sh] ne] by (simp add: wb_shape_def)
qed

lemma blit_snoc:
  assumes "a + length xs + length ys \<le> length mem"
  shows "blit (a + length xs) ys (blit a xs mem) = blit a (xs @ ys) mem"
  using assms by (cases xs) (auto simp: blit_def drop_take min_def ac_simps)

lemma wd_fill_loop_ok:
  assumes "wb_shape w" and "unat c + length (wb_plist w) < 2 ^ 31"
    and "iov + unat c + length (wb_plist w) \<le> length (mp_iovecs mp)"
  shows "\<exists>h. wd_fill_loop iov c w p mp = Some (c + of_nat (length (wb_plist w)), w\<lparr>wb_pending_head := h\<rparr>,
           mp\<lparr>mp_iovecs := blit (iov + unat c) (map (block_iov p) (wb_plist w)) (mp_iovecs mp)\<rparr>) \<and>
         wb_plist (w\<lparr>wb_pending_head := h\<rparr>) = [] \<and> wb_shape (w\<lparr>wb_pending_head := h\<rparr>)"
  using assms
proof (induction "wb_plist w" arbitrary: w c mp)
  case Nil
  then have hd: "wb_pending_head w = wb_pending_tail w" using wb_plist_empty [of w] by simp
  then have "wd_fill_loop iov c w p mp = Some (c, w, mp)" by (simp add: wd_fill_loop.simps)
  then show ?case using Nil by (intro exI [of _ "wb_pending_head w"]) simp
next
  case (Cons i "is")
  note pl = Cons.hyps(2) [symmetric]
  note pop = wd_pop_ok [OF Cons.prems(1) pl]
  let ?w = "w\<lparr>wb_pending_head := wb_pending_head w + 1\<rparr>"
  let ?mp = "mp\<lparr>mp_iovecs := blit (iov + unat c) [block_iov p i] (mp_iovecs mp)\<rparr>"
  have bound: "unat c + Suc (length is) < 2 ^ 31" "iov + unat c + Suc (length is) \<le> length (mp_iovecs mp)"
    using Cons.prems(2,3) pl by simp_all
  have c1: "unat (c + 1) = Suc (unat c)"
    using bound(1) by (simp add: unat_word_ariths)
  have len: "length (mp_iovecs ?mp) = length (mp_iovecs mp)" using bound(2) by simp
  have call: "wd_fill_loop iov c w p mp = wd_fill_loop iov (c + 1) ?w p ?mp"
    using pop(1,2) bound(2)
    by (subst wd_fill_loop.simps) (simp add: Let_def copy_in_def block_iov_def)
  have "unat (c + 1) + length (wb_plist ?w) < 2 ^ 31"
      "iov + unat (c + 1) + length (wb_plist ?w) \<le> length (mp_iovecs ?mp)"
    using bound len by (simp_all add: c1 pop(3))
  from Cons.hyps(1) [OF pop(3) [symmetric] pop(4) this]
  obtain h where IH: "wd_fill_loop iov (c + 1) ?w p ?mp =
        Some (c + 1 + of_nat (length is), w\<lparr>wb_pending_head := h\<rparr>,
          ?mp\<lparr>mp_iovecs := blit (iov + unat (c + 1)) (map (block_iov p) is) (mp_iovecs ?mp)\<rparr>)"
      "wb_plist (w\<lparr>wb_pending_head := h\<rparr>) = []" "wb_shape (w\<lparr>wb_pending_head := h\<rparr>)"
    unfolding pop(3) by auto
  have "blit (iov + unat (c + 1)) (map (block_iov p) is) (mp_iovecs ?mp) =
      blit (iov + unat c) (map (block_iov p) (i # is)) (mp_iovecs mp)"
    using blit_snoc [of "iov + unat c" "[block_iov p i]" "map (block_iov p) is" "mp_iovecs mp"] bound(2)
    by (simp add: c1)
  then show ?case using call IH by (intro exI [of _ h]) (simp add: pl add.assoc)
qed

text \<open>When \<^verbatim>\<open>submit\<close> accepts: something is pending, the slot queue has room, the slot has entries enough.\<close>

definition wd_accepts :: "write_dgram \<Rightarrow> bool" where
  "wd_accepts w \<longleftrightarrow> wb_plist w \<noteq> [] \<and> length (wd_queue w) < length (wb_pending w) \<and>
     length (wb_plist w) \<le> unat (wd_max_iov w)"

lemma wd_submit_guards:
  assumes sh: "wd_shape w"
  shows "wb_pending_tail w - wb_pending_head w = 0 \<longleftrightarrow> wb_plist w = []"
    and "wb_cap w \<le> wd_mtail w - wd_mhead w \<longleftrightarrow> length (wb_pending w) \<le> length (wd_queue w)"
    and "scast (wd_max_iov w) < wb_pending_tail w - wb_pending_head w \<longleftrightarrow>
           unat (wd_max_iov w) < length (wb_plist w)"
proof -
  have wsh: "wb_shape w" and "0 \<le> sint (wd_max_iov w)" using sh by (simp_all add: wd_shape_def)
  then show "wb_pending_tail w - wb_pending_head w = 0 \<longleftrightarrow> wb_plist w = []"
    and "wb_cap w \<le> wd_mtail w - wd_mhead w \<longleftrightarrow> length (wb_pending w) \<le> length (wd_queue w)"
    and "scast (wd_max_iov w) < wb_pending_tail w - wb_pending_head w \<longleftrightarrow>
           unat (wd_max_iov w) < length (wb_plist w)"
    using wb_cap_unat(1) [OF wsh]
    by (auto simp: wb_plist_empty word_le_nat_alt word_less_nat_alt wd_queue_def wb_plist_length scast_nonneg)
qed

lemma wd_submit_refused:
  assumes sh: "wd_shape w" and no: "s = None \<or> \<not> wd_accepts w"
  shows "wd_submit s w p mp = Some (False, w, mp)"
  using no wd_submit_guards [OF sh] by (auto simp: wd_submit_def wd_accepts_def Let_def split: option.split)

definition slot_same_peer :: "nat \<Rightarrow> msghdr_pool \<Rightarrow> msghdr_pool \<Rightarrow> bool" where
  "slot_same_peer s mp mp' \<longleftrightarrow> ms_addr (mp_slots mp' ! s) = ms_addr (mp_slots mp ! s) \<and>
     mh_name (ms_hdr (mp_slots mp' ! s)) = mh_name (ms_hdr (mp_slots mp ! s)) \<and>
     mh_namelen (ms_hdr (mp_slots mp' ! s)) = mh_namelen (ms_hdr (mp_slots mp ! s))"

definition wd_submit_post ::
  "nat \<Rightarrow> write_dgram \<Rightarrow> buf_pool \<Rightarrow> msghdr_pool \<Rightarrow> write_dgram \<Rightarrow> msghdr_pool \<Rightarrow> bool" where
  "wd_submit_post s w p mp w' mp' \<longleftrightarrow>
     wd_shape w' \<and> wb_plist w' = [] \<and> wd_queue w' = wd_queue w @ [s] \<and> wd_max_iov w' = wd_max_iov w \<and>
     mp_shape mp' \<and> mp_frame {s} mp mp' \<and> mp_free mp' = mp_free mp \<and>
     slot_carries p mp' s (wb_plist w) \<and> slot_same_peer s mp mp'"

text \<open>The slot after the loop: entries of slot \<open>s\<close> written, all others as before.\<close>

lemma mp_fill_segment:
  assumes sh: "mp_shape mp" and s: "s < length (mp_slots mp)" and le: "length xs \<le> unat (mp_max_iov mp)"
  defines "n \<equiv> unat (mp_max_iov mp)"
  shows "s * n + length xs \<le> length (mp_iovecs mp)"
    and "take (length xs) (seg (s * n) n (blit (s * n) xs (mp_iovecs mp))) = xs"
    and "r < length (mp_slots mp) \<Longrightarrow> r \<noteq> s \<Longrightarrow>
      seg (r * n) n (blit (s * n) xs (mp_iovecs mp)) = seg (r * n) n (mp_iovecs mp)"
proof -
  have len: "length (mp_iovecs mp) = length (mp_slots mp) * n" using sh by (simp add: mp_shape_def n_def)
  show in_range: "s * n + length xs \<le> length (mp_iovecs mp)"
    using block_inside [OF s le] len by (simp add: n_def)
  show "take (length xs) (seg (s * n) n (blit (s * n) xs (mp_iovecs mp))) = xs"
    using seg_blit_extend [of "s * n" 0 xs "mp_iovecs mp"] in_range le by (simp add: take_seg min_def n_def)
  show "seg (r * n) n (blit (s * n) xs (mp_iovecs mp)) = seg (r * n) n (mp_iovecs mp)"
    if "r < length (mp_slots mp)" "r \<noteq> s"
    using block_disjoint [OF that(2), of n n "length xs"] in_range le by (intro seg_blit_other) (auto simp: n_def)
qed

lemma wd_submit_accepted:
  assumes sh: "wd_shape w" and acc: "wd_accepts w" and mp: "mp_shape mp" "s < length (mp_slots mp)"
    and iov: "mp_max_iov mp = wd_max_iov w"
  shows "\<exists>w' mp'. wd_submit (Some s) w p mp = Some (True, w', mp') \<and> wd_submit_post s w p mp w' mp'"
proof -
  let ?n = "unat (mp_max_iov mp)" and ?xs = "map (block_iov p) (wb_plist w)" and ?l = "length (wb_plist w)"
  have wsh: "wb_shape w" and ok: "ring_ok (wd_slotq w) (wb_m w) (wd_mhead w) (wd_mtail w)"
    using sh by (simp_all add: wd_shape_def)
  have le: "length ?xs \<le> ?n" using acc iov by (simp add: wd_accepts_def)
  note seg = mp_fill_segment [OF mp le]
  have lt: "?l < 2 ^ 31"
    using wb_pending_bound [OF wsh] ring_count [OF wb_rings(1) [OF wsh]] by (simp add: wb_plist_length)
  have off: "ms_iov (mp_slots mp ! s) = s * ?n" using mp by (simp add: mp_shape_def)
  define mp1 where "mp1 = mp\<lparr>mp_iovecs := blit (s * ?n) ?xs (mp_iovecs mp)\<rparr>"
  obtain h where fill: "wd_fill_loop (s * ?n) 0 w p mp = Some (of_nat ?l, w\<lparr>wb_pending_head := h\<rparr>, mp1)"
      "wb_plist (w\<lparr>wb_pending_head := h\<rparr>) = []" "wb_shape (w\<lparr>wb_pending_head := h\<rparr>)"
    using wd_fill_loop_ok [OF wsh, of 0 "s * ?n" mp p] lt seg(1) by (auto simp: mp1_def)
  define w1 where "w1 = w\<lparr>wb_pending_head := h, wd_slotq := (wd_slotq w)[ring_slot (wb_m w) (wd_mtail w) := s],
    wd_mtail := wd_mtail w + 1\<rparr>"
  define mp2 where "mp2 = mp_set_hdr s (\<lambda>h. h\<lparr>mh_iov := Some (s * ?n), mh_iovlen := scast (of_nat ?l :: i32)\<rparr>) mp1"
  have call: "wd_submit (Some s) w p mp = Some (True, w1, mp2)"
    using acc wd_submit_guards [OF sh] fill(1) off
    by (simp add: wd_submit_def wd_accepts_def Let_def w1_def mp2_def mp1_def)
  have room: "unat (wd_mtail w - wd_mhead w) < length (wd_slotq w)"
    using acc sh by (simp add: wd_accepts_def wd_shape_def wd_queue_def)
  have w1: "wd_shape w1" "wb_plist w1 = []" "wd_queue w1 = wd_queue w @ [s]" "wd_max_iov w1 = wd_max_iov w"
    using sh fill(2,3) ring_ok_push(1) [OF ok room] ring_list_push [OF ok room]
    by (simp_all add: w1_def wd_shape_def wb_shape_def wb_plist_def wd_queue_def)
  have sl: "mp_max_iov mp2 = mp_max_iov mp"
      "mp_iovecs mp2 = blit (s * ?n) ?xs (mp_iovecs mp)" "mp_free mp2 = mp_free mp"
    using mp(2) by (simp_all add: mp2_def mp1_def mp_set_hdr_def mp_free_def)
  have slot: "mp_slots mp2 ! s = (mp_slots mp ! s)\<lparr>ms_hdr := (ms_hdr (mp_slots mp ! s))
      \<lparr>mh_iov := Some (s * ?n), mh_iovlen := scast (of_nat ?l :: i32)\<rparr>\<rparr>"
    using mp(2) by (simp add: mp2_def mp1_def mp_set_hdr_def)
  have "mp_slots mp2 ! r = mp_slots mp ! r" if "r \<noteq> s" for r
    using that by (simp add: mp2_def mp1_def mp_set_hdr_def)
  moreover have "length (mp_slots mp2) = length (mp_slots mp)"
    by (simp add: mp2_def mp1_def mp_set_hdr_def)
  ultimately have "mp_frame {s} mp mp2"
    using sl(1,2) seg(3) by (simp add: mp_frame_def mp_handles_def mp_segment_def)
  moreover have "mp_shape mp2"
    using mp seg(1) slot by (auto simp: mp_shape_def mp2_def mp1_def mp_set_hdr_def nth_list_update)
  moreover have "slot_carries p mp2 s (wb_plist w)"
    using seg(2) lt le by (simp add: slot_carries_segment slot unat_scast_of_nat mp_segment_def sl(1,2))
  moreover have "slot_same_peer s mp mp2" by (simp add: slot_same_peer_def slot)
  ultimately show ?thesis using call w1 sl(3) by (auto simp: wd_submit_post_def)
qed

section \<open>Releasing a slot\<close>

text \<open>A slot that carries \<open>is\<close> gives exactly these blocks back.\<close>

lemma release_iovs_eq:
  assumes "\<And>j. j \<in> set js \<Longrightarrow> iov + j < length (mp_iovecs mp) \<and> mp_iovecs mp ! (iov + j) = block_iov q (is ! j)"
    and "bp_shape q" and "\<And>j. j \<in> set js \<Longrightarrow> is ! j \<in> bp_blocks q"
    and "bp_bsize p = bp_bsize q"
  shows "release_iovs iov js mp p = release_all bp_release (map (\<lambda>j. is ! j) js) p"
  using assms
proof (induction js arbitrary: p)
  case Nil
  then show ?case by simp
next
  case (Cons j js)
  have idx: "bp_buf_index p (bp_buf_addr q (is ! j)) = is ! j"
    using bp_buf_index_addr [OF Cons.prems(2), of "is ! j"] Cons.prems(3) [of j] Cons.prems(4)
    by (simp add: bp_buf_index_def)
  have rel: "bp_release i p = Some p' \<Longrightarrow> bp_bsize p' = bp_bsize q" for i p'
    using Cons.prems(4) by (auto simp: bp_release_def split: if_splits)
  have "release_iovs iov js mp p' = release_all bp_release (map (\<lambda>j. is ! j) js) p'"
    if "bp_release (is ! j) p = Some p'" for p'
    using Cons.IH [of p'] Cons.prems rel [OF that] by auto
  then show ?case
    using Cons.prems(1) [of j] idx
    by (auto simp: block_iov_def bp_release_ptr_def intro: Option.bind_cong)
qed

lemma wd_release_slot_ok:
  assumes mp: "mp_inv mp" "s \<in> mp_handles mp" "s \<notin> set (mp_free mp)"
    and car: "slot_carries p mp s is" and own: "bp_owned p (is @ rest)"
  shows "\<exists>p' mp'. wd_release_slot s p mp = Some (p', mp') \<and> mp_inv mp' \<and> mp_free mp' = mp_free mp @ [s] \<and>
    mp_frame {s} mp mp' \<and> bp_owned p' rest \<and> bp_free p' = bp_free p @ is \<and> bp_frame (set is) p p'"
proof -
  let ?n = "unat (mp_max_iov mp)" and ?l = "unat (mh_iovlen (ms_hdr (mp_slots mp ! s)))"
  have sh: "mp_shape mp" and s: "s < length (mp_slots mp)"
    using mp by (simp_all add: mp_inv_def mp_handles_def)
  have off: "ms_iov (mp_slots mp ! s) = s * ?n" and len: "length (mp_iovecs mp) = length (mp_slots mp) * ?n"
    using sh s by (simp_all add: mp_shape_def)
  have l: "?l = length is" and iovs: "take (length is) (mp_segment mp s) = map (block_iov p) is"
    using car by (simp_all add: slot_carries_segment)
  have seg: "length (mp_segment mp s) = ?n"
    using block_inside [OF s, of ?n ?n] len by (simp add: mp_segment_def length_seg)
  have le: "length is \<le> ?n" using arg_cong [OF iovs, of length] seg by simp
  have entry: "s * ?n + j < length (mp_iovecs mp) \<and> mp_iovecs mp ! (s * ?n + j) = block_iov p (is ! j)"
    if "j \<in> set [0..<length is]" for j
  proof -
    have j: "j < length is" "j < ?n" using that le by simp_all
    have "s * ?n + Suc j \<le> length (mp_slots mp) * ?n" using block_inside [OF s, of "Suc j" ?n] j by simp
    moreover have "mp_segment mp s ! j = block_iov p (is ! j)"
      using arg_cong [OF iovs, of "\<lambda>xs. xs ! j"] j by simp
    moreover from calculation(1) have "s * ?n \<le> length (mp_iovecs mp)" using len by linarith
    ultimately show ?thesis using j len by (simp add: mp_segment_def seg_def)
  qed
  have psh: "bp_shape p" using bp_ownedD(1) [OF own] by (simp add: bp_inv_def)
  have "release_iovs (s * ?n) [0..<length is] mp p = release_all bp_release (map (\<lambda>j. is ! j) [0..<length is]) p"
    using bp_ownedD(2) [OF own] by (intro release_iovs_eq [where q = p] entry psh) auto
  then have "release_iovs (s * ?n) [0..<?l] mp p = release_all bp_release is p"
    by (simp add: l map_nth)
  moreover obtain p' where "release_all bp_release is p = Some p'" "bp_owned p' rest"
      "bp_free p' = bp_free p @ is" "bp_frame (set is) p p'"
    using bp_owned_release_all [OF own] by blast
  moreover obtain mp' where "mp_release s mp = Some mp'" "mp_inv mp'" "mp_free mp' = mp_free mp @ [s]"
      "mp_frame {s} mp mp'"
    using mp_release_inv [OF mp] by blast
  ultimately show ?thesis by (simp add: wd_release_slot_def off)
qed

end
