(* ===== verification/Udp_Channel.thy ===== *)
theory Udp_Channel
  imports Write_Dgram Awaiter Io_Ring
begin

text \<open>
  The sending half of a UDP worker: \<^verbatim>\<open>UdpChannel::submit\<close> (\<^verbatim>\<open>include/net/channel.hpp\<close>), the coroutine
  \<^verbatim>\<open>udp_write_loop\<close> (\<^verbatim>\<open>src/net/handler.cpp\<close>) and \<^verbatim>\<open>MsgToken::complete\<close> (\<^verbatim>\<open>src/core/awaiter.cpp\<close>), over one
  worker's pools and ring. liburing is the parameter \<open>api\<close>; prepared entries are logged in \<open>ud_sqes\<close>.
  \<open>ud_writing\<close> says whether the coroutine is alive: an exception ends it, because
  \<^verbatim>\<open>unhandled_exception\<close> of its promise does nothing.
\<close>

section \<open>State\<close>

datatype udp_ptr = Slot_Hdr nat | Recv_Msghdr | Udp_Wakeup_Buf

datatype udp_tok = Read_Tok | Slot_Tok nat

record 'r udp_worker =
  ud_fd :: i32
  ud_notify :: "unit notify_token"
  ud_wbuf :: write_dgram
  ud_pool :: buf_pool
  ud_mp :: msghdr_pool
  ud_ring :: "'r io_ring"
  ud_sqes :: "(udp_ptr, udp_tok) sqe list"
  ud_writing :: bool

type_synonym ('r, 'q) udp_api = "('r, 'q, udp_tok) uring"

section \<open>The write coroutine\<close>

text \<open>
  The \<^verbatim>\<open>for\<close> loop over the queued slots. The first component of the result says whether \<^verbatim>\<open>get_sqe\<close>
  threw; \<^term>\<open>None\<close> is a null slot.
\<close>

fun udp_send_slots :: "('r, 'q) udp_api \<Rightarrow> nat list \<Rightarrow> 'r udp_worker \<Rightarrow> (bool \<times> 'r udp_worker) option" where
  "udp_send_slots api [] u = Some (False, u)"
| "udp_send_slots api (i # is) u =
     (case wd_peek_slot (of_nat i) (ud_wbuf u) of
        None \<Rightarrow> None
      | Some s \<Rightarrow>
        let u1 = u\<lparr>ud_mp := (ud_mp u)\<lparr>mp_slots := (mp_slots (ud_mp u))[s := (mp_slots (ud_mp u) ! s)\<lparr>ms_channel := True\<rparr>]\<rparr>\<rparr>
        in case get_sqe api (ud_ring u1) of
          (Inl _, ring) \<Rightarrow> Some (True, u1\<lparr>ud_ring := ring\<rparr>)
        | (Inr sqe, ring) \<Rightarrow>
            udp_send_slots api is (u1\<lparr>ud_ring := ring, ud_sqes := ud_sqes u1 @
              [set_data (Tok (Slot_Tok s)) (prep_sendmsg (ud_fd u1) (Some (Slot_Hdr s)) 0 sqe)]\<rparr>))"

text \<open>One turn of the coroutine: send what is queued, clear the queue. An exception ends it.\<close>

definition udp_write_turn :: "('r, 'q) udp_api \<Rightarrow> 'r udp_worker \<Rightarrow> 'r udp_worker option" where
  "udp_write_turn api u =
     (case udp_send_slots api [0..<nat (sint (wd_slot_queue_size (ud_wbuf u)))] u of
        None \<Rightarrow> None
      | Some (True, u') \<Rightarrow> Some (u'\<lparr>ud_writing := False\<rparr>)
      | Some (False, u') \<Rightarrow> Some (u'\<lparr>ud_wbuf := wd_clear_slot_queue (ud_wbuf u')\<rparr>))"

lemma udp_send_slots_notify:
  "udp_send_slots api is u = Some (b, u') \<Longrightarrow> ud_notify u' = ud_notify u \<and> ud_writing u' = ud_writing u"
proof (induction "is" arbitrary: u)
  case Nil
  then show ?case by simp
next
  case (Cons i "is")
  then show ?case by (auto simp: Let_def split: option.splits prod.splits sum.splits)
qed

lemma udp_write_turn_notify: "udp_write_turn api u = Some u' \<Longrightarrow> ud_notify u' = ud_notify u"
  by (auto simp: udp_write_turn_def split: option.splits prod.splits bool.splits dest: udp_send_slots_notify)

text \<open>From the \<^verbatim>\<open>co_await\<close> on: go on while the token is ready, suspend otherwise.\<close>

function udp_write_await :: "('r, 'q) udp_api \<Rightarrow> 'r udp_worker \<Rightarrow> 'r udp_worker option" where
  "udp_write_await api u =
     (case nt_co_await () (ud_notify u) of
        (False, t) \<Rightarrow> Some (u\<lparr>ud_notify := t\<rparr>)
      | (True, t) \<Rightarrow> do {
          u' \<leftarrow> udp_write_turn api (u\<lparr>ud_notify := t\<rparr>);
          if ud_writing u' then udp_write_await api u' else Some u' })"
  by pat_completeness auto
termination
  by (relation "measure (\<lambda>(api, u). if nt_pending (ud_notify u) then 1 else 0)")
    (auto dest!: udp_write_turn_notify simp: nt_defs split: if_splits)

declare udp_write_await.simps [simp del]

text \<open>Resuming the suspended coroutine.\<close>

definition udp_write_resume :: "('r, 'q) udp_api \<Rightarrow> 'r udp_worker \<Rightarrow> 'r udp_worker option" where
  "udp_write_resume api u = do {
     u' \<leftarrow> udp_write_turn api u;
     if ud_writing u' then udp_write_await api u' else Some u' }"

definition udp_notify :: "('r, 'q) udp_api \<Rightarrow> 'r udp_worker \<Rightarrow> 'r udp_worker option" where
  "udp_notify api u =
     (case nt_notify (ud_notify u) of
        (Some _, t) \<Rightarrow> udp_write_resume api (u\<lparr>ud_notify := t\<rparr>)
      | (None, t) \<Rightarrow> Some (u\<lparr>ud_notify := t\<rparr>))"

text \<open>\<^verbatim>\<open>UdpChannel::assign\<close>, write half: the coroutine starts and runs up to its first \<^verbatim>\<open>co_await\<close>.\<close>

definition udp_assign_write :: "('r, 'q) udp_api \<Rightarrow> i32 \<Rightarrow> 'r udp_worker \<Rightarrow> 'r udp_worker option" where
  "udp_assign_write api fd u = udp_write_await api (u\<lparr>ud_fd := fd, ud_writing := True\<rparr>)"

section \<open>The channel\<close>

text \<open>
  \<^verbatim>\<open>submit(const sockaddr*, socklen_t)\<close>. The \<^verbatim>\<open>memcpy\<close> into \<^verbatim>\<open>slot->addr\<close> must stay inside both objects.
\<close>

definition mp_set_peer :: "nat \<Rightarrow> byte list \<Rightarrow> u32 \<Rightarrow> msghdr_pool \<Rightarrow> msghdr_pool option" where
  "mp_set_peer s addr namelen mp =
     (if unat namelen \<le> length addr
      then map_option (\<lambda>a. mp_set_hdr s (\<lambda>h. h\<lparr>mh_namelen := namelen\<rparr>)
               (mp\<lparr>mp_slots := (mp_slots mp)[s := (mp_slots mp ! s)\<lparr>ms_addr := a\<rparr>]\<rparr>))
             (copy_in 0 (take (unat namelen) addr) (ms_addr (mp_slots mp ! s)))
      else None)"

definition udp_submit ::
  "('r, 'q) udp_api \<Rightarrow> byte list \<Rightarrow> u32 \<Rightarrow> 'r udp_worker \<Rightarrow> (bool \<times> 'r udp_worker) option" where
  "udp_submit api addr namelen u =
     (case wd_acquire_slot (ud_mp u) of
        (None, mp1) \<Rightarrow> do {
          (w', p') \<leftarrow> wb_discard_pending (ud_wbuf u) (ud_pool u);
          Some (False, u\<lparr>ud_mp := mp1, ud_wbuf := w', ud_pool := p'\<rparr>) }
      | (Some s, mp1) \<Rightarrow> do {
          mp2 \<leftarrow> mp_set_peer s addr namelen mp1;
          (ok, w1, mp3) \<leftarrow> wd_submit (Some s) (ud_wbuf u) (ud_pool u) mp2;
          if \<not> ok then do {
            (p1, mp4) \<leftarrow> wd_release_slot s (ud_pool u) mp3;
            (w2, p2) \<leftarrow> wb_discard_pending w1 p1;
            Some (False, u\<lparr>ud_mp := mp4, ud_wbuf := w2, ud_pool := p2\<rparr>) }
          else map_option (Pair True) (udp_notify api (u\<lparr>ud_mp := mp3, ud_wbuf := w1\<rparr>)) })"

text \<open>\<^verbatim>\<open>submit(const IpAddress &)\<close>, which notifies a second time.\<close>

definition udp_submit_ip ::
  "('r, 'q) udp_api \<Rightarrow> byte list \<Rightarrow> u32 \<Rightarrow> 'r udp_worker \<Rightarrow> (bool \<times> 'r udp_worker) option" where
  "udp_submit_ip api addr len u = do {
     (ok, u') \<leftarrow> udp_submit api addr len u;
     if \<not> ok then Some (False, u') else map_option (Pair True) (udp_notify api u') }"

definition udp_append ::
  "byte list \<Rightarrow> u32 \<Rightarrow> 'r udp_worker \<Rightarrow> (bool \<times> 'r udp_worker) option" where
  "udp_append data sz u =
     map_option (\<lambda>(b, w, p). (b, u\<lparr>ud_wbuf := w, ud_pool := p\<rparr>)) (wb_append data sz (ud_wbuf u) (ud_pool u))"

definition udp_prepend ::
  "byte list \<Rightarrow> u32 \<Rightarrow> 'r udp_worker \<Rightarrow> (bool \<times> 'r udp_worker) option" where
  "udp_prepend data sz u =
     map_option (\<lambda>(b, w, p). (b, u\<lparr>ud_wbuf := w, ud_pool := p\<rparr>)) (wb_prepend data sz (ud_wbuf u) (ud_pool u))"

text \<open>
  \<^verbatim>\<open>MsgToken::complete\<close> up to the call of \<^verbatim>\<open>on_write\<close>, which is the application's. A token whose
  \<^verbatim>\<open>channel_\<close> was never set is a null dereference.
\<close>

definition msg_token_complete :: "nat \<Rightarrow> 'r udp_worker \<Rightarrow> 'r udp_worker option" where
  "msg_token_complete s u =
     (if ms_channel (mp_slots (ud_mp u) ! s)
      then map_option (\<lambda>(p, mp). u\<lparr>ud_pool := p, ud_mp := mp\<rparr>) (wd_release_slot s (ud_pool u) (ud_mp u))
      else None)"

end
