(* ===== verification/Read_Dgram.thy ===== *)
theory Read_Dgram
  imports Read_Stream Msghdr_Pool
begin

text \<open>
  \<^verbatim>\<open>ReadBufDgram\<close> (\<^verbatim>\<open>include/buffer/buffer.hpp\<close>, \<^verbatim>\<open>src/buffer/buffer.cpp\<close>) and \<^verbatim>\<open>DgramMsg\<close> (\<^verbatim>\<open>include/buffer/dgram_msg.hpp\<close>): the
  receive side of a UDP channel, one datagram per receive buffer. How liburing lays a received message out in a
  buffer is the parameter \<open>recvmsg\<close>; what its functions are documented to return is \<open>recvmsg_documented\<close>. \<^term>\<open>None\<close> is a failed
  assertion.
\<close>

section \<open>Messages\<close>

record recv_msghdr = msghdr +
  mh_controllen :: u64

text \<open>
  The four inline functions on \<^verbatim>\<open>io_uring_recvmsg_out\<close>: a buffer is given by the bytes received into it, and a pointer
  into it by its offset from the start of the buffer.
\<close>

record recvmsg =
  io_uring_recvmsg_validate :: "byte list \<Rightarrow> recv_msghdr \<Rightarrow> bool"
  recvmsg_out_namelen :: "byte list \<Rightarrow> u32"
  io_uring_recvmsg_name :: "byte list \<Rightarrow> nat"
  io_uring_recvmsg_payload :: "byte list \<Rightarrow> recv_msghdr \<Rightarrow> nat"
  io_uring_recvmsg_payload_length :: "byte list \<Rightarrow> u32 \<Rightarrow> recv_msghdr \<Rightarrow> u32"

record dgram_msg =
  dm_buf :: nat
  dm_size :: u32
  dm_msghdr :: recv_msghdr

definition dgram_msg_new :: "recvmsg \<Rightarrow> byte list \<Rightarrow> nat \<Rightarrow> u32 \<Rightarrow> recv_msghdr \<Rightarrow> dgram_msg option" where
  "dgram_msg_new rm mem buf sz hdr =
     (if io_uring_recvmsg_validate rm (seg buf (unat sz) mem) hdr
      then Some \<lparr>dm_buf = buf, dm_size = sz, dm_msghdr = hdr\<rparr> else None)"

text \<open>The bytes of the message, and the getters.\<close>

definition dm_out :: "byte list \<Rightarrow> dgram_msg \<Rightarrow> byte list" where
  "dm_out mem m = seg (dm_buf m) (unat (dm_size m)) mem"

definition peer_addr :: "recvmsg \<Rightarrow> byte list \<Rightarrow> dgram_msg \<Rightarrow> nat" where
  "peer_addr rm mem m = dm_buf m + io_uring_recvmsg_name rm (dm_out mem m)"

definition peer_namelen :: "recvmsg \<Rightarrow> byte list \<Rightarrow> dgram_msg \<Rightarrow> u32" where
  "peer_namelen rm mem m = recvmsg_out_namelen rm (dm_out mem m)"

definition payload :: "recvmsg \<Rightarrow> byte list \<Rightarrow> dgram_msg \<Rightarrow> nat" where
  "payload rm mem m = dm_buf m + io_uring_recvmsg_payload rm (dm_out mem m) (dm_msghdr m)"

definition payload_length :: "recvmsg \<Rightarrow> byte list \<Rightarrow> dgram_msg \<Rightarrow> u32" where
  "payload_length rm mem m = io_uring_recvmsg_payload_length rm (dm_out mem m) (dm_size m) (dm_msghdr m)"

section \<open>The buffer\<close>

record read_dgram = read_buf +
  rd_msghdr :: recv_msghdr
  rd_peeked :: "dgram_msg option"

text \<open>\<^verbatim>\<open>sizeof(sockaddr_in)\<close>\<close>

definition sockaddr_in_size :: nat where
  "sockaddr_in_size = 16"

definition recv_msghdr_new :: recv_msghdr where
  "recv_msghdr_new = \<lparr>mh_name = None, mh_namelen = of_nat sockaddr_in_size, mh_iov = None, mh_iovlen = 0, mh_controllen = 0\<rparr>"

definition read_dgram_new :: "u32 list \<Rightarrow> nat list \<Rightarrow> u32 list \<Rightarrow> u32 \<Rightarrow> buf_ring \<Rightarrow> read_dgram" where
  "read_dgram_new queue pdata psize pcount b =
     read_buf.extend (read_buf_new queue pdata psize pcount b) (read_dgram.fields recv_msghdr_new None)"

definition rd_head_idx :: "read_dgram \<Rightarrow> u32" where
  "rd_head_idx r = rb_queue r ! ring_slot (rb_mask r) (rb_head r)"

definition rd_peek :: "recvmsg \<Rightarrow> buf_ring \<Rightarrow> read_dgram \<Rightarrow> (dgram_msg option \<times> read_dgram) option" where
  "rd_peek rm b r =
     (if rb_empty r then Some (None, r)
      else do {
        m \<leftarrow> dgram_msg_new rm (br_bufs b) (br_buf_addr b (rd_head_idx r)) (br_data_size b (rd_head_idx r)) (rd_msghdr r);
        Some (Some m, r\<lparr>rd_peeked := Some m\<rparr>) })"

definition rd_consume :: "read_dgram \<Rightarrow> buf_ring \<Rightarrow> bool \<times> read_dgram \<times> buf_ring" where
  "rd_consume r b =
     (if rb_empty r then (False, r, b)
      else (True, r\<lparr>rb_bytes := rb_bytes r - br_data_size b (rd_head_idx r), rb_head := rb_head r + 1\<rparr>,
             br_release (rd_head_idx r) b))"

section \<open>A queue of datagrams\<close>

definition rd_inv :: "buf_ring \<Rightarrow> read_dgram \<Rightarrow> bool" where
  "rd_inv b r \<longleftrightarrow> rb_shape r \<and> rb_filled b (rb_list r) \<and> length (rb_queue r) = unat (br_num b) \<and>
     rb_bytes r = of_nat (length (br_bytes b (rb_list r)))"

lemma rd_invI:
  assumes "rb_shape r" "rb_filled b (rb_list r)" "length (rb_queue r) = unat (br_num b)"
    "rb_bytes r = of_nat (length (br_bytes b (rb_list r)))"
  shows "rd_inv b r"
  using assms by (simp add: rd_inv_def)

lemma rd_invD:
  assumes "rd_inv b r"
  shows "rb_shape r" "rb_filled b (rb_list r)" "br_shape b" "length (rb_queue r) = unat (br_num b)"
    "rb_bytes r = of_nat (length (br_bytes b (rb_list r)))"
  using assms by (auto simp: rd_inv_def rb_filled_def)

lemma read_dgram_new_ok:
  assumes sh: "br_shape b" and len: "length q = unat (br_num b)" "length pd = unat (br_num b)" "length ps = unat (br_num b)"
  shows "rd_inv b (read_dgram_new q pd ps n b)" and "rb_list (read_dgram_new q pd ps n b) = []"
    and "rd_msghdr (read_dgram_new q pd ps n b) = recv_msghdr_new"
proof -
  let ?r = "read_dgram_new q pd ps n b"
  note defs = read_dgram_new_def read_buf_new_def read_buf.defs read_dgram.defs
  obtain k where k: "k \<le> 15" "br_num b = 2 ^ k" "unat (br_num b) = 2 ^ k" using sh by (auto simp: br_shape_def)
  have m: "(2 ^ k :: i32) - 1 = mask k" by (simp add: mask_eq_exp_minus_1)
  show l: "rb_list ?r = []" by (simp add: defs rb_list_def ring_list_def)
  show "rd_msghdr ?r = recv_msghdr_new" by (simp add: defs)
  have "rb_shape ?r" using k len by (auto simp: defs rb_shape_def m ring_ok_def)
  then show "rd_inv b ?r" using sh len(1) by (intro rd_invI) (simp_all add: l rb_filled_def, simp_all add: defs)
qed

text \<open>A buffer outside the queue finds room in it, since the queue has as many places as there are buffers.\<close>

lemma rd_push_ok:
  assumes inv: "rd_inv b r" and new: "rb_filled b (rb_list r @ [i])"
  shows "\<exists>r'. rb_push_buf i b r = (True, r') \<and> rd_inv b r' \<and> rb_list r' = rb_list r @ [i] \<and> rd_msghdr r' = rd_msghdr r"
proof -
  note I = rd_invD [OF inv]
  have "length (rb_list r) < length (rb_queue r)"
    using rb_filled_length [OF new] I(4) by simp
  from rb_push_ok [OF I(1) this, of i b] obtain r' where r': "rb_push_buf i b r = (True, r')" "rb_shape r'"
      "rb_list r' = rb_list r @ [i]" "rb_bytes r' = rb_bytes r + br_data_size b i" "read_buf.more r' = read_buf.more r" by blast
  have "length (rb_queue r') = length (rb_queue r)" using r'(1) by (auto simp: rb_push_buf_def split: if_splits)
  moreover have "rb_bytes r' = of_nat (length (br_bytes b (rb_list r')))"
    using r'(3,4) I(5) rb_filled_block(1) [OF new, of i] by simp
  ultimately have "rd_inv b r'" using r'(2,3) I(4) new by (intro rd_invI) simp_all
  moreover have "rd_msghdr r' = rd_msghdr r" using r'(5) by (cases r; cases r'; simp)
  ultimately show ?thesis using r' by blast
qed

lemma rd_head_list: "rb_list r = i # is \<Longrightarrow> \<not> rb_empty r \<and> rd_head_idx r = i \<and>
    ring_list (rb_queue r) (rb_mask r) (rb_head r + 1) (rb_tail r) = is"
  using ring_list_pop [of "rb_head r" "rb_tail r" "rb_queue r" "rb_mask r"] rb_list_empty [of r]
  by (auto simp: rb_list_def rb_empty_def rd_head_idx_def)

lemma rd_consume_ok:
  assumes inv: "rd_inv b r" and l: "rb_list r = i # is"
  shows "\<exists>r'. rd_consume r b = (True, r', br_release i b) \<and> rd_inv (br_release i b) r' \<and> rb_list r' = is \<and>
    rd_msghdr r' = rd_msghdr r"
proof -
  note I = rd_invD [OF inv] and h = rd_head_list [OF l]
  let ?r = "r\<lparr>rb_bytes := rb_bytes r - br_data_size b i, rb_head := rb_head r + 1\<rparr>"
  have f: "rb_filled b (i # is)" using I(2) l by simp
  have l': "rb_list ?r = is" using h by (simp add: rb_list_def)
  have "rb_head r \<noteq> rb_tail r" using l rb_list_empty [of r] by auto
  then have "rb_shape ?r" using I(1) ring_ok_pop(1) by (auto simp: rb_shape_def)
  moreover have "rb_bytes ?r = of_nat (length (br_bytes b is))"
    using I(5) rb_filled_block(1) [OF f, of i] by (simp add: l)
  ultimately have "rd_inv (br_release i b) ?r"
    using rb_filled_release [OF f] I(4) l' by (intro rd_invI) (simp_all only:, simp_all)
  then show ?thesis using h l' by (simp add: rd_consume_def)
qed

lemma rd_empty_iff: "rb_empty r \<longleftrightarrow> rb_list r = []"
  using rb_list_empty [of r] by (simp add: rb_empty_def)

lemma rd_consume_none: "rb_list r = [] \<Longrightarrow> rd_consume r b = (False, r, b)"
  by (simp add: rd_consume_def rd_empty_iff)

end
