(* ===== verification/Udp_Receive.thy ===== *)
theory Udp_Receive
  imports Udp_Channel Read_Dgram
begin

text \<open>
  The receiving half of a UDP channel: the coroutine \<^verbatim>\<open>udp_read_loop\<close> (\<^verbatim>\<open>src/net/handler.cpp\<close>), cut at its suspension
  point, over \<^verbatim>\<open>ReadBufDgram\<close> and the worker's \<^verbatim>\<open>BufRing\<close>; and the whole \<^verbatim>\<open>UdpChannel\<close> (\<^verbatim>\<open>include/net/channel.hpp\<close>,
  \<^verbatim>\<open>src/net/channel.cpp\<close>) around both halves. The callbacks of the server are parameters.
\<close>

section \<open>State\<close>

text \<open>\<open>uc_reading\<close>: the read coroutine is alive. Its promise swallows exceptions, as that of the write coroutine.\<close>

record 'r udp_channel =
  uc_send :: "'r udp_worker"
  uc_rbuf :: read_dgram
  uc_br :: buf_ring
  uc_rtok :: "unit token"
  uc_reading :: bool

record 'w udp_server =
  us_on_read :: "'w \<Rightarrow> 'w option"
  us_on_write :: "i32 \<Rightarrow> 'w \<Rightarrow> 'w option"

text \<open>The defaults of \<^verbatim>\<open>UdpServer\<close>: \<^verbatim>\<open>on_write\<close> does nothing. \<^verbatim>\<open>on_read\<close> is always the application's.\<close>

definition idle_srv :: "'w udp_server" where
  "idle_srv = \<lparr>us_on_read = Some, us_on_write = \<lambda>_. Some\<rparr>"

section \<open>The read coroutine\<close>

text \<open>Arming the multishot receive; \<^term>\<open>True\<close> says that \<^verbatim>\<open>get_sqe\<close> threw.\<close>

definition udp_recv_arm :: "('r, 'q) udp_api \<Rightarrow> 'r udp_channel \<Rightarrow> bool \<times> 'r udp_channel" where
  "udp_recv_arm api x =
     (let u = uc_send x in
      case get_sqe api (ud_ring u) of
        (Inl _, ring) \<Rightarrow> (True, x\<lparr>uc_send := u\<lparr>ud_ring := ring\<rparr>\<rparr>)
      | (Inr sqe, ring) \<Rightarrow> (False, x\<lparr>uc_send := u\<lparr>ud_ring := ring, ud_sqes := ud_sqes u @
          [set_data (Tok Read_Tok) (set_buf_group (ucast (br_group (uc_br x)))
             (set_flags iosqe_buffer_select (prep_multishot_recvmsg (ud_fd u) (Some Recv_Msghdr) 0 sqe)))]\<rparr>\<rparr>))"

definition udp_read_await :: "'r udp_channel \<Rightarrow> 'r udp_channel" where
  "udp_read_await x = x\<lparr>uc_rtok := token_await_suspend () (uc_rtok x)\<rparr>"

definition udp_read_start :: "('r, 'q) udp_api \<Rightarrow> 'r udp_channel \<Rightarrow> 'r udp_channel" where
  "udp_read_start api x =
     (case udp_recv_arm api (x\<lparr>uc_rtok := token_new, uc_reading := True\<rparr>) of
        (True, x1) \<Rightarrow> x1\<lparr>uc_reading := False\<rparr>
      | (False, x1) \<Rightarrow> udp_read_await x1)"

text \<open>Storing a datagram; an index outside the ring's arrays is \<^term>\<open>None\<close>. The result of \<^verbatim>\<open>push_buf\<close> is not looked at.\<close>

definition udp_recv_store :: "u32 \<Rightarrow> u32 \<Rightarrow> 'r udp_channel \<Rightarrow> 'r udp_channel option" where
  "udp_recv_store idx sz x =
     (if unat idx < length (br_dsize (uc_br x))
      then let b = br_set_data_size idx sz (uc_br x)
           in Some (x\<lparr>uc_rbuf := snd (rb_push_buf idx b (uc_rbuf x)), uc_br := b\<rparr>)
      else None)"

text \<open>The body after \<^verbatim>\<open>co_await p.token_\<close>, up to the next one or the exception that ends it.\<close>

definition udp_read_resume ::
  "('r, 'q) udp_api \<Rightarrow> 'r udp_channel udp_server \<Rightarrow> 'r udp_channel \<Rightarrow> 'r udp_channel option" where
  "udp_read_resume api srv x =
     (let res = token_await_resume (uc_rtok x); flag = tk_flag (uc_rtok x) in
      case (if has_more flag then (False, x) else udp_recv_arm api x) of
        (True, x1) \<Rightarrow> Some (x1\<lparr>uc_reading := False\<rparr>)
      | (False, x1) \<Rightarrow>
          if sint res < 0 then Some (udp_read_await x1)
          else do {
            x2 \<leftarrow> udp_recv_store (cqe_buffer_id flag) res x1;
            x3 \<leftarrow> us_on_read srv x2;
            Some (udp_read_await x3) })"

text \<open>\<^verbatim>\<open>Token::complete\<close> on the token of the read coroutine.\<close>

definition udp_read_complete ::
  "('r, 'q) udp_api \<Rightarrow> 'r udp_channel udp_server \<Rightarrow> i32 \<Rightarrow> i32 \<Rightarrow> 'r udp_channel \<Rightarrow> 'r udp_channel option" where
  "udp_read_complete api srv res flag x =
     (case token_complete res flag (uc_rtok x) of
        (Some _, t) \<Rightarrow> udp_read_resume api srv (x\<lparr>uc_rtok := t\<rparr>)
      | (None, t) \<Rightarrow> Some (x\<lparr>uc_rtok := t\<rparr>))"

section \<open>The channel\<close>

text \<open>A completion of the worker's ring: a received datagram, or a sent one.\<close>

definition udp_complete ::
  "('r, 'q) udp_api \<Rightarrow> 'r udp_channel udp_server \<Rightarrow> udp_tok \<Rightarrow> i32 \<Rightarrow> i32 \<Rightarrow> 'r udp_channel \<Rightarrow> 'r udp_channel option" where
  "udp_complete api srv tok res flag x = (case tok of
     Read_Tok \<Rightarrow> udp_read_complete api srv res flag x
   | Slot_Tok s \<Rightarrow> do {
       u \<leftarrow> msg_token_complete s (uc_send x);
       us_on_write srv res (x\<lparr>uc_send := u\<rparr>) })"

definition udp_consume :: "'r udp_channel \<Rightarrow> bool \<times> 'r udp_channel" where
  "udp_consume x = (case rd_consume (uc_rbuf x) (uc_br x) of (ok, r, b) \<Rightarrow> (ok, x\<lparr>uc_rbuf := r, uc_br := b\<rparr>))"

definition udp_peek :: "recvmsg \<Rightarrow> 'r udp_channel \<Rightarrow> (dgram_msg option \<times> 'r udp_channel) option" where
  "udp_peek rm x = map_option (\<lambda>(m, r). (m, x\<lparr>uc_rbuf := r\<rparr>)) (rd_peek rm (uc_br x) (uc_rbuf x))"

text \<open>
  The constructor, on the worker's ring and pools. The arrays come uninitialised from \<^verbatim>\<open>new[]\<close>; \<open>ws\<close> are those of the
  write buffer, \<open>rs\<close> those of the read buffer.
\<close>

definition udp_channel_new ::
  "u32 list \<times> u32 list \<times> nat list \<Rightarrow> u32 list \<times> nat list \<times> u32 list \<times> u32 \<Rightarrow> i32 \<Rightarrow>
   'r io_ring \<Rightarrow> buf_ring \<Rightarrow> buf_pool \<Rightarrow> msghdr_pool \<Rightarrow> 'r udp_channel" where
  "udp_channel_new ws rs capacity ring b pool mp =
     (case (ws, rs) of ((pend, snds, slots), (q, pd, ps, pc)) \<Rightarrow>
        \<lparr>uc_send = \<lparr>ud_fd = - 1, ud_notify = notify_token_new, ud_wbuf = write_dgram_new pend snds slots mp capacity,
             ud_pool = pool, ud_mp = mp, ud_ring = ring, ud_sqes = [], ud_writing = False\<rparr>,
         uc_rbuf = read_dgram_new q pd ps pc b, uc_br = b, uc_rtok = token_new, uc_reading = False\<rparr>)"

definition udp_assign :: "('r, 'q) udp_api \<Rightarrow> i32 \<Rightarrow> 'r udp_channel \<Rightarrow> 'r udp_channel option" where
  "udp_assign api fd x =
     (let x1 = udp_read_start api (x\<lparr>uc_send := (uc_send x)\<lparr>ud_fd := fd\<rparr>\<rparr>)
      in map_option (\<lambda>u. x1\<lparr>uc_send := u\<rparr>) (udp_assign_write api fd (uc_send x1)))"

end
