(* ===== verification/Udp_Send.thy ===== *)
theory Udp_Send
  imports Udp_Channel
begin

text \<open>
  Correctness of the UDP sending path: a submitted datagram is handed to the kernel once, with the bytes
  that were appended and the peer that was given, and nothing touches them until its completion; a
  refused one leaves no trace but the loss of the pending bytes. Every block and every message slot
  stays accounted for.
\<close>

section \<open>Ownership\<close>

text \<open>
  \<open>udp_holds car fl rest u\<close>: slots are free, queued or in flight (\<open>fl\<close>), blocks are free, pending, carried
  by a queued or flying slot (\<open>car\<close>), or held elsewhere (\<open>rest\<close>).
\<close>

definition udp_holds ::
  "(nat \<Rightarrow> u32 list) \<Rightarrow> nat list \<Rightarrow> u32 list \<Rightarrow> 'r udp_worker \<Rightarrow> bool" where
  "udp_holds car fl rest u \<longleftrightarrow>
     (let w = ud_wbuf u; p = ud_pool u; mp = ud_mp u in
      wd_shape w \<and> mp_inv mp \<and> mp_max_iov mp = wd_max_iov w \<and> wd_queue w = [] \<and>
      distinct (fl @ mp_free mp) \<and> set (fl @ mp_free mp) = mp_handles mp \<and>
      (\<forall>s \<in> set fl. slot_carries p mp s (car s) \<and> ms_channel (mp_slots mp ! s) \<and>
        mh_name (ms_hdr (mp_slots mp ! s)) = Some s) \<and>
      bp_owned p (wb_plist w @ concat (map car fl) @ rest))"

text \<open>The write coroutine is alive and suspended on the notify token.\<close>

definition udp_waiting :: "'r udp_worker \<Rightarrow> bool" where
  "udp_waiting u \<longleftrightarrow> ud_writing u \<and> nt_handle (ud_notify u) = Some () \<and> \<not> nt_pending (ud_notify u)"

lemma slot_carries_frame:
  assumes "bp_frame S p p'" and "set is \<subseteq> bp_blocks p" and "set is \<inter> S = {}"
  shows "slot_carries p' mp s is \<longleftrightarrow> slot_carries p mp s is"
proof -
  have "bp_data_size p' i = bp_data_size p i" if "i \<in> set is" for i
    using that assms(2,3) by (intro bp_frame_block(2) [OF assms(1)]) auto
  moreover have "bp_bsize p' = bp_bsize p" using assms(1) by (simp add: bp_frame_def)
  ultimately have "map (block_iov p') is = map (block_iov p) is"
    by (simp add: block_iov_def bp_buf_addr_def)
  then show ?thesis by (simp only: slot_carries_def)
qed

lemma slot_carries_mp_frame:
  assumes "mp_frame S mp mp'" and "s \<in> mp_handles mp" and "s \<notin> S"
  shows "slot_carries p mp' s is \<longleftrightarrow> slot_carries p mp s is"
    and "mp_slots mp' ! s = mp_slots mp ! s"
  using assms by (simp_all add: mp_frame_def slot_carries_segment)

lemma mp_inv_frame:
  assumes "mp_inv mp" and "mp_shape mp'" and fr: "mp_frame {s} mp mp'" and "mp_free mp' = mp_free mp"
    and "s \<notin> set (mp_free mp)"
  shows "mp_inv mp'"
  using assms mp_frame_handles [OF fr] mp_frame_blank [OF fr] by (auto simp: mp_inv_def)

text \<open>Carried blocks survive any change confined to pending and free blocks.\<close>

lemma udp_carried_frame:
  assumes h: "udp_holds car fl rest u" and fr: "bp_frame S (ud_pool u) p'"
    and S: "S \<subseteq> set (wb_plist (ud_wbuf u)) \<union> set (bp_free (ud_pool u))" and s: "s \<in> set fl"
  shows "slot_carries p' mp s (car s) \<longleftrightarrow> slot_carries (ud_pool u) mp s (car s)"
proof (rule slot_carries_frame [OF fr])
  have own: "bp_owned (ud_pool u) (wb_plist (ud_wbuf u) @ concat (map car fl) @ rest)"
    using h by (simp add: udp_holds_def Let_def)
  have sub: "set (car s) \<subseteq> set (concat (map car fl))" using s by auto
  show "set (car s) \<subseteq> bp_blocks (ud_pool u)" using own sub by (auto simp: bp_owned_def)
  have "set (car s) \<inter> (set (wb_plist (ud_wbuf u)) \<union> set (bp_free (ud_pool u))) = {}"
    using own sub unfolding bp_owned_def distinct_append set_append by blast
  then show "set (car s) \<inter> S = {}" using S by blast
qed

section \<open>Building a datagram\<close>

lemma wd_pending_only_fields:
  assumes "wb_pending_only w w'"
  shows "wd_slotq w' = wd_slotq w" and "wd_mhead w' = wd_mhead w" and "wd_mtail w' = wd_mtail w"
    and "wd_max_iov w' = wd_max_iov w" and "wb_mask w' = wb_mask w"
  using assms by (cases w; cases w'; simp add: wb_pending_only_def)+

lemma wd_pending_only_shape:
  assumes "wd_shape w" and "wb_shape w'" and "wb_pending_only w w'"
  shows "wd_shape w'" and "wd_queue w' = wd_queue w"
  using assms wd_pending_only_fields [OF assms(3)]
  by (simp_all add: wd_shape_def wd_queue_def wb_pending_only_def)

lemma udp_holds_pending:
  assumes h: "udp_holds car fl rest u" and sh: "wb_shape w'" and po: "wb_pending_only (ud_wbuf u) w'"
    and own: "bp_owned p' (wb_plist w' @ concat (map car fl) @ rest)"
    and fr: "bp_frame S (ud_pool u) p'" and S: "S \<subseteq> set (wb_plist (ud_wbuf u)) \<union> set (bp_free (ud_pool u))"
  shows "udp_holds car fl rest (u\<lparr>ud_wbuf := w', ud_pool := p'\<rparr>)"
  using h own wd_pending_only_shape [OF _ sh po] wd_pending_only_fields(4) [OF po]
    udp_carried_frame [OF h fr S] by (simp add: udp_holds_def Let_def)

lemma udp_append_ok:
  assumes h: "udp_holds car fl rest u" and len: "length d = unat sz"
  shows "\<exists>b u'. udp_append d sz u = Some (b, u') \<and> udp_holds car fl rest u' \<and>
    bp_bytes (ud_pool u') (wb_plist (ud_wbuf u')) =
      bp_bytes (ud_pool u) (wb_plist (ud_wbuf u)) @ (if b then d else []) \<and>
    (\<forall>s \<in> set fl. slot_payload (ud_pool u') (ud_mp u') s = slot_payload (ud_pool u) (ud_mp u) s) \<and>
    (\<exists>w p. u' = u\<lparr>ud_wbuf := w, ud_pool := p\<rparr>)"
proof -
  let ?w = "ud_wbuf u" and ?p = "ud_pool u" and ?rest = "concat (map car fl) @ rest"
  have sh: "wb_shape ?w" and own: "bp_owned ?p (wb_plist ?w @ ?rest)"
    using h by (simp_all add: udp_holds_def Let_def wd_shape_def)
  obtain b w' p' where res: "wb_append d sz ?w ?p = Some (b, w', p')" "append_result d ?rest ?w ?p b w' p'"
    using wb_append_ok [OF sh own len] by blast
  then have r: "wb_shape w'" "wb_pending_only ?w w'" "bp_owned p' (wb_plist w' @ ?rest)"
      "bp_frame (set (wb_plist ?w) \<union> set (bp_free ?p)) ?p p'"
    by (simp_all add: append_result_def)
  let ?u = "u\<lparr>ud_wbuf := w', ud_pool := p'\<rparr>"
  have h': "udp_holds car fl rest ?u" by (rule udp_holds_pending [OF h r order_refl])
  have "bp_bytes p' (wb_plist w') = bp_bytes ?p (wb_plist ?w) @ (if b then d else [])"
    using res(2) by (auto simp: append_result_def bp_bytes_def)
  moreover have "slot_payload p' (ud_mp u) s = slot_payload ?p (ud_mp u) s" if s: "s \<in> set fl" for s
  proof -
    have c: "slot_carries ?p (ud_mp u) s (car s)" "slot_carries p' (ud_mp u) s (car s)"
      using h h' s by (simp_all add: udp_holds_def Let_def)
    have "bp_bytes p' (car s) = bp_bytes ?p (car s)"
      using own s by (intro bp_owned_frame_bytes [OF r(4)]) (auto simp: bp_owned_def)
    then show ?thesis using c by (simp add: slot_carries_payload)
  qed
  ultimately show ?thesis using res(1) h' by (auto simp: udp_append_def)
qed

section \<open>The coroutine's turn\<close>

definition send_sqe :: "i32 \<Rightarrow> nat \<Rightarrow> (udp_ptr, udp_tok) sqe" where
  "send_sqe fd s = \<lparr>sqe_op = Some (Op_Sendmsg fd (Some (Slot_Hdr s)) 0), sqe_flags = 0, sqe_buf_group = 0,
     sqe_data = Tok (Slot_Tok s)\<rparr>"

definition mp_mark :: "nat \<Rightarrow> msghdr_pool \<Rightarrow> msghdr_pool" where
  "mp_mark s mp = mp\<lparr>mp_slots := (mp_slots mp)[s := (mp_slots mp ! s)\<lparr>ms_channel := True\<rparr>]\<rparr>"

lemma wd_queue_single:
  assumes "wd_shape w" and "wd_queue w = [s]"
  shows "wd_peek_slot 0 w = Some s" and "sint (wd_slot_queue_size w) = 1"
proof -
  have one: "unat (wd_mtail w - wd_mhead w) = 1"
    using arg_cong [OF assms(2), of length] by (simp add: wd_queue_def)
  then show "sint (wd_slot_queue_size w) = 1"
    by (simp add: wd_slot_queue_size_def sint_ucast_count)
  have "wd_queue w ! 0 = wd_slotq w ! ring_slot (wb_m w) (wd_mhead w)"
    using one by (simp add: wd_queue_def ring_list_nth)
  moreover have "\<not> wd_mtail w - wd_mhead w \<le> 0"
    using one by (auto simp: word_le_nat_alt)
  ultimately show "wd_peek_slot 0 w = Some s"
    using assms(2) by (simp add: wd_peek_slot_def)
qed

lemma udp_notify_sends:
  assumes "wd_shape (ud_wbuf u)" and "wd_queue (ud_wbuf u) = [s]" and "udp_waiting u"
    and "u_get_sqe api (ir_ring (ud_ring u)) = (True, r)"
  shows "udp_notify api u = Some (u\<lparr>ud_ring := (ud_ring u)\<lparr>ir_ring := r\<rparr>,
    ud_sqes := ud_sqes u @ [send_sqe (ud_fd u) s], ud_mp := mp_mark s (ud_mp u),
    ud_wbuf := wd_clear_slot_queue (ud_wbuf u)\<rparr>)"
proof -
  let ?n = "ud_notify u"
  let ?u1 = "u\<lparr>ud_notify := ?n\<lparr>nt_handle := None\<rparr>\<rparr>"
  let ?u2 = "?u1\<lparr>ud_ring := (ud_ring u)\<lparr>ir_ring := r\<rparr>, ud_sqes := ud_sqes u @ [send_sqe (ud_fd u) s],
    ud_mp := mp_mark s (ud_mp u), ud_wbuf := wd_clear_slot_queue (ud_wbuf u)\<rparr>"
  have wt: "nt_handle ?n = Some ()" "\<not> nt_pending ?n" "ud_writing u"
    using assms(3) by (simp_all add: udp_waiting_def)
  note q = wd_queue_single [OF assms(1,2)]
  have "udp_send_slots api [0] ?u1 = Some (False, ?u2\<lparr>ud_wbuf := ud_wbuf u\<rparr>)"
    using q(1) assms(4)
    by (simp add: get_sqe_def fresh_sqe_def set_data_def prep_sendmsg_def send_sqe_def mp_mark_def)
  then have turn: "udp_write_turn api ?u1 = Some ?u2"
    using q(2) by (simp add: udp_write_turn_def)
  have "nt_co_await () (?n\<lparr>nt_handle := None\<rparr>) = (False, ?n)"
    using wt by (cases ?n) (simp add: nt_defs)
  then have "udp_write_await api ?u2 = Some (?u2\<lparr>ud_notify := ?n\<rparr>)"
    by (subst udp_write_await.simps) simp
  then have "udp_write_resume api ?u1 = Some (?u2\<lparr>ud_notify := ?n\<rparr>)"
    using turn wt by (simp add: udp_write_resume_def)
  then show ?thesis
    using wt by (simp add: udp_notify_def nt_notify_def)
qed

text \<open>No entry left: the exception ends the coroutine, and the slot stays in the queue.\<close>

lemma udp_notify_dies:
  assumes "wd_shape (ud_wbuf u)" and "wd_queue (ud_wbuf u) = [s]" and "udp_waiting u"
    and "u_get_sqe api (ir_ring (ud_ring u)) = (False, r)"
  shows "udp_notify api u = Some (u\<lparr>ud_notify := (ud_notify u)\<lparr>nt_handle := None\<rparr>,
    ud_ring := (ud_ring u)\<lparr>ir_ring := r\<rparr>, ud_mp := mp_mark s (ud_mp u), ud_writing := False\<rparr>)"
proof -
  note q = wd_queue_single [OF assms(1,2)]
  show ?thesis
    using q assms(3,4)
    by (simp add: udp_notify_def nt_notify_def udp_waiting_def udp_write_resume_def udp_write_turn_def
        get_sqe_def mp_mark_def)
qed

section \<open>Submitting\<close>

lemma mp_mark_ok:
  assumes "mp_shape mp" and "s < length (mp_slots mp)"
  shows "mp_shape (mp_mark s mp)" and "mp_frame {s} mp (mp_mark s mp)" and "mp_free (mp_mark s mp) = mp_free mp"
    and "mp_max_iov (mp_mark s mp) = mp_max_iov mp"
    and "mp_slots (mp_mark s mp) ! s = (mp_slots mp ! s)\<lparr>ms_channel := True\<rparr>"
    and "mp_segment (mp_mark s mp) r = mp_segment mp r"
  using assms
  by (auto simp: mp_mark_def mp_shape_def mp_frame_def mp_free_def mp_segment_def mp_handles_def nth_list_update)

lemma mp_set_peer_ok:
  assumes sh: "mp_shape mp" and s: "s < length (mp_slots mp)"
    and n: "unat n \<le> length addr" "unat n \<le> sockaddr_storage_size"
  shows "\<exists>mp'. mp_set_peer s addr n mp = Some mp' \<and> mp_shape mp' \<and> mp_frame {s} mp mp' \<and>
    mp_free mp' = mp_free mp \<and> mp_max_iov mp' = mp_max_iov mp \<and> mp_segment mp' s = mp_segment mp s \<and>
    mp_slots mp' ! s = (mp_slots mp ! s)\<lparr>ms_addr := blit 0 (take (unat n) addr) (ms_addr (mp_slots mp ! s)),
      ms_hdr := (ms_hdr (mp_slots mp ! s))\<lparr>mh_namelen := n\<rparr>\<rparr>"
proof -
  have len: "length (ms_addr (mp_slots mp ! s)) = sockaddr_storage_size"
    using sh s by (simp add: mp_shape_def)
  then have "copy_in 0 (take (unat n) addr) (ms_addr (mp_slots mp ! s)) =
      Some (blit 0 (take (unat n) addr) (ms_addr (mp_slots mp ! s)))"
    using n by (simp add: copy_in_def)
  then show ?thesis
    using sh s n len
    by (auto simp: mp_set_peer_def mp_set_hdr_def mp_shape_def mp_frame_def mp_handles_def mp_free_def
        mp_segment_def nth_list_update)
qed

text \<open>What the worker looks like after a submission, accepted or refused.\<close>

definition udp_accepts :: "'r udp_worker \<Rightarrow> bool" where
  "udp_accepts u \<longleftrightarrow> mp_free (ud_mp u) \<noteq> [] \<and> wd_accepts (ud_wbuf u)"

definition udp_refused_post ::
  "(nat \<Rightarrow> u32 list) \<Rightarrow> nat list \<Rightarrow> u32 list \<Rightarrow> 'r udp_worker \<Rightarrow> 'r udp_worker \<Rightarrow> bool" where
  "udp_refused_post car fl rest u u' \<longleftrightarrow>
     udp_holds car fl rest u' \<and> wb_plist (ud_wbuf u') = [] \<and> ud_sqes u' = ud_sqes u \<and> ud_notify u' = ud_notify u \<and>
     ud_writing u' = ud_writing u \<and> ud_fd u' = ud_fd u \<and>
     set (mp_free (ud_mp u')) = set (mp_free (ud_mp u)) \<and>
     bp_free (ud_pool u') = bp_free (ud_pool u) @ wb_plist (ud_wbuf u) \<and>
     bp_frame (set (wb_plist (ud_wbuf u))) (ud_pool u) (ud_pool u') \<and>
     mp_max_iov (ud_mp u') = mp_max_iov (ud_mp u) \<and>
     (\<forall>s \<in> set fl. mp_slots (ud_mp u') ! s = mp_slots (ud_mp u) ! s \<and>
        mp_segment (ud_mp u') s = mp_segment (ud_mp u) s)"

definition udp_accepted_post ::
  "(nat \<Rightarrow> u32 list) \<Rightarrow> nat list \<Rightarrow> u32 list \<Rightarrow> byte list \<Rightarrow> u32 \<Rightarrow> 'r udp_worker \<Rightarrow> 'r udp_worker \<Rightarrow> bool" where
  "udp_accepted_post car fl rest addr namelen u u' \<longleftrightarrow>
     (let s = hd (mp_free (ud_mp u)) in
      udp_holds (car(s := wb_plist (ud_wbuf u))) (fl @ [s]) rest u' \<and> udp_waiting u' \<and> ud_fd u' = ud_fd u \<and>
      wb_plist (ud_wbuf u') = [] \<and> ud_pool u' = ud_pool u \<and>
      ud_sqes u' = ud_sqes u @ [send_sqe (ud_fd u) s] \<and>
      slot_payload (ud_pool u') (ud_mp u') s = bp_bytes (ud_pool u) (wb_plist (ud_wbuf u)) \<and>
      slot_peer (ud_mp u') s = Some (namelen, take (unat namelen) addr) \<and>
      mp_max_iov (ud_mp u') = mp_max_iov (ud_mp u) \<and>
      (\<forall>r \<in> set fl. mp_slots (ud_mp u') ! r = mp_slots (ud_mp u) ! r \<and>
        mp_segment (ud_mp u') r = mp_segment (ud_mp u) r))"

lemma udp_holdsD:
  assumes "udp_holds car fl rest u"
  shows "wd_shape (ud_wbuf u)" and "wb_shape (ud_wbuf u)" and "mp_inv (ud_mp u)" and "mp_shape (ud_mp u)"
    and "mp_max_iov (ud_mp u) = wd_max_iov (ud_wbuf u)" and "wd_queue (ud_wbuf u) = []"
    and "distinct (fl @ mp_free (ud_mp u))" and "set (fl @ mp_free (ud_mp u)) = mp_handles (ud_mp u)"
    and "bp_owned (ud_pool u) (wb_plist (ud_wbuf u) @ concat (map car fl) @ rest)"
  using assms by (simp_all add: udp_holds_def Let_def wd_shape_def mp_inv_def)

text \<open>Discarding the pending blocks once the message slots are back to a legal state \<open>mp'\<close>.\<close>

lemma udp_discard_ok:
  assumes h: "udp_holds car fl rest u" and inv: "mp_inv mp'" and fr: "mp_frame S (ud_mp u) mp'" and S: "S \<inter> set fl = {}"
    and free: "mset (mp_free mp') = mset (mp_free (ud_mp u))"
  shows "\<exists>w' p'. wb_discard_pending (ud_wbuf u) (ud_pool u) = Some (w', p') \<and>
    udp_refused_post car fl rest u (u\<lparr>ud_mp := mp', ud_wbuf := w', ud_pool := p'\<rparr>)"
proof -
  note D = udp_holdsD [OF h]
  obtain w' p' where r: "wb_discard_pending (ud_wbuf u) (ud_pool u) = Some (w', p')" "wb_shape w'"
      "wb_pending_only (ud_wbuf u) w'" "wb_plist w' = []" "bp_owned p' (concat (map car fl) @ rest)"
      "bp_free p' = bp_free (ud_pool u) @ wb_plist (ud_wbuf u)"
      "bp_frame (set (wb_plist (ud_wbuf u))) (ud_pool u) p'"
    using wb_discard_pending_ok [OF D(2) D(9)] by blast
  have "udp_holds car fl rest (u\<lparr>ud_wbuf := w', ud_pool := p'\<rparr>)"
    by (rule udp_holds_pending [OF h r(2,3) _ r(7)]) (use r(4,5) in simp_all)
  moreover have "s \<in> mp_handles (ud_mp u) \<and> s \<notin> S" if "s \<in> set fl" for s
    using that D(8) S by auto
  then have "slot_carries p' mp' s is = slot_carries p' (ud_mp u) s is" "mp_slots mp' ! s = mp_slots (ud_mp u) ! s"
      "mp_segment mp' s = mp_segment (ud_mp u) s" if "s \<in> set fl" for s "is"
    using that slot_carries_mp_frame [OF fr] fr by (auto simp: mp_frame_def)
  moreover have "distinct (fl @ mp_free mp')" "set (mp_free mp') = set (mp_free (ud_mp u))"
    using D(7) mset_eq_setD [OF free] mset_eq_imp_distinct_iff [OF free] by auto
  moreover have "mp_handles mp' = mp_handles (ud_mp u)" "mp_max_iov mp' = mp_max_iov (ud_mp u)"
    using mp_frame_handles [OF fr] fr by (simp_all add: mp_frame_def)
  ultimately have "udp_refused_post car fl rest u (u\<lparr>ud_mp := mp', ud_wbuf := w', ud_pool := p'\<rparr>)"
    using inv r(4,6,7) by (auto simp: udp_refused_post_def udp_holds_def Let_def)
  then show ?thesis using r(1) by blast
qed

text \<open>The slot taken for a datagram, with the peer filled in.\<close>

lemma udp_take_slot:
  assumes h: "udp_holds car fl rest u" and free: "mp_free (ud_mp u) = s # ss"
    and n: "unat n \<le> length addr" "unat n \<le> sockaddr_storage_size"
  shows "\<exists>mp1 mp2. wd_acquire_slot (ud_mp u) = (Some s, mp1) \<and> mp_set_peer s addr n mp1 = Some mp2 \<and>
    mp_inv mp2 \<and> mp_free mp2 = ss \<and> mp_frame {s} (ud_mp u) mp2 \<and> s \<in> mp_handles mp2 \<and> s \<notin> set ss \<and> s \<notin> set fl \<and>
    mh_iovlen (ms_hdr (mp_slots mp2 ! s)) = 0 \<and> mh_namelen (ms_hdr (mp_slots mp2 ! s)) = n \<and>
    mh_name (ms_hdr (mp_slots mp2 ! s)) = Some s \<and>
    take (unat n) (ms_addr (mp_slots mp2 ! s)) = take (unat n) addr"
proof -
  note D = udp_holdsD [OF h]
  obtain mp1 where mp1: "mp_acquire (ud_mp u) = (Some s, mp1)" "mp_inv mp1" "mp_free mp1 = ss"
      "mp_frame {} (ud_mp u) mp1" "s \<in> mp_handles (ud_mp u)" "mp_blank mp1 s"
    using mp_acquire_inv [OF D(3) free] by blast
  have hd: "mp_handles mp1 = mp_handles (ud_mp u)" by (rule mp_frame_handles [OF mp1(4)])
  have sl: "s < length (mp_slots mp1)" using mp1(5) hd by (simp add: mp_handles_def)
  have sh1: "mp_shape mp1" using mp1(2) by (simp add: mp_inv_def)
  obtain mp2 where mp2: "mp_set_peer s addr n mp1 = Some mp2" "mp_shape mp2" "mp_frame {s} mp1 mp2"
      "mp_free mp2 = mp_free mp1"
      "mp_slots mp2 ! s = (mp_slots mp1 ! s)\<lparr>ms_addr := blit 0 (take (unat n) addr) (ms_addr (mp_slots mp1 ! s)),
        ms_hdr := (ms_hdr (mp_slots mp1 ! s))\<lparr>mh_namelen := n\<rparr>\<rparr>"
    using mp_set_peer_ok [OF sh1 sl n] by blast
  have ns: "s \<notin> set ss" "s \<notin> set fl" using D(7) free by auto
  have inv2: "mp_inv mp2" using mp_inv_frame [OF mp1(2) mp2(2,3,4)] ns mp1(3) by simp
  have fr: "mp_frame {s} (ud_mp u) mp2" using mp_frame_trans [OF mp1(4) mp2(3)] by simp
  have bl: "take (unat n) (blit 0 (take (unat n) addr) a) = take (unat n) addr" for a :: "byte list"
    using n(1) by (simp add: blit_def)
  show ?thesis
    using mp1 mp2 inv2 fr ns bl mp_frame_handles [OF fr]
    by (auto simp: wd_acquire_slot_def mp_blank_def blank_hdr_def)
qed

lemma udp_submit_refused:
  assumes h: "udp_holds car fl rest u" and no: "\<not> udp_accepts u"
    and n: "unat n \<le> length addr" "unat n \<le> sockaddr_storage_size"
  shows "\<exists>u'. udp_submit api addr n u = Some (False, u') \<and> udp_refused_post car fl rest u u'"
proof (cases "mp_free (ud_mp u)")
  case Nil
  note D = udp_holdsD [OF h]
  have "wd_acquire_slot (ud_mp u) = (None, ud_mp u)"
    using mp.acq_empty [OF D(3) Nil] by (simp add: wd_acquire_slot_def)
  moreover obtain w' p' where "wb_discard_pending (ud_wbuf u) (ud_pool u) = Some (w', p')"
      "udp_refused_post car fl rest u (u\<lparr>ud_mp := ud_mp u, ud_wbuf := w', ud_pool := p'\<rparr>)"
    using udp_discard_ok [OF h D(3), of "{}"] by auto
  ultimately show ?thesis by (simp add: udp_submit_def)
next
  case (Cons s ss)
  note D = udp_holdsD [OF h]
  obtain mp1 mp2 where mp2: "wd_acquire_slot (ud_mp u) = (Some s, mp1)" "mp_set_peer s addr n mp1 = Some mp2"
      "mp_inv mp2" "mp_free mp2 = ss" "mp_frame {s} (ud_mp u) mp2" "s \<in> mp_handles mp2" "s \<notin> set ss"
      "s \<notin> set fl" "mh_iovlen (ms_hdr (mp_slots mp2 ! s)) = 0"
    using udp_take_slot [OF h Cons n] by blast
  have "wd_submit (Some s) (ud_wbuf u) (ud_pool u) mp2 = Some (False, ud_wbuf u, mp2)"
    using no Cons by (intro wd_submit_refused D(1)) (simp add: udp_accepts_def)
  moreover have car0: "slot_carries (ud_pool u) mp2 s []"
    using mp2(9) by (simp add: slot_carries_segment)
  moreover obtain p1 mp4 where rel: "wd_release_slot s (ud_pool u) mp2 = Some (p1, mp4)" "mp_inv mp4"
      "mp_free mp4 = ss @ [s]" "mp_frame {s} mp2 mp4"
    using wd_release_slot_ok [OF mp2(3,6) _ car0, of "wb_plist (ud_wbuf u) @ concat (map car fl) @ rest"]
      mp2(4,7) D(9) by auto
  moreover from rel(1) have "p1 = ud_pool u"
    using mp2(9) by (simp add: wd_release_slot_def split: bind_splits)
  moreover have "mp_frame {s} (ud_mp u) mp4" using mp_frame_trans [OF mp2(5) rel(4)] by simp
  then obtain w' p' where "wb_discard_pending (ud_wbuf u) (ud_pool u) = Some (w', p')"
      "udp_refused_post car fl rest u (u\<lparr>ud_mp := mp4, ud_wbuf := w', ud_pool := p'\<rparr>)"
    using udp_discard_ok [OF h rel(2), of "{s}"] mp2(8) rel(3) Cons by auto
  ultimately show ?thesis using mp2(1,2) by (simp add: udp_submit_def)
qed

lemma udp_submit_accepted:
  assumes h: "udp_holds car fl rest u" and wt: "udp_waiting u" and acc: "udp_accepts u"
    and n: "unat n \<le> length addr" "unat n \<le> sockaddr_storage_size"
    and sq: "fst (u_get_sqe api (ir_ring (ud_ring u)))"
  shows "\<exists>u'. udp_submit api addr n u = Some (True, u') \<and> udp_accepted_post car fl rest addr n u u'"
proof -
  note D = udp_holdsD [OF h]
  obtain s ss where free: "mp_free (ud_mp u) = s # ss"
    using acc by (cases "mp_free (ud_mp u)") (auto simp: udp_accepts_def)
  obtain mp1 mp2 where mp2: "wd_acquire_slot (ud_mp u) = (Some s, mp1)" "mp_set_peer s addr n mp1 = Some mp2"
      "mp_inv mp2" "mp_free mp2 = ss" "mp_frame {s} (ud_mp u) mp2" "s \<in> mp_handles mp2" "s \<notin> set ss"
      "s \<notin> set fl" "mh_namelen (ms_hdr (mp_slots mp2 ! s)) = n" "mh_name (ms_hdr (mp_slots mp2 ! s)) = Some s"
      "take (unat n) (ms_addr (mp_slots mp2 ! s)) = take (unat n) addr"
    using udp_take_slot [OF h free n] by blast
  let ?pl = "wb_plist (ud_wbuf u)"
  have sh2: "mp_shape mp2" and sl2: "s < length (mp_slots mp2)" and iov2: "mp_max_iov mp2 = wd_max_iov (ud_wbuf u)"
    using mp2(3,5,6) D(5) by (simp_all add: mp_inv_def mp_handles_def mp_frame_def)
  obtain w1 mp3 where "wd_submit (Some s) (ud_wbuf u) (ud_pool u) mp2 = Some (True, w1, mp3)"
      "wd_submit_post s (ud_wbuf u) (ud_pool u) mp2 w1 mp3"
    using wd_submit_accepted [OF D(1) _ sh2 sl2 iov2, of "ud_pool u"] acc by (auto simp: udp_accepts_def)
  then have sub: "wd_submit (Some s) (ud_wbuf u) (ud_pool u) mp2 = Some (True, w1, mp3)" "wd_shape w1"
      "wb_plist w1 = []" "wd_queue w1 = [s]" "wd_max_iov w1 = wd_max_iov (ud_wbuf u)" "mp_shape mp3"
      "mp_frame {s} mp2 mp3" "mp_free mp3 = ss" "slot_carries (ud_pool u) mp3 s ?pl" "slot_same_peer s mp2 mp3"
    using D(6) mp2(4) by (simp_all add: wd_submit_post_def)
  have sl3: "s < length (mp_slots mp3)" using sub(7) sl2 by (simp add: mp_frame_def)
  define mp4 where "mp4 = mp_mark s mp3"
  note mk = mp_mark_ok [OF sub(6) sl3, folded mp4_def]
  obtain r where r: "u_get_sqe api (ir_ring (ud_ring u)) = (True, r)" using sq by (cases "u_get_sqe api (ir_ring (ud_ring u))") simp
  define u' where "u' = u\<lparr>ud_mp := mp4, ud_wbuf := wd_clear_slot_queue w1,
    ud_ring := (ud_ring u)\<lparr>ir_ring := r\<rparr>, ud_sqes := ud_sqes u @ [send_sqe (ud_fd u) s]\<rparr>"
  have "udp_notify api (u\<lparr>ud_mp := mp3, ud_wbuf := w1\<rparr>) = Some u'"
    using udp_notify_sends [of "u\<lparr>ud_mp := mp3, ud_wbuf := w1\<rparr>" s api r] sub(2,4) wt r
    by (simp add: u'_def mp4_def udp_waiting_def)
  then have call: "udp_submit api addr n u = Some (True, u')"
    using mp2(1,2) sub(1) by (simp add: udp_submit_def)
  have fr: "mp_frame {s} (ud_mp u) mp4"
    using mp_frame_trans [OF mp_frame_trans [OF mp2(5) sub(7)] mk(2)] by simp
  have inv4: "mp_inv mp4"
    using mp_inv_frame [OF mp2(3) mk(1), of s] mp_frame_trans [OF sub(7) mk(2)] mk(3) sub(8) mp2(4,7) by simp
  have car4: "slot_carries (ud_pool u) mp4 s ?pl"
    using sub(9) mk(4-6) by (simp add: slot_carries_segment)
  have w': "wd_shape (wd_clear_slot_queue w1)" "wd_queue (wd_clear_slot_queue w1) = []"
      "wb_plist (wd_clear_slot_queue w1) = []" "wd_max_iov (wd_clear_slot_queue w1) = wd_max_iov (ud_wbuf u)"
    using sub(2,3,5) by (auto simp: wd_clear_slot_queue_def wd_shape_def wd_queue_def wb_shape_def wb_plist_def
        ring_list_def dest: ring_ok_empty)
  have own: "bp_owned (ud_pool u) (concat (map (car(s := ?pl)) (fl @ [s])) @ rest)"
    using D(9) mp2(8) by (subst bp_owned_perm [of _ "?pl @ concat (map car fl) @ rest"])
      (simp_all add: map_fun_upd)
  have peer: "mh_name (ms_hdr (mp_slots mp4 ! s)) = Some s" "slot_peer mp4 s = Some (n, take (unat n) addr)"
    using mk(5) mp2(9-11) sub(10) by (simp_all add: slot_same_peer_def slot_peer_def)
  have fly: "slot_carries (ud_pool u) mp4 q (car q) \<and> ms_channel (mp_slots mp4 ! q) \<and>
      mh_name (ms_hdr (mp_slots mp4 ! q)) = Some q"
    and same: "mp_slots mp4 ! q = mp_slots (ud_mp u) ! q \<and> mp_segment mp4 q = mp_segment (ud_mp u) q"
    if "q \<in> set fl" for q
  proof -
    have q: "q \<in> mp_handles (ud_mp u)" "q \<notin> {s}" using that D(8) mp2(8) by auto
    then show "slot_carries (ud_pool u) mp4 q (car q) \<and> ms_channel (mp_slots mp4 ! q) \<and>
      mh_name (ms_hdr (mp_slots mp4 ! q)) = Some q"
      and "mp_slots mp4 ! q = mp_slots (ud_mp u) ! q \<and> mp_segment mp4 q = mp_segment (ud_mp u) q"
      using slot_carries_mp_frame [OF fr q] h that fr by (simp_all add: udp_holds_def Let_def mp_frame_def)
  qed
  have "udp_holds (car(s := ?pl)) (fl @ [s]) rest u'"
    using w' inv4 mk(3,4,5) iov2 sub(7,8) D(7,8) free own car4 fly mp2(8) mp_frame_handles [OF fr] peer(1)
    by (auto simp: udp_holds_def Let_def u'_def mp_frame_def)
  then have "udp_accepted_post car fl rest addr n u u'"
    using free w'(3) wt same peer(2) fr slot_carries_payload [OF car4]
    by (simp add: udp_accepted_post_def u'_def udp_waiting_def mp_frame_def)
  then show ?thesis using call by blast
qed

text \<open>
  C10: \<^verbatim>\<open>UdpChannel::submit\<close>, with the write coroutine waiting and a submission entry left. It reports
  success exactly when a message slot is free, something is pending, and the pending blocks fit the
  slot. Then one \<^verbatim>\<open>sendmsg\<close> entry for that slot has been prepared, the slot describes the pending bytes
  and the given peer, the blocks now belong to the slot, and the coroutine waits again. Otherwise
  nothing was prepared, the pending blocks are all back in the pool and so is the slot, if one was
  taken. Datagrams in flight are untouched in both cases.
\<close>

theorem udp_submit_transaction:
  assumes "udp_holds car fl rest u" and "udp_waiting u"
    and "unat n \<le> length addr" and "unat n \<le> sockaddr_storage_size"
    and "fst (u_get_sqe api (ir_ring (ud_ring u)))"
  shows "\<exists>b u'. udp_submit api addr n u = Some (b, u') \<and> (b \<longleftrightarrow> udp_accepts u) \<and>
    (if b then udp_accepted_post car fl rest addr n u u' else udp_refused_post car fl rest u u')"
proof (cases "udp_accepts u")
  case True
  then show ?thesis using udp_submit_accepted [OF assms(1,2) True assms(3-5)] by auto
next
  case False
  then show ?thesis using udp_submit_refused [OF assms(1) False assms(3,4)] by auto
qed

subsection \<open>An example worker\<close>

definition sample_udp_api :: "(unit, unit) udp_api" where
  "sample_udp_api = \<lparr>u_queue_init = (\<lambda>_ _. (0, ())), u_queue_init_params = (\<lambda>_ _. (0, ())),
     u_get_sqe = (\<lambda>_. (True, ())), u_wait_cqe = (\<lambda>_. (0, None, ())), u_peek_cqe = (\<lambda>_. (0, None, ())),
     u_peek_batch_cqe = (\<lambda>_ _. (0, [], ())), u_submit = (\<lambda>_. (0, ())), u_submit_and_wait = (\<lambda>_ _. (0, ())),
     u_register_files = (\<lambda>_ _. (0, ())), u_cqe_seen = (\<lambda>_ _. ()), u_cq_advance = (\<lambda>_ _. ()),
     u_ring_fd = (\<lambda>_. 3)\<rparr>"

definition sample_mp :: msghdr_pool where
  "sample_mp = the (msghdr_pool_new 2 2)"

definition sample_udp :: "unit udp_worker" where
  "sample_udp = \<lparr>ud_fd = 5, ud_notify = \<lparr>nt_pending = False, nt_closed = False, nt_handle = Some ()\<rparr>,
     ud_wbuf = write_dgram_new [0, 0, 0, 0] [0, 0, 0, 0] [0, 0, 0, 0] sample_mp 4, ud_pool = sample_pool,
     ud_mp = sample_mp, ud_ring = \<lparr>ir_ring = (), ir_queue_depth = 8\<rparr>, ud_sqes = [], ud_writing = True\<rparr>"

lemma sample_mp_ok:
  "mp_inv sample_mp" "mp_free sample_mp = [0, 1]" "mp_handles sample_mp = {..<2}" "mp_max_iov sample_mp = 2"
proof -
  obtain p where "msghdr_pool_new 2 2 = Some p" "mp_inv p" "mp_free p = [0..<2]" "mp_handles p = {..<2}"
      "mp_max_iov p = 2"
    using msghdr_pool_new_ok [of 2 2] by (auto simp: is_power_of_two_def)
  then show "mp_inv sample_mp" "mp_free sample_mp = [0, 1]" "mp_handles sample_mp = {..<2}" "mp_max_iov sample_mp = 2"
    by (simp_all add: sample_mp_def upt_rec)
qed

lemma sample_udp_holds: "udp_holds (\<lambda>_. []) [] [] sample_udp" and sample_udp_waiting: "udp_waiting sample_udp"
proof -
  define w where "w = write_dgram_new [0, 0, 0, 0] [0, 0, 0, 0] [0, 0, 0, 0] sample_mp (2 ^ 2)"
  have iov: "0 < sint (mp_max_iov sample_mp)" by (simp add: sample_mp_ok(4))
  have w: "wd_shape w" "wb_plist w = []" "wd_queue w = []" "wd_max_iov w = mp_max_iov sample_mp"
    unfolding w_def by (rule write_dgram_new_ok [OF _ _ _ _ iov]; simp)+
  have u: "ud_wbuf sample_udp = w" "ud_mp sample_udp = sample_mp" "ud_pool sample_udp = sample_pool"
    by (simp_all add: sample_udp_def w_def)
  have "set [0, 1 :: nat] = {..<2}" by auto
  then show "udp_holds (\<lambda>_. []) [] [] sample_udp"
    using sample_pool_owned by (simp add: udp_holds_def Let_def u w sample_mp_ok)
  show "udp_waiting sample_udp" by (simp add: udp_waiting_def sample_udp_def)
qed

lemma sample_udp_append:
  "\<exists>u. udp_append [1, 2, 3] 3 sample_udp = Some (True, u) \<and> udp_holds (\<lambda>_. []) [] [] u \<and> udp_waiting u \<and> udp_accepts u \<and>
     mp_free (ud_mp u) = [0, 1] \<and> bp_bytes (ud_pool u) (wb_plist (ud_wbuf u)) = [1, 2, 3] \<and>
     ud_fd u = 5 \<and> ud_sqes u = [] \<and> ud_ring u = \<lparr>ir_ring = (), ir_queue_depth = 8\<rparr>"
proof -
  define u where "u = snd (the (udp_append [1, 2, 3] 3 sample_udp))"
  have call: "udp_append [1, 2, 3] 3 sample_udp = Some (True, u)" unfolding u_def by code_simp
  have "udp_holds (\<lambda>_. []) [] [] u" "\<exists>w p. u = sample_udp\<lparr>ud_wbuf := w, ud_pool := p\<rparr>"
    using udp_append_ok [OF sample_udp_holds, of "[1, 2, 3]" 3] call by auto
  moreover have "udp_accepts u" "mp_free (ud_mp u) = [0, 1]"
      "bp_bytes (ud_pool u) (wb_plist (ud_wbuf u)) = [1, 2, 3]"
    unfolding u_def by code_simp+
  moreover have "udp_waiting u" "ud_fd u = 5" "ud_sqes u = []" "ud_ring u = \<lparr>ir_ring = (), ir_queue_depth = 8\<rparr>"
    using calculation(2) sample_udp_waiting by (auto simp: udp_waiting_def sample_udp_def)
  ultimately show ?thesis using call by blast
qed

theorem udp_submit_transaction_witness:
  "\<exists>u u'. udp_append [1, 2, 3] 3 sample_udp = Some (True, u) \<and>
     udp_submit sample_udp_api (replicate 16 2) 16 u = Some (True, u') \<and>
     ud_sqes u' = [send_sqe 5 0] \<and> slot_payload (ud_pool u') (ud_mp u') 0 = [1, 2, 3] \<and>
     slot_peer (ud_mp u') 0 = Some (16, replicate 16 2)"
proof -
  obtain u where u: "udp_append [1, 2, 3] 3 sample_udp = Some (True, u)" "udp_holds (\<lambda>_. []) [] [] u"
      "udp_waiting u" "udp_accepts u" "mp_free (ud_mp u) = [0, 1]"
      "bp_bytes (ud_pool u) (wb_plist (ud_wbuf u)) = [1, 2, 3]" "ud_fd u = 5" "ud_sqes u = []"
    using sample_udp_append by blast
  then show ?thesis
    using udp_submit_transaction [OF u(2,3), of 16 "replicate 16 2" sample_udp_api]
    by (auto simp: sample_udp_api_def sockaddr_storage_size_def udp_accepted_post_def)
qed

section \<open>Completion\<close>

lemma concat_map_remove1_mset:
  "x \<in> set xs \<Longrightarrow> mset (concat (map f xs)) = mset (f x @ concat (map f (remove1 x xs)))"
  by (induction xs) auto

lemma msg_token_complete_ok:
  assumes h: "udp_holds car fl rest u" and s: "s \<in> set fl"
  shows "\<exists>u'. msg_token_complete s u = Some u' \<and> udp_holds car (remove1 s fl) rest u' \<and>
    bp_free (ud_pool u') = bp_free (ud_pool u) @ car s \<and> mp_free (ud_mp u') = mp_free (ud_mp u) @ [s] \<and>
    wb_plist (ud_wbuf u') = wb_plist (ud_wbuf u) \<and> ud_sqes u' = ud_sqes u \<and> ud_notify u' = ud_notify u \<and>
    ud_writing u' = ud_writing u \<and> ud_fd u' = ud_fd u \<and>
    bp_frame (set (car s)) (ud_pool u) (ud_pool u') \<and> mp_frame {s} (ud_mp u) (ud_mp u')"
proof -
  note D = udp_holdsD [OF h]
  have car: "slot_carries (ud_pool u) (ud_mp u) q (car q)" "ms_channel (mp_slots (ud_mp u) ! q)"
      "mh_name (ms_hdr (mp_slots (ud_mp u) ! q)) = Some q"
    if "q \<in> set fl" for q using h that by (simp_all add: udp_holds_def Let_def)
  let ?others = "wb_plist (ud_wbuf u) @ concat (map car (remove1 s fl)) @ rest"
  have "mset (concat (map car fl)) = mset (car s @ concat (map car (remove1 s fl)))"
    by (rule concat_map_remove1_mset [OF s])
  then have own: "bp_owned (ud_pool u) (car s @ ?others)"
    using D(9) by (subst bp_owned_perm [of _ "wb_plist (ud_wbuf u) @ concat (map car fl) @ rest"]) simp_all
  have sh: "s \<in> mp_handles (ud_mp u)" "s \<notin> set (mp_free (ud_mp u))" using D(7,8) s by auto
  obtain p' mp' where r: "wd_release_slot s (ud_pool u) (ud_mp u) = Some (p', mp')" "mp_inv mp'"
      "mp_free mp' = mp_free (ud_mp u) @ [s]" "mp_frame {s} (ud_mp u) mp'" "bp_owned p' ?others"
      "bp_free p' = bp_free (ud_pool u) @ car s" "bp_frame (set (car s)) (ud_pool u) p'"
    using wd_release_slot_ok [OF D(3) sh car(1) [OF s] own] by blast
  let ?u = "u\<lparr>ud_pool := p', ud_mp := mp'\<rparr>"
  have call: "msg_token_complete s u = Some ?u"
    using r(1) car(2) [OF s] by (simp add: msg_token_complete_def)
  have "slot_carries p' mp' q (car q) \<and> ms_channel (mp_slots mp' ! q) \<and> mh_name (ms_hdr (mp_slots mp' ! q)) = Some q"
    if q: "q \<in> set (remove1 s fl)" for q
  proof -
    have q': "q \<in> set fl" "q \<noteq> s" "q \<in> mp_handles (ud_mp u)" using q D(7,8) by auto
    have "set (car q) \<subseteq> bp_blocks (ud_pool u)" "set (car q) \<inter> set (car s) = {}"
      using own q by (auto simp: bp_owned_def)
    then show ?thesis
      using car [OF q'(1)] slot_carries_frame [OF r(7)] slot_carries_mp_frame [OF r(4) q'(3)] q'(2) by simp
  qed
  then have "udp_holds car (remove1 s fl) rest ?u"
    using D r(2,3,5) s mp_frame_handles [OF r(4)] r(4) by (auto simp: udp_holds_def Let_def mp_frame_def)
  then show ?thesis using call r by auto
qed

section \<open>A worker that ran out of submission entries\<close>

text \<open>The write coroutine has ended; nobody will ever wait on the notify token again.\<close>

definition udp_dead :: "'r udp_worker \<Rightarrow> bool" where
  "udp_dead u \<longleftrightarrow> \<not> ud_writing u \<and> nt_handle (ud_notify u) = None"

lemma udp_notify_dead:
  assumes "udp_dead u"
  shows "\<exists>t. udp_notify api u = Some (u\<lparr>ud_notify := t\<rparr>) \<and> udp_dead (u\<lparr>ud_notify := t\<rparr>)"
  using assms by (auto simp: udp_notify_def udp_dead_def nt_notify_def)

lemma udp_submit_dead:
  assumes d: "udp_dead u" and s: "udp_submit api addr n u = Some (b, u')"
  shows "udp_dead u' \<and> ud_sqes u' = ud_sqes u"
proof -
  have notify: "udp_dead v' \<and> ud_sqes v' = ud_sqes v" if "udp_dead v" "udp_notify api v = Some v'" for v v'
    using udp_notify_dead [OF that(1), of api] that(2) by auto
  obtain slot mp1 where acq: "wd_acquire_slot (ud_mp u) = (slot, mp1)" by (cases "wd_acquire_slot (ud_mp u)")
  show ?thesis
  proof (cases slot)
    case None
    then show ?thesis using s d acq by (auto simp: udp_submit_def udp_dead_def bind_eq_Some_conv)
  next
    case (Some q)
    then obtain mp2 ok w1 mp3 where sub: "wd_submit (Some q) (ud_wbuf u) (ud_pool u) mp2 = Some (ok, w1, mp3)"
        "mp_set_peer q addr n mp1 = Some mp2"
      using s acq by (auto simp: udp_submit_def bind_eq_Some_conv)
    show ?thesis
    proof (cases ok)
      case True
      then have "udp_notify api (u\<lparr>ud_mp := mp3, ud_wbuf := w1\<rparr>) = Some u'"
        using s acq Some sub by (auto simp: udp_submit_def)
      then show ?thesis using notify [of "u\<lparr>ud_mp := mp3, ud_wbuf := w1\<rparr>" u'] d by (simp add: udp_dead_def)
    next
      case False
      then show ?thesis using s d acq Some sub by (auto simp: udp_submit_def udp_dead_def bind_eq_Some_conv)
    qed
  qed
qed

lemma udp_submit_starved:
  assumes h: "udp_holds car fl rest u" and wt: "udp_waiting u" and acc: "udp_accepts u"
    and n: "unat n \<le> length addr" "unat n \<le> sockaddr_storage_size"
    and sq: "\<not> fst (u_get_sqe api (ir_ring (ud_ring u)))"
  shows "\<exists>u'. udp_submit api addr n u = Some (True, u') \<and> udp_dead u' \<and> ud_sqes u' = ud_sqes u"
proof -
  note D = udp_holdsD [OF h]
  obtain s ss where free: "mp_free (ud_mp u) = s # ss"
    using acc by (cases "mp_free (ud_mp u)") (auto simp: udp_accepts_def)
  obtain mp1 mp2 where mp2: "wd_acquire_slot (ud_mp u) = (Some s, mp1)" "mp_set_peer s addr n mp1 = Some mp2"
      "mp_inv mp2" "mp_frame {s} (ud_mp u) mp2" "s \<in> mp_handles mp2"
    using udp_take_slot [OF h free n] by blast
  obtain w1 mp3 where sub: "wd_submit (Some s) (ud_wbuf u) (ud_pool u) mp2 = Some (True, w1, mp3)"
      "wd_submit_post s (ud_wbuf u) (ud_pool u) mp2 w1 mp3"
    using wd_submit_accepted [OF D(1), of mp2 s "ud_pool u"] acc mp2(3-5) D(5)
    by (auto simp: udp_accepts_def mp_inv_def mp_handles_def mp_frame_def)
  obtain r where r: "u_get_sqe api (ir_ring (ud_ring u)) = (False, r)"
    using sq by (cases "u_get_sqe api (ir_ring (ud_ring u))") simp
  let ?u = "u\<lparr>ud_mp := mp3, ud_wbuf := w1\<rparr>"
  have "wd_shape w1" "wd_queue w1 = [s]" using sub(2) D(6) by (simp_all add: wd_submit_post_def)
  then have "udp_notify api ?u = Some (?u\<lparr>ud_notify := (ud_notify u)\<lparr>nt_handle := None\<rparr>,
      ud_ring := (ud_ring u)\<lparr>ir_ring := r\<rparr>, ud_mp := mp_mark s mp3, ud_writing := False\<rparr>)"
    using udp_notify_dies [of ?u s api r] wt r by (simp add: udp_waiting_def)
  then show ?thesis using mp2(1,2) sub(1) by (simp add: udp_submit_def udp_dead_def)
qed

text \<open>
  C21: running out of submission entries silences a UDP channel for good. If \<^verbatim>\<open>io_uring_get_sqe\<close> answers
  null once while a datagram is submitted, \<^verbatim>\<open>submit\<close> still reports success, but nothing was handed to the
  kernel and the write coroutine has ended; from then on no submission ever prepares an entry again,
  however many entries the ring has by then and whatever \<^verbatim>\<open>submit\<close> reports.
\<close>

theorem udp_write_loop_dies:
  assumes "udp_holds car fl rest u" and "udp_waiting u" and "udp_accepts u"
    and "unat n \<le> length addr" and "unat n \<le> sockaddr_storage_size"
    and "\<not> fst (u_get_sqe api (ir_ring (ud_ring u)))"
  shows "\<exists>u'. udp_submit api addr n u = Some (True, u') \<and> ud_sqes u' = ud_sqes u \<and> udp_dead u' \<and>
    (\<forall>api' addr' n' v b v'. udp_dead v \<and> udp_submit api' addr' n' v = Some (b, v') \<longrightarrow>
       udp_dead v' \<and> ud_sqes v' = ud_sqes v)"
  using udp_submit_starved [OF assms] udp_submit_dead by blast

theorem udp_write_loop_dies_witness:
  "\<exists>u u'. udp_append [1, 2, 3] 3 sample_udp = Some (True, u) \<and>
     udp_submit (sample_udp_api\<lparr>u_get_sqe := (\<lambda>_. (False, ()))\<rparr>) (replicate 16 2) 16 u = Some (True, u') \<and>
     ud_sqes u' = [] \<and> udp_dead u'"
proof -
  obtain u where u: "udp_append [1, 2, 3] 3 sample_udp = Some (True, u)" "udp_holds (\<lambda>_. []) [] [] u"
      "udp_waiting u" "udp_accepts u" "ud_sqes u = []"
    using sample_udp_append by blast
  then show ?thesis
    using udp_write_loop_dies [OF u(2-4), of 16 "replicate 16 2" "sample_udp_api\<lparr>u_get_sqe := (\<lambda>_. (False, ()))\<rparr>"]
    by (auto simp: sockaddr_storage_size_def)
qed

section \<open>Executions\<close>

text \<open>
  \<open>udp_run api u fl sent\<close>: an execution of the sending path has reached worker \<open>u\<close>; the slots \<open>fl\<close> are with
  the kernel, and \<open>sent\<close> lists the submitted datagrams in order, each with its slot, the bytes that were
  pending when it was submitted, and the peer it was submitted to. The kernel may complete the flying
  slots in any order.
\<close>

type_synonym datagram = "byte list \<times> (u32 \<times> byte list) option"

inductive udp_run :: "('r, 'q) udp_api \<Rightarrow> 'r udp_worker \<Rightarrow> nat list \<Rightarrow> (nat \<times> datagram) list \<Rightarrow> bool"
  for api where
  run_start: "udp_holds car [] rest u \<Longrightarrow> udp_waiting u \<Longrightarrow> ud_sqes u = [] \<Longrightarrow> udp_run api u [] []"
| run_append: "udp_run api u fl sent \<Longrightarrow> length d = unat sz \<Longrightarrow> udp_append d sz u = Some (b, u') \<Longrightarrow>
    udp_run api u' fl sent"
| run_submit: "udp_run api u fl sent \<Longrightarrow> unat n \<le> length addr \<Longrightarrow> unat n \<le> sockaddr_storage_size \<Longrightarrow>
    fst (u_get_sqe api (ir_ring (ud_ring u))) \<Longrightarrow> udp_submit api addr n u = Some (True, u') \<Longrightarrow>
    udp_run api u' (fl @ [hd (mp_free (ud_mp u))])
      (sent @ [(hd (mp_free (ud_mp u)), bp_bytes (ud_pool u) (wb_plist (ud_wbuf u)),
         Some (n, take (unat n) addr))])"
| run_refused: "udp_run api u fl sent \<Longrightarrow> unat n \<le> length addr \<Longrightarrow> unat n \<le> sockaddr_storage_size \<Longrightarrow>
    fst (u_get_sqe api (ir_ring (ud_ring u))) \<Longrightarrow> udp_submit api addr n u = Some (False, u') \<Longrightarrow> udp_run api u' fl sent"
| run_complete: "udp_run api u fl sent \<Longrightarrow> s \<in> set fl \<Longrightarrow> msg_token_complete s u = Some u' \<Longrightarrow>
    udp_run api u' (remove1 s fl) sent"

text \<open>The last datagram logged for a slot, and the one its message header describes now.\<close>

definition last_sent :: "(nat \<times> datagram) list \<Rightarrow> nat \<Rightarrow> datagram option" where
  "last_sent sent s = map_of (rev sent) s"

definition slot_datagram :: "'r udp_worker \<Rightarrow> nat \<Rightarrow> datagram" where
  "slot_datagram u s = (slot_payload (ud_pool u) (ud_mp u) s, slot_peer (ud_mp u) s)"

definition udp_run_inv :: "'r udp_worker \<Rightarrow> nat list \<Rightarrow> (nat \<times> datagram) list \<Rightarrow> bool" where
  "udp_run_inv u fl sent \<longleftrightarrow> (\<exists>car rest. udp_holds car fl rest u) \<and> udp_waiting u \<and>
     ud_sqes u = map (\<lambda>(s, _). send_sqe (ud_fd u) s) sent \<and>
     (\<forall>s \<in> set fl. last_sent sent s = Some (slot_datagram u s))"

lemma udp_datagram_frame:
  assumes car: "slot_carries (ud_pool u) (ud_mp u) s bs" and nm: "mh_name (ms_hdr (mp_slots (ud_mp u) ! s)) = Some s"
    and fr: "bp_frame S (ud_pool u) (ud_pool u')" "set bs \<subseteq> bp_blocks (ud_pool u)" "set bs \<inter> S = {}"
    and mp: "mp_slots (ud_mp u') ! s = mp_slots (ud_mp u) ! s" "mp_segment (ud_mp u') s = mp_segment (ud_mp u) s"
      "mp_max_iov (ud_mp u') = mp_max_iov (ud_mp u)"
  shows "slot_datagram u' s = slot_datagram u s"
proof -
  have "slot_carries (ud_pool u') (ud_mp u') s bs"
    using slot_carries_frame [OF fr, of "ud_mp u" s] car mp by (simp add: slot_carries_segment)
  then show ?thesis
    using car nm mp(1) bp_owned_frame_bytes [OF fr]
    by (simp add: slot_datagram_def slot_carries_payload slot_peer_def)
qed

lemma run_inv_append:
  assumes "udp_run_inv u fl sent" and "length d = unat sz" and "udp_append d sz u = Some (b, u')"
  shows "udp_run_inv u' fl sent"
proof -
  obtain car rest where h: "udp_holds car fl rest u" using assms(1) by (auto simp: udp_run_inv_def)
  have "udp_holds car fl rest u'" and u': "\<exists>w p. u' = u\<lparr>ud_wbuf := w, ud_pool := p\<rparr>"
    and "\<forall>s \<in> set fl. slot_payload (ud_pool u') (ud_mp u') s = slot_payload (ud_pool u) (ud_mp u) s"
    using udp_append_ok [OF h assms(2)] assms(3) by auto
  moreover from u' have "udp_waiting u' = udp_waiting u" "ud_sqes u' = ud_sqes u" "ud_fd u' = ud_fd u"
    by (auto simp: udp_waiting_def)
  moreover from u' have "ud_mp u' = ud_mp u" by auto
  ultimately show ?thesis using assms(1) by (auto simp: udp_run_inv_def slot_datagram_def)
qed

lemma run_inv_submit:
  assumes inv: "udp_run_inv u fl sent" and n: "unat n \<le> length addr" "unat n \<le> sockaddr_storage_size"
    and sq: "fst (u_get_sqe api (ir_ring (ud_ring u)))" and s: "udp_submit api addr n u = Some (True, u')"
  shows "udp_run_inv u' (fl @ [hd (mp_free (ud_mp u))])
      (sent @ [(hd (mp_free (ud_mp u)), bp_bytes (ud_pool u) (wb_plist (ud_wbuf u)),
         Some (n, take (unat n) addr))])"
proof -
  let ?s = "hd (mp_free (ud_mp u))"
  obtain car rest where h: "udp_holds car fl rest u" and wt: "udp_waiting u"
    using inv by (auto simp: udp_run_inv_def)
  have acc: "udp_accepts u" using udp_submit_refused [OF h _ n, of api] s by fastforce
  have post: "udp_accepted_post car fl rest addr n u u'"
    using udp_submit_accepted [OF h wt acc n sq] s by auto
  have fd: "ud_fd u' = ud_fd u" using post by (simp add: udp_accepted_post_def Let_def)
  have "?s \<notin> set fl" using udp_holdsD(7) [OF h] acc by (cases "mp_free (ud_mp u)") (auto simp: udp_accepts_def)
  have "slot_datagram u' q = slot_datagram u q" if q: "q \<in> set fl" for q
  proof (rule udp_datagram_frame [where S = "{}" and bs = "car q"])
    show "slot_carries (ud_pool u) (ud_mp u) q (car q)" "mh_name (ms_hdr (mp_slots (ud_mp u) ! q)) = Some q"
      using h q by (simp_all add: udp_holds_def Let_def)
    show "set (car q) \<subseteq> bp_blocks (ud_pool u)" using udp_holdsD(9) [OF h] q by (auto simp: bp_owned_def)
  qed (use post q in \<open>simp_all add: udp_accepted_post_def Let_def\<close>)
  then show ?thesis
    using post inv fd \<open>?s \<notin> set fl\<close>
    by (auto simp: udp_accepted_post_def udp_run_inv_def Let_def last_sent_def slot_datagram_def)
qed

lemma run_inv_refused:
  assumes inv: "udp_run_inv u fl sent" and n: "unat n \<le> length addr" "unat n \<le> sockaddr_storage_size"
    and sq: "fst (u_get_sqe api (ir_ring (ud_ring u)))" and s: "udp_submit api addr n u = Some (False, u')"
  shows "udp_run_inv u' fl sent"
proof -
  obtain car rest where h: "udp_holds car fl rest u" and wt: "udp_waiting u"
    using inv by (auto simp: udp_run_inv_def)
  note D = udp_holdsD [OF h]
  have no: "\<not> udp_accepts u" using udp_submit_accepted [OF h wt _ n sq] s by fastforce
  have post: "udp_refused_post car fl rest u u'" using udp_submit_refused [OF h no n, of api] s by auto
  have "slot_datagram u' q = slot_datagram u q" if q: "q \<in> set fl" for q
  proof (rule udp_datagram_frame)
    show "slot_carries (ud_pool u) (ud_mp u) q (car q)" "mh_name (ms_hdr (mp_slots (ud_mp u) ! q)) = Some q"
      using h q by (simp_all add: udp_holds_def Let_def)
    show "bp_frame (set (wb_plist (ud_wbuf u))) (ud_pool u) (ud_pool u')" using post by (simp add: udp_refused_post_def)
    have sub: "set (car q) \<subseteq> set (concat (map car fl))" using q by auto
    show "set (car q) \<subseteq> bp_blocks (ud_pool u)" "set (car q) \<inter> set (wb_plist (ud_wbuf u)) = {}"
      using D(9) sub unfolding bp_owned_def distinct_append set_append by blast+
  qed (use post q in \<open>simp_all add: udp_refused_post_def\<close>)
  then show ?thesis
    using post inv by (auto simp: udp_refused_post_def udp_run_inv_def udp_waiting_def)
qed

lemma run_inv_complete:
  assumes inv: "udp_run_inv u fl sent" and s: "s \<in> set fl" and c: "msg_token_complete s u = Some u'"
  shows "udp_run_inv u' (remove1 s fl) sent"
proof -
  obtain car rest where h: "udp_holds car fl rest u" using inv by (auto simp: udp_run_inv_def)
  note D = udp_holdsD [OF h]
  have post: "udp_holds car (remove1 s fl) rest u'" "ud_sqes u' = ud_sqes u" "ud_notify u' = ud_notify u"
      "ud_writing u' = ud_writing u" "ud_fd u' = ud_fd u" "bp_frame (set (car s)) (ud_pool u) (ud_pool u')"
      "mp_frame {s} (ud_mp u) (ud_mp u')"
    using msg_token_complete_ok [OF h s] c by auto
  have "slot_datagram u' q = slot_datagram u q" if q: "q \<in> set (remove1 s fl)" for q
  proof (rule udp_datagram_frame [OF _ _ post(6)])
    have q': "q \<in> set fl" "q \<noteq> s" "q \<in> mp_handles (ud_mp u)" using q D(7,8) by auto
    show "slot_carries (ud_pool u) (ud_mp u) q (car q)" "mh_name (ms_hdr (mp_slots (ud_mp u) ! q)) = Some q"
      using h q' by (simp_all add: udp_holds_def Let_def)
    have "bp_owned (ud_pool u) (car q @ car s @ wb_plist (ud_wbuf u) @ concat (map car (remove1 q (remove1 s fl))) @ rest)"
    proof -
      note m = concat_map_remove1_mset [OF s, of car] concat_map_remove1_mset [OF q, of car]
      show ?thesis
        using D(9) m by (subst bp_owned_perm [of _ "wb_plist (ud_wbuf u) @ concat (map car fl) @ rest"]) simp_all
    qed
    then show "set (car q) \<subseteq> bp_blocks (ud_pool u)" "set (car q) \<inter> set (car s) = {}"
      by (auto simp: bp_owned_def)
    show "mp_slots (ud_mp u') ! q = mp_slots (ud_mp u) ! q" "mp_segment (ud_mp u') q = mp_segment (ud_mp u) q"
        "mp_max_iov (ud_mp u') = mp_max_iov (ud_mp u)"
      using post(7) q' by (simp_all add: mp_frame_def)
  qed
  then show ?thesis
    using post inv by (auto simp: udp_run_inv_def udp_waiting_def dest: notin_set_remove1)
qed

lemma udp_run_invariant: "udp_run api u fl sent \<Longrightarrow> udp_run_inv u fl sent"
proof (induction rule: udp_run.induct)
  case (run_start car rest u)
  then show ?case by (auto simp: udp_run_inv_def)
qed (blast intro: run_inv_append run_inv_submit run_inv_refused run_inv_complete)+

text \<open>
  C6: datagrams reach the kernel once each, intact. Along every execution of a UDP worker's sending
  path: the entries prepared are one \<^verbatim>\<open>sendmsg\<close> per successful submission, in order, each on the header of
  the slot taken; while a datagram is in flight that header, followed through \<^verbatim>\<open>msg_iov\<close> and \<^verbatim>\<open>msg_name\<close>,
  describes exactly the bytes that were pending when it was submitted and the length and the bytes of
  the address it was submitted to, whatever is appended, submitted, refused or completed meanwhile; and
  the completion of any datagram in flight succeeds.
\<close>

theorem udp_datagram_integrity:
  assumes "udp_run api u fl sent"
  shows "ud_sqes u = map (\<lambda>(s, _). send_sqe (ud_fd u) s) sent \<and> distinct fl \<and>
    (\<forall>s \<in> set fl. last_sent sent s = Some (slot_payload (ud_pool u) (ud_mp u) s, slot_peer (ud_mp u) s) \<and>
       msg_token_complete s u \<noteq> None)"
proof -
  have inv: "udp_run_inv u fl sent" by (rule udp_run_invariant [OF assms])
  then obtain car rest where h: "udp_holds car fl rest u" by (auto simp: udp_run_inv_def)
  have "msg_token_complete s u \<noteq> None" if "s \<in> set fl" for s
    using msg_token_complete_ok [OF h that] by auto
  then show ?thesis using inv udp_holdsD(7) [OF h] by (auto simp: udp_run_inv_def slot_datagram_def)
qed

theorem udp_datagram_integrity_witness:
  "\<exists>u. udp_run sample_udp_api u [0] [(0, [1, 2, 3], Some (16, replicate 16 2))] \<and>
     slot_payload (ud_pool u) (ud_mp u) 0 = [1, 2, 3] \<and> slot_peer (ud_mp u) 0 = Some (16, replicate 16 2)"
proof -
  define u1 where "u1 = snd (the (udp_append [1, 2, 3] 3 sample_udp))"
  define u2 where "u2 = snd (the (udp_submit sample_udp_api (replicate 16 2) 16 u1))"
  have "udp_run sample_udp_api sample_udp [] []"
    by (rule run_start [OF sample_udp_holds sample_udp_waiting]) (simp add: sample_udp_def)
  moreover have "udp_append [1, 2, 3] 3 sample_udp = Some (True, u1)" unfolding u1_def by code_simp
  ultimately have r1: "udp_run sample_udp_api u1 [] []"
    using run_append [of sample_udp_api sample_udp "[]" "[]" "[1, 2, 3]" 3 True u1] by simp
  have "udp_submit sample_udp_api (replicate 16 2) 16 u1 = Some (True, u2)" unfolding u2_def u1_def by code_simp
  moreover have "hd (mp_free (ud_mp u1)) = 0" "bp_bytes (ud_pool u1) (wb_plist (ud_wbuf u1)) = [1, 2, 3]"
    unfolding u1_def by code_simp+
  ultimately have r2: "udp_run sample_udp_api u2 [0] [(0, [1, 2, 3], Some (16, replicate 16 2))]"
    using run_submit [OF r1, of 16 "replicate 16 2" u2] by (simp add: sockaddr_storage_size_def sample_udp_api_def)
  from r2 udp_datagram_integrity [OF r2] show ?thesis
    by (intro exI [of _ u2]) (simp add: last_sent_def)
qed

end
