(* ===== verification/Udp_Receive_Spec.thy ===== *)
theory Udp_Receive_Spec
  imports Udp_Receive Udp_Send Buf_Kernel
begin

text \<open>
  What the receiving half of a UDP channel promises: every datagram the kernel delivers is presented to the
  application once, whole and in order, and every receive buffer is at any time either with the kernel or in the
  queue of the channel.
\<close>

section \<open>Runs\<close>

text \<open>
  The runs of the receiving half: the kernel completes the receive with a message in one of its buffers \<open>ks\<close>, or
  fails it; the application peeks and consumes. \<open>recvd\<close> lists the messages delivered, \<open>got\<close> those consumed. The run ends
  if the coroutine does.
\<close>

inductive udp_recv_run ::
  "('r, 'q) udp_api \<Rightarrow> recvmsg \<Rightarrow> 'r udp_channel \<Rightarrow> u32 list \<Rightarrow> byte list list \<Rightarrow> byte list list \<Rightarrow> bool" for api rm where
  recv_start: "is_power_of_two n \<Longrightarrow> unat n \<le> 2 ^ 15 \<Longrightarrow> length mem = unat n * unat bs \<Longrightarrow> 0 < unat bs \<Longrightarrow>
    unat n * unat bs < 2 ^ 31 \<Longrightarrow> buf_ring_new True g mem n bs = Some b \<Longrightarrow>
    length q = unat n \<Longrightarrow> length pd = unat n \<Longrightarrow> length ps = unat n \<Longrightarrow>
    udp_assign api fd (udp_channel_new ws (q, pd, ps, pc) capacity ring b pool mp) = Some x \<Longrightarrow> uc_reading x \<Longrightarrow>
    udp_recv_run api rm x (map ucast (br_published b)) [] []"
| recv_data: "udp_recv_run api rm x ks recvd got \<Longrightarrow> i \<in> set ks \<Longrightarrow> ds \<noteq> [] \<Longrightarrow>
    length ds \<le> unat (br_bsize (uc_br x)) \<Longrightarrow> cqe_buffer_id flag = i \<Longrightarrow>
    udp_read_complete api idle_srv (of_nat (length ds)) flag (x\<lparr>uc_br := kernel_fill i ds (uc_br x)\<rparr>) = Some x' \<Longrightarrow>
    uc_reading x' \<Longrightarrow> udp_recv_run api rm x' (remove1 i ks) (recvd @ [ds]) got"
| recv_fail: "udp_recv_run api rm x ks recvd got \<Longrightarrow> sint res < 0 \<Longrightarrow>
    udp_read_complete api idle_srv res flag x = Some x' \<Longrightarrow> uc_reading x' \<Longrightarrow> udp_recv_run api rm x' ks recvd got"
| recv_peek: "udp_recv_run api rm x ks recvd got \<Longrightarrow> udp_peek rm x = Some (m, x') \<Longrightarrow> udp_recv_run api rm x' ks recvd got"
| recv_take: "udp_recv_run api rm x ks recvd got \<Longrightarrow> udp_consume x = (True, x') \<Longrightarrow>
    udp_recv_run api rm x' (ks @ handed (uc_br x) (uc_br x')) recvd
      (got @ [br_block (uc_br x) (rd_head_idx (uc_rbuf x))])"

definition udp_recv_inv :: "'r udp_channel \<Rightarrow> u32 list \<Rightarrow> byte list list \<Rightarrow> byte list list \<Rightarrow> bool" where
  "udp_recv_inv x ks recvd got \<longleftrightarrow> rd_inv (uc_br x) (uc_rbuf x) \<and>
     uc_reading x \<and> tk_handle (uc_rtok x) = Some () \<and> rd_msghdr (uc_rbuf x) = recv_msghdr_new \<and>
     recvd = got @ map (br_block (uc_br x)) (rb_list (uc_rbuf x)) \<and>
     distinct (ks @ rb_list (uc_rbuf x)) \<and> set (ks @ rb_list (uc_rbuf x)) = br_blocks (uc_br x)"

lemma udp_recv_invD:
  assumes "udp_recv_inv x ks recvd got"
  shows "rd_inv (uc_br x) (uc_rbuf x)" "uc_reading x" "tk_handle (uc_rtok x) = Some ()"
    "recvd = got @ map (br_block (uc_br x)) (rb_list (uc_rbuf x))"
    "distinct (ks @ rb_list (uc_rbuf x))" "set (ks @ rb_list (uc_rbuf x)) = br_blocks (uc_br x)"
    "rd_msghdr (uc_rbuf x) = recv_msghdr_new"
  using assms unfolding udp_recv_inv_def by blast+

lemma udp_recv_invI:
  assumes "rd_inv (uc_br x) (uc_rbuf x)" "uc_reading x" "tk_handle (uc_rtok x) = Some ()"
    "recvd = got @ map (br_block (uc_br x)) (rb_list (uc_rbuf x))"
    "distinct (ks @ rb_list (uc_rbuf x))" "set (ks @ rb_list (uc_rbuf x)) = br_blocks (uc_br x)"
    "rd_msghdr (uc_rbuf x) = recv_msghdr_new"
  shows "udp_recv_inv x ks recvd got"
  using assms unfolding udp_recv_inv_def by blast

text \<open>Arming the receive touches neither buffers nor token.\<close>

lemma udp_recv_arm_frame:
  assumes "udp_recv_arm api x = (t, x')"
  shows "uc_br x' = uc_br x" "uc_rbuf x' = uc_rbuf x" "uc_rtok x' = uc_rtok x" "uc_reading x' = uc_reading x"
  using assms by (auto simp: udp_recv_arm_def Let_def split: prod.splits sum.splits)

lemma inv_udp_start:
  assumes n: "is_power_of_two n" "unat n \<le> 2 ^ 15" "length mem = unat n * unat bs" "0 < unat bs" "unat n * unat bs < 2 ^ 31"
    and b: "buf_ring_new True g mem n bs = Some b" and len: "length q = unat n" "length pd = unat n" "length ps = unat n"
    and x: "udp_assign api fd (udp_channel_new ws (q, pd, ps, pc) capacity ring b pool mp) = Some x" "uc_reading x"
  shows "udp_recv_inv x (map ucast (br_published b)) [] []"
proof -
  have b': "br_shape b" "br_num b = n" "br_published b = map of_nat [0..<unat n]"
    using buf_ring_new_ok [OF n, of g] b by auto
  have f: "uc_br x = b" "uc_rbuf x = read_dgram_new q pd ps pc b" "tk_handle (uc_rtok x) = Some ()"
    using x by (auto simp: udp_assign_def udp_read_start_def udp_read_await_def token_await_suspend_def Let_def udp_channel_new_def
        split: prod.splits bool.splits dest: udp_recv_arm_frame)
  have new: "rd_inv b (read_dgram_new q pd ps pc b)" "rb_list (read_dgram_new q pd ps pc b) = []"
      "rd_msghdr (read_dgram_new q pd ps pc b) = recv_msghdr_new"
    using read_dgram_new_ok [OF b'(1)] len b'(2) by simp_all
  have small: "i < 2 ^ 16" if "i < unat n" for i using that n(2) by simp
  have u: "map ucast (br_published b) = map (of_nat :: nat \<Rightarrow> u32) [0..<unat n]"
    using small by (auto simp: b'(3) unsigned_of_nat take_bit_nat_eq_self)
  have un: "unat (of_nat i :: u32) = i" if "i < unat n" for i
    using small [OF that] by (simp add: unat_of_nat take_bit_nat_eq_self)
  have "inj_on (of_nat :: nat \<Rightarrow> u32) {0..<unat n}" using un by (metis atLeastLessThan_iff inj_onI)
  then have "distinct (map ucast (br_published b) :: u32 list)" by (simp add: u distinct_map)
  moreover have "set (map ucast (br_published b) :: u32 list) = br_blocks b"
  proof (rule set_eqI)
    fix i :: u32
    show "i \<in> set (map ucast (br_published b)) \<longleftrightarrow> i \<in> br_blocks b"
      using un by (auto simp: u br_blocks_def b'(2) word_less_nat_alt image_iff intro!: bexI [of _ "unat i"])
  qed
  ultimately show ?thesis using f x(2) new by (intro udp_recv_invI) simp_all
qed

text \<open>A datagram arrives.\<close>

lemma rd_inv_cong:
  assumes "rd_inv b r" and "rb_filled b' (rb_list r)" and "br_num b' = br_num b"
    and "\<And>j. j \<in> set (rb_list r) \<Longrightarrow> br_block b' j = br_block b j"
  shows "rd_inv b' r"
proof -
  have "br_bytes b' (rb_list r) = br_bytes b (rb_list r)" using assms(4) by (simp add: br_bytes_def cong: map_cong)
  then show ?thesis using assms by (intro rd_invI) (auto simp: rd_inv_def)
qed

lemma rd_receive:
  assumes inv: "rd_inv b r" and i: "i \<in> br_blocks b" "i \<notin> set (rb_list r)"
    and ds: "ds \<noteq> []" "length ds \<le> unat (br_bsize b)" and sz: "unat sz = length ds"
  defines "b' \<equiv> br_set_data_size i sz (kernel_fill i ds b)"
  shows "\<exists>r'. rb_push_buf i b' r = (True, r') \<and> rd_inv b' r' \<and> rb_list r' = rb_list r @ [i] \<and> rd_msghdr r' = rd_msghdr r \<and> br_block b' i = ds \<and>
    (\<forall>j \<in> set (rb_list r). br_block b' j = br_block b j)"
proof -
  note I = rd_invD [OF inv]
  let ?k = "kernel_fill i ds b"
  have sh: "br_shape ?k" and ik: "i \<in> br_blocks ?k" using kernel_fill_shape [OF I(3) i(1) ds(2)] i(1) by simp_all
  note s = br_set_data_size_sizes [OF sh ik]
  have blk: "br_block b' j = br_block b j" "br_data_size b' j = br_data_size b j" if "j \<in> set (rb_list r)" for j
    using that i(2) s(2,3) [of j sz] rb_filled_kernel_fill(2) [OF I(2) i ds(2)] by (auto simp: b'_def)
  have shape: "br_shape b'" unfolding b'_def by (rule br_set_data_size_shape [OF sh])
  have bl: "br_blocks b' = br_blocks b" by (simp add: b'_def br_blocks_def)
  have f: "rb_filled b' (rb_list r)"
    using I(2) shape blk(2) bl by (auto simp: rb_filled_def) (simp add: b'_def)
  have f': "rb_filled b' (rb_list r @ [i])"
    using f i ds sz s(1) bl by (auto simp: rb_filled_def b'_def)
  have "rd_inv b' r" using rd_inv_cong [OF inv f] blk(1) by (simp add: b'_def)
  from rd_push_ok [OF this f'] obtain r' where "rb_push_buf i b' r = (True, r')" "rd_inv b' r'" "rb_list r' = rb_list r @ [i]"
      "rd_msghdr r' = rd_msghdr r" by blast
  moreover have "br_block b' i = ds"
    using kernel_fill_block(1) [OF I(3) i(1) ds(2)] sz s(1) [of sz] by (simp add: br_block_def b'_def br_buf_addr_def)
  ultimately show ?thesis using blk(1) by blast
qed

lemma udp_read_complete_cases:
  assumes "udp_read_complete api idle_srv res flag x = Some x'" and "uc_reading x'" and "tk_handle (uc_rtok x) = Some ()"
  shows "\<exists>x1. uc_br x1 = uc_br x \<and> uc_rbuf x1 = uc_rbuf x \<and> uc_reading x1 = uc_reading x \<and>
    (if sint res < 0 then x' = udp_read_await x1
     else map_option udp_read_await (udp_recv_store (cqe_buffer_id flag) res x1) = Some x')"
proof -
  let ?x = "x\<lparr>uc_rtok := snd (token_complete res flag (uc_rtok x))\<rparr>"
  obtain t x1 where a: "(if has_more flag then (False, ?x) else udp_recv_arm api ?x) = (t, x1)" by fastforce
  then have "uc_br x1 = uc_br x" "uc_rbuf x1 = uc_rbuf x" "uc_reading x1 = uc_reading x"
    using udp_recv_arm_frame [of api ?x t x1] by (auto split: if_splits)
  moreover have "\<not> t"
    using assms a by (auto simp: udp_read_complete_def token_complete_def udp_read_resume_def Let_def split: if_splits)
  ultimately show ?thesis
    using assms a by (intro exI [of _ x1])
      (auto simp: udp_read_complete_def token_complete_def udp_read_resume_def token_await_resume_def idle_srv_def Let_def
        split: if_splits Option.bind_splits)
qed

lemma inv_udp_data:
  assumes inv: "udp_recv_inv x ks recvd got" and i: "i \<in> set ks" and ds: "ds \<noteq> []" "length ds \<le> unat (br_bsize (uc_br x))"
    and flag: "cqe_buffer_id flag = i"
    and step: "udp_read_complete api idle_srv (of_nat (length ds)) flag (x\<lparr>uc_br := kernel_fill i ds (uc_br x)\<rparr>) = Some x'" "uc_reading x'"
  shows "udp_recv_inv x' (remove1 i ks) (recvd @ [ds]) got"
proof -
  note I = udp_recv_invD [OF inv] and R = rd_invD [OF udp_recv_invD(1) [OF inv]]
  have ib: "i \<in> br_blocks (uc_br x)" "i \<notin> set (rb_list (uc_rbuf x))" using i I(5,6) by auto
  have "1 * unat (br_bsize (uc_br x)) \<le> unat (br_num (uc_br x)) * unat (br_bsize (uc_br x))"
    using ib(1) by (intro mult_right_mono) (auto simp: br_blocks_def word_less_nat_alt)
  moreover have "unat (br_num (uc_br x)) * unat (br_bsize (uc_br x)) < 2 ^ 31" using R(3) by (simp add: br_shape_def)
  ultimately have "length ds < 2 ^ 31" using ds(2) by linarith
  then have sz: "unat (of_nat (length ds) :: i32) = length ds" "\<not> sint (of_nat (length ds) :: i32) < 0"
    by (simp_all add: unat_of_nat take_bit_nat_eq_self sint_of_nat_small)
  let ?b = "br_set_data_size i (of_nat (length ds)) (kernel_fill i ds (uc_br x))"
  from rd_receive [OF I(1) ib ds sz(1)] obtain r' where r': "rb_push_buf i ?b (uc_rbuf x) = (True, r')" "rd_inv ?b r'"
      "rb_list r' = rb_list (uc_rbuf x) @ [i]" "br_block ?b i = ds" "rd_msghdr r' = rd_msghdr (uc_rbuf x)"
      "\<forall>j \<in> set (rb_list (uc_rbuf x)). br_block ?b j = br_block (uc_br x) j" by blast
  obtain x1 where x1: "uc_br x1 = kernel_fill i ds (uc_br x)" "uc_rbuf x1 = uc_rbuf x"
      "map_option udp_read_await (udp_recv_store i (of_nat (length ds)) x1) = Some x'"
    using udp_read_complete_cases [OF step] I(3) sz(2) flag by auto
  then have x': "uc_br x' = ?b" "uc_rbuf x' = r'" "tk_handle (uc_rtok x') = Some ()"
    using r'(1) by (auto simp: udp_recv_store_def udp_read_await_def token_await_suspend_def Let_def split: if_splits)
  have bl: "br_blocks ?b = br_blocks (uc_br x)" by (simp add: br_blocks_def)
  have d: "distinct (remove1 i ks @ rb_list r')" "set (remove1 i ks @ rb_list r') = br_blocks ?b"
    using I(5,6) i ib(2) unfolding bl r'(3) by (auto simp: distinct_remove1)
  show ?thesis
    using r' x' step(2) I(4,7) d by (intro udp_recv_invI) simp_all
qed

lemma inv_udp_take:
  assumes inv: "udp_recv_inv x ks recvd got" and step: "udp_consume x = (True, x')"
  shows "udp_recv_inv x' (ks @ handed (uc_br x) (uc_br x')) recvd (got @ [br_block (uc_br x) (rd_head_idx (uc_rbuf x))])"
proof -
  note I = udp_recv_invD [OF inv] and R = rd_invD [OF udp_recv_invD(1) [OF inv]]
  have "rb_list (uc_rbuf x) \<noteq> []" using step rd_consume_none [of "uc_rbuf x" "uc_br x"] by (auto simp: udp_consume_def)
  then obtain i "is" where l: "rb_list (uc_rbuf x) = i # is" by (cases "rb_list (uc_rbuf x)") auto
  from rd_consume_ok [OF I(1) l] obtain r' where r': "rd_consume (uc_rbuf x) (uc_br x) = (True, r', br_release i (uc_br x))"
      "rd_inv (br_release i (uc_br x)) r'" "rb_list r' = is"
      "rd_msghdr r' = rd_msghdr (uc_rbuf x)" by blast
  have x': "x' = x\<lparr>uc_rbuf := r', uc_br := br_release i (uc_br x)\<rparr>" using step r'(1) by (simp add: udp_consume_def)
  have ib: "i \<in> br_blocks (uc_br x)" using I(6) l by auto
  have "br_block (br_release i (uc_br x)) j = br_block (uc_br x) j" if "j \<in> set is" for j
    using that br_release_other(2) [OF R(3) ib, of j] I(5,6) l by auto
  then have "map (br_block (br_release i (uc_br x))) is = map (br_block (uc_br x)) is" by simp
  then show ?thesis
    using I r' l handed_release [OF R(3) ib] rd_head_list [OF l] by (intro udp_recv_invI) (auto simp: x')
qed

lemma udp_recv_run_inv: "udp_recv_run api rm x ks recvd got \<Longrightarrow> udp_recv_inv x ks recvd got"
proof (induction rule: udp_recv_run.induct)
  case (recv_start n mem bs g b q pd ps fd ws pc capacity ring pool mp x)
  then show ?case by (rule inv_udp_start)
next
  case (recv_data x ks recvd got i ds flag x')
  from inv_udp_data [OF recv_data.IH recv_data.hyps(2-7)] show ?case .
next
  case (recv_fail x ks recvd got res flag x')
  note I = udp_recv_invD [OF recv_fail.IH]
  obtain x1 where "uc_br x1 = uc_br x" "uc_rbuf x1 = uc_rbuf x" "x' = udp_read_await x1"
    using udp_read_complete_cases [OF recv_fail.hyps(3,4) I(3)] recv_fail.hyps(2) by auto
  then show ?case
    using I recv_fail.hyps(4) by (intro udp_recv_invI) (simp_all add: udp_read_await_def token_await_suspend_def)
next
  case (recv_peek x ks recvd got m x')
  note I = udp_recv_invD [OF recv_peek.IH]
  have x': "uc_br x' = uc_br x" "uc_rtok x' = uc_rtok x" "uc_reading x' = uc_reading x"
    and r: "uc_rbuf x' = uc_rbuf x \<or> (\<exists>m. uc_rbuf x' = (uc_rbuf x)\<lparr>rd_peeked := m\<rparr>)"
    using recv_peek.hyps(2) by (auto simp: udp_peek_def rd_peek_def split: if_splits Option.bind_splits)
  have "rb_list (uc_rbuf x') = rb_list (uc_rbuf x)" "rd_inv (uc_br x) (uc_rbuf x')" "rd_msghdr (uc_rbuf x') = rd_msghdr (uc_rbuf x)"
    using r I(1) by (auto simp: rb_list_def rd_inv_def rb_shape_def)
  then show ?case using I by (intro udp_recv_invI) (simp_all add: x')
next
  case (recv_take x ks recvd got x')
  then show ?case by (intro inv_udp_take)
qed

text \<open>
  C7: receiving over UDP. In every run of the kernel, the read coroutine and the application, the messages
  delivered are those the application has consumed followed by those queued, byte for byte and in order: none is
  lost, doubled, overtaken or overwritten. Every receive buffer is either with the kernel or in the queue, and in
  one place only. \<^verbatim>\<open>peek\<close> presents the oldest message not consumed; the call fails only if that message is not valid.
\<close>

theorem udp_receive_exact:
  assumes "udp_recv_run api rm x ks recvd got"
  shows "recvd = got @ map (br_block (uc_br x)) (rb_list (uc_rbuf x)) \<and>
    distinct (ks @ rb_list (uc_rbuf x)) \<and> set (ks @ rb_list (uc_rbuf x)) = br_blocks (uc_br x) \<and>
    (\<forall>m x'. udp_peek rm x = Some (m, x') \<longrightarrow>
       (case m of None \<Rightarrow> recvd = got
        | Some d \<Rightarrow> length got < length recvd \<and> dm_out (br_bufs (uc_br x')) d = recvd ! length got)) \<and>
    (udp_peek rm x = None \<longrightarrow> length got < length recvd \<and>
       \<not> io_uring_recvmsg_validate rm (recvd ! length got) (rd_msghdr (uc_rbuf x)))"
proof -
  note I = udp_recv_invD [OF udp_recv_run_inv [OF assms]]
  have "(\<forall>m x'. udp_peek rm x = Some (m, x') \<longrightarrow>
       (case m of None \<Rightarrow> recvd = got
        | Some d \<Rightarrow> length got < length recvd \<and> dm_out (br_bufs (uc_br x')) d = recvd ! length got)) \<and>
    (udp_peek rm x = None \<longrightarrow> length got < length recvd \<and>
       \<not> io_uring_recvmsg_validate rm (recvd ! length got) (rd_msghdr (uc_rbuf x)))"
  proof (cases "rb_list (uc_rbuf x)")
    case Nil
    then show ?thesis using I(4) by (auto simp: udp_peek_def rd_peek_def rd_empty_iff)
  next
    case (Cons i "is")
    then have "\<not> rb_empty (uc_rbuf x)" "rd_head_idx (uc_rbuf x) = i" using rd_head_list [OF Cons] by auto
    moreover have "length got < length recvd" "recvd ! length got = br_block (uc_br x) i" using I(4) Cons by simp_all
    ultimately show ?thesis
      by (auto simp: udp_peek_def rd_peek_def dgram_msg_new_def dm_out_def br_block_def split: if_splits)
  qed
  then show ?thesis using I(4-6) by blast
qed

definition sample_recv_br :: buf_ring where
  "sample_recv_br = the (buf_ring_new True 0 (replicate 128 0) 2 64)"

definition sample_recv :: "unit udp_channel" where
  "sample_recv = the (udp_assign sample_udp_api 5 (udp_channel_new ([0, 0], [0, 0], [0, 0]) ([0, 0], [0, 0], [0, 0], 0) 2
     \<lparr>ir_ring = (), ir_queue_depth = 8\<rparr> sample_recv_br sample_pool sample_mp))"

text \<open>An instance of the message functions: any two bytes are valid, the first is the name.\<close>

definition sample_recvmsg :: recvmsg where
  "sample_recvmsg = \<lparr>io_uring_recvmsg_validate = \<lambda>bs _. 2 \<le> length bs, recvmsg_out_namelen = \<lambda>bs. 1,
     io_uring_recvmsg_name = \<lambda>bs. 0, io_uring_recvmsg_payload = \<lambda>bs _. 1,
     io_uring_recvmsg_payload_length = \<lambda>bs n _. n - 1\<rparr>"

lemma sample_recv_run: "udp_recv_run sample_udp_api rm sample_recv [0, 1] [] []"
proof -
  have "udp_recv_run sample_udp_api rm sample_recv (map ucast (br_published sample_recv_br)) [] []"
  proof (rule recv_start)
    show "buf_ring_new True 0 (replicate 128 0) 2 64 = Some sample_recv_br"
      unfolding sample_recv_br_def by code_simp
    show "udp_assign sample_udp_api 5 (udp_channel_new ([0, 0], [0, 0], [0, 0]) ([0, 0], [0, 0], [0, 0], 0) 2
       \<lparr>ir_ring = (), ir_queue_depth = 8\<rparr> sample_recv_br sample_pool sample_mp) = Some sample_recv"
      unfolding sample_recv_def by code_simp
    show "uc_reading sample_recv" unfolding sample_recv_def by code_simp
  qed (simp_all add: is_power_of_two_def)
  moreover have "(map ucast (br_published sample_recv_br) :: u32 list) = [0, 1]" unfolding sample_recv_br_def by code_simp
  ultimately show ?thesis by simp
qed

theorem udp_receive_exact_witness:
  "\<exists>x x' d. udp_recv_run sample_udp_api sample_recvmsg x [0] [[7, 8, 9]] [] \<and>
     udp_peek sample_recvmsg x = Some (Some d, x') \<and> dm_out (br_bufs (uc_br x')) d = [7, 8, 9]"
proof -
  define x where "x = the (udp_read_complete sample_udp_api idle_srv (of_nat (length [7 :: byte, 8, 9])) 65539
     (sample_recv\<lparr>uc_br := kernel_fill 1 [7, 8, 9] (uc_br sample_recv)\<rparr>))"
  have "udp_read_complete sample_udp_api idle_srv (of_nat (length [7 :: byte, 8, 9])) 65539
     (sample_recv\<lparr>uc_br := kernel_fill 1 [7, 8, 9] (uc_br sample_recv)\<rparr>) = Some x" unfolding x_def by code_simp
  moreover have "uc_reading x" "3 \<le> unat (br_bsize (uc_br sample_recv))" "cqe_buffer_id 65539 = 1"
    unfolding x_def by code_simp+
  ultimately have "udp_recv_run sample_udp_api sample_recvmsg x (remove1 1 [0, 1]) ([] @ [[7, 8, 9]]) []"
    by (intro recv_data [OF sample_recv_run, of 1 "[7, 8, 9]" 65539]) simp_all
  then have run: "udp_recv_run sample_udp_api sample_recvmsg x [0] [[7, 8, 9]] []" by simp
  note exact = udp_receive_exact [OF run]
  then obtain m x' where p: "udp_peek sample_recvmsg x = Some (m, x')"
    by (cases "udp_peek sample_recvmsg x") (auto simp: sample_recvmsg_def)
  then have "case m of None \<Rightarrow> [[7, 8, 9]] = [] | Some d \<Rightarrow> dm_out (br_bufs (uc_br x')) d = [7, 8, 9]"
    using exact by (cases m) auto
  then show ?thesis using run p by (cases m) auto
qed

end
