(* ===== verification/Udp_Message.thy ===== *)
theory Udp_Message
  imports Udp_Receive_Spec
begin

text \<open>
  The messages a UDP channel presents, down to the fields of \<^verbatim>\<open>DgramMsg\<close>, and what becomes of the channel when the
  submission queue is full. The layout of a received message is the one documented for multishot \<^verbatim>\<open>recvmsg\<close>.
\<close>

section \<open>The layout of a received message\<close>

definition le32 :: "u32 \<Rightarrow> byte list" where
  "le32 w = [ucast w, ucast (drop_bit 8 w), ucast (drop_bit 16 w), ucast (drop_bit 24 w)]"

definition of_le32 :: "byte list \<Rightarrow> u32" where
  "of_le32 bs = ucast (bs ! 0) OR push_bit 8 (ucast (bs ! 1)) OR push_bit 16 (ucast (bs ! 2)) OR push_bit 24 (ucast (bs ! 3))"

lemma of_le32_le32: "of_le32 (le32 w @ bs) = w"
proof (rule bit_word_eqI)
  fix n assume "n < LENGTH(32)"
  then consider "n < 8" | "8 \<le> n" "n < 16" | "16 \<le> n" "n < 24" | "24 \<le> n" "n < 32" by fastforce
  then show "bit (of_le32 (le32 w @ bs)) n \<longleftrightarrow> bit w n"
    by cases (simp add: of_le32_def le32_def bit_simps nth_append; arith)+
qed

text \<open>
  What the kernel writes for a message without control data: \<^verbatim>\<open>io_uring_recvmsg_out\<close> (lengths of name, control data and
  payload, and the flags), the name in \<^verbatim>\<open>msg_namelen\<close> bytes, the payload.
\<close>

definition recvmsg_bytes :: "recv_msghdr \<Rightarrow> byte list \<Rightarrow> u32 \<Rightarrow> byte list \<Rightarrow> byte list" where
  "recvmsg_bytes hdr name flags pl =
     le32 (of_nat (length name)) @ le32 0 @ le32 (of_nat (length pl)) @ le32 flags @
     name @ replicate (unat (mh_namelen hdr) - length name) 0 @ pl"

definition recvmsg_documented :: "recvmsg \<Rightarrow> bool" where
  "recvmsg_documented rm \<longleftrightarrow> (\<forall>hdr name flags pl. let bs = recvmsg_bytes hdr name flags pl in
     length name \<le> unat (mh_namelen hdr) \<longrightarrow> mh_controllen hdr = 0 \<longrightarrow> length bs < 2 ^ 31 \<longrightarrow>
       io_uring_recvmsg_validate rm bs hdr \<and> recvmsg_out_namelen rm bs = of_nat (length name) \<and>
       io_uring_recvmsg_name rm bs = 16 \<and> io_uring_recvmsg_payload rm bs hdr = 16 + unat (mh_namelen hdr) \<and>
       io_uring_recvmsg_payload_length rm bs (of_nat (length bs)) hdr = of_nat (length pl))"

lemma length_le32 [simp]: "length (le32 w) = 4"
  by (simp add: le32_def)

lemma length_recvmsg_bytes:
  "length name \<le> unat (mh_namelen hdr) \<Longrightarrow> length (recvmsg_bytes hdr name flags pl) = 16 + unat (mh_namelen hdr) + length pl"
  by (simp add: recvmsg_bytes_def)

lemma seg_recvmsg_bytes:
  assumes "length name \<le> unat (mh_namelen hdr)"
  shows "seg 16 (length name) (recvmsg_bytes hdr name flags pl) = name"
    and "seg (16 + unat (mh_namelen hdr)) (length pl) (recvmsg_bytes hdr name flags pl) = pl"
  using assms by (simp_all add: seg_def recvmsg_bytes_def)

section \<open>The fields\<close>

lemma udp_peek_head:
  assumes inv: "udp_recv_inv x ks recvd got" and l: "length got < length recvd"
    and v: "io_uring_recvmsg_validate rm (recvd ! length got) recv_msghdr_new"
  shows "\<exists>d r. udp_peek rm x = Some (Some d, x\<lparr>uc_rbuf := r\<rparr>) \<and> dm_msghdr d = recv_msghdr_new \<and>
    dm_out (br_bufs (uc_br x)) d = recvd ! length got \<and> unat (dm_size d) = length (recvd ! length got)"
proof -
  note I = udp_recv_invD [OF inv] and R = rd_invD [OF udp_recv_invD(1) [OF inv]]
  obtain i "is" where c: "rb_list (uc_rbuf x) = i # is" using l I(4) by (cases "rb_list (uc_rbuf x)") auto
  note h = rd_head_list [OF c]
  have m: "recvd ! length got = br_block (uc_br x) i" using I(4) c by simp
  have "length (br_block (uc_br x) i) = unat (br_data_size (uc_br x) i)" using rb_filled_block(1) [OF R(2)] c by simp
  then show ?thesis
    using h v by (simp add: udp_peek_def rd_peek_def dgram_msg_new_def m I(7) br_block_def dm_out_def) blast
qed

lemma seg_seg: "i + k \<le> n \<Longrightarrow> seg i k (seg a n mem) = seg (a + i) k mem"
  by (simp add: seg_def drop_take add.commute min_def)

text \<open>
  C28: the fields of a message. When the oldest message not consumed is one the kernel wrote for a datagram from
  the address \<open>name\<close> with payload \<open>pl\<close>, \<^verbatim>\<open>peek\<close> returns a \<^verbatim>\<open>DgramMsg\<close> whose peer address and payload are, read through its
  pointers and lengths, exactly \<open>name\<close> and \<open>pl\<close>.
\<close>

theorem udp_message_fields:
  assumes run: "udp_recv_run api rm x ks recvd got" and doc: "recvmsg_documented rm"
    and msg: "length got < length recvd" "recvd ! length got = recvmsg_bytes recv_msghdr_new name flags pl"
    and name: "length name \<le> sockaddr_in_size" and len: "length (recvd ! length got) < 2 ^ 31"
  shows "\<exists>d x'. udp_peek rm x = Some (Some d, x') \<and>
    (let mem = br_bufs (uc_br x') in
       seg (peer_addr rm mem d) (unat (peer_namelen rm mem d)) mem = name \<and>
       seg (payload rm mem d) (unat (payload_length rm mem d)) mem = pl)"
proof -
  let ?h = recv_msghdr_new and ?bs = "recvd ! length got"
  have nl: "length name \<le> unat (mh_namelen ?h)" using name by (simp add: recv_msghdr_new_def sockaddr_in_size_def)
  moreover have "mh_controllen ?h = 0" by (simp add: recv_msghdr_new_def)
  ultimately have D: "io_uring_recvmsg_validate rm ?bs ?h" "recvmsg_out_namelen rm ?bs = of_nat (length name)"
      "io_uring_recvmsg_name rm ?bs = 16" "io_uring_recvmsg_payload rm ?bs ?h = 16 + unat (mh_namelen ?h)"
      "io_uring_recvmsg_payload_length rm ?bs (of_nat (length ?bs)) ?h = of_nat (length pl)"
    using doc len unfolding recvmsg_documented_def Let_def msg(2) by blast+
  from udp_peek_head [OF udp_recv_run_inv [OF run] msg(1) D(1)] obtain d r where
      d: "udp_peek rm x = Some (Some d, x\<lparr>uc_rbuf := r\<rparr>)" "dm_msghdr d = ?h"
        "dm_out (br_bufs (uc_br x)) d = ?bs" "unat (dm_size d) = length ?bs" by blast
  have sz: "dm_size d = of_nat (length ?bs)" using d(4) by (simp flip: d(4))
  have l: "length ?bs = 16 + unat (mh_namelen ?h) + length pl" using length_recvmsg_bytes [OF nl] msg(2) by simp
  have u: "unat (of_nat (length name) :: u32) = length name" "unat (of_nat (length pl) :: u32) = length pl"
    using l len nl by (simp_all add: unat_of_nat take_bit_nat_eq_self)
  have s: "seg i k ?bs = seg (dm_buf d + i) k (br_bufs (uc_br x))" if "i + k \<le> length ?bs" for i k
    using seg_seg [of i k "unat (dm_size d)" "dm_buf d" "br_bufs (uc_br x)"] that d(3,4) by (simp add: dm_out_def)
  have "seg (dm_buf d + 16) (length name) (br_bufs (uc_br x)) = name"
    using s [of 16 "length name"] l nl seg_recvmsg_bytes(1) [OF nl] msg(2) by simp
  moreover have "seg (dm_buf d + (16 + unat (mh_namelen ?h))) (length pl) (br_bufs (uc_br x)) = pl"
    using s [of "16 + unat (mh_namelen ?h)" "length pl"] l seg_recvmsg_bytes(2) [OF nl] msg(2) by simp
  ultimately show ?thesis
    using d(1) by (simp add: Let_def peer_addr_def peer_namelen_def payload_def payload_length_def d(2,3) D sz u)
qed

text \<open>The functions as liburing defines them.\<close>

definition linux_recvmsg :: recvmsg where
  "linux_recvmsg = \<lparr>io_uring_recvmsg_validate = \<lambda>bs hdr. 16 + unat (mh_namelen hdr) + unat (mh_controllen hdr) \<le> length bs,
     recvmsg_out_namelen = of_le32, io_uring_recvmsg_name = \<lambda>bs. 16,
     io_uring_recvmsg_payload = \<lambda>bs hdr. 16 + unat (mh_namelen hdr) + unat (mh_controllen hdr),
     io_uring_recvmsg_payload_length = \<lambda>bs n hdr. n - (16 + mh_namelen hdr + ucast (mh_controllen hdr))\<rparr>"

lemma linux_recvmsg_documented: "recvmsg_documented linux_recvmsg"
  unfolding recvmsg_documented_def Let_def
proof (intro allI impI)
  fix hdr name flags pl
  let ?bs = "recvmsg_bytes hdr name flags pl"
  assume a: "length name \<le> unat (mh_namelen hdr)" "mh_controllen hdr = 0" "length ?bs < 2 ^ 31"
  have "of_le32 ?bs = of_nat (length name)" by (simp add: recvmsg_bytes_def of_le32_le32)
  then show "io_uring_recvmsg_validate linux_recvmsg ?bs hdr \<and> recvmsg_out_namelen linux_recvmsg ?bs = of_nat (length name) \<and>
      io_uring_recvmsg_name linux_recvmsg ?bs = 16 \<and> io_uring_recvmsg_payload linux_recvmsg ?bs hdr = 16 + unat (mh_namelen hdr) \<and>
      io_uring_recvmsg_payload_length linux_recvmsg ?bs (of_nat (length ?bs)) hdr = of_nat (length pl)"
    using a by (simp add: linux_recvmsg_def length_recvmsg_bytes)
qed

theorem udp_message_fields_witness:
  "\<exists>(x :: unit udp_channel) d x'. udp_peek linux_recvmsg x = Some (Some d, x') \<and>
     (let mem = br_bufs (uc_br x') in
        seg (peer_addr linux_recvmsg mem d) (unat (peer_namelen linux_recvmsg mem d)) mem = [2, 0, 31, 144, 127, 0, 0, 1] \<and>
        seg (payload linux_recvmsg mem d) (unat (payload_length linux_recvmsg mem d)) mem = [104, 105])"
proof -
  define bs where "bs = recvmsg_bytes recv_msghdr_new [2, 0, 31, 144, 127, 0, 0, 1] 0 [104, 105]"
  define x where "x = the (udp_read_complete sample_udp_api idle_srv (of_nat (length bs)) 65539
     (sample_recv\<lparr>uc_br := kernel_fill 1 bs (uc_br sample_recv)\<rparr>))"
  have "udp_read_complete sample_udp_api idle_srv (of_nat (length bs)) 65539
     (sample_recv\<lparr>uc_br := kernel_fill 1 bs (uc_br sample_recv)\<rparr>) = Some x" unfolding x_def bs_def by code_simp
  moreover have l: "length bs = 34" unfolding bs_def by code_simp
  moreover have "uc_reading x" "34 \<le> unat (br_bsize (uc_br sample_recv))" "cqe_buffer_id 65539 = 1"
    unfolding x_def bs_def by code_simp+
  ultimately have "udp_recv_run sample_udp_api linux_recvmsg x (remove1 1 [0, 1]) ([] @ [bs]) []"
    by (intro recv_data [OF sample_recv_run, of 1 bs 65539]) auto
  from udp_message_fields [OF this linux_recvmsg_documented, of "[2, 0, 31, 144, 127, 0, 0, 1]" 0 "[104, 105]"]
  show ?thesis using l by (auto simp: bs_def sockaddr_in_size_def)
qed

section \<open>A full submission queue\<close>

text \<open>
  C29: the end of receiving. If the kernel ends the multishot receive while the submission queue is full, \<^verbatim>\<open>get_sqe\<close>
  throws, the read coroutine ends and nothing is armed. The message that came with the completion is neither queued
  nor its buffer given back, and whatever completes later, the coroutine stays dead and the buffer lost.
\<close>

theorem udp_read_loop_dies:
  assumes await: "tk_handle (uc_rtok x) = Some ()" and last: "\<not> has_more flag"
    and full: "\<not> fst (u_get_sqe api (ir_ring (ud_ring (uc_send x))))"
  shows "\<exists>x'. udp_read_complete api srv res flag x = Some x' \<and> \<not> uc_reading x' \<and>
    uc_rbuf x' = uc_rbuf x \<and> uc_br x' = uc_br x \<and> ud_sqes (uc_send x') = ud_sqes (uc_send x) \<and>
    (\<forall>res' flag'. \<exists>x''. udp_read_complete api srv res' flag' x' = Some x'' \<and> \<not> uc_reading x'' \<and>
       uc_rbuf x'' = uc_rbuf x \<and> uc_br x'' = uc_br x \<and> ud_sqes (uc_send x'') = ud_sqes (uc_send x))"
  using assms
  by (cases "u_get_sqe api (ir_ring (ud_ring (uc_send x)))")
    (auto simp: udp_read_complete_def token_complete_def udp_read_resume_def udp_recv_arm_def get_sqe_def Let_def)

theorem udp_read_loop_dies_witness:
  "\<exists>x'. udp_read_complete (sample_udp_api\<lparr>u_get_sqe := \<lambda>_. (False, ())\<rparr>) idle_srv 34 65537 sample_recv = Some x' \<and> \<not> uc_reading x'"
proof -
  have "tk_handle (uc_rtok sample_recv) = Some ()" "\<not> has_more 65537"
    using udp_recv_invD(3) [OF udp_recv_run_inv [OF sample_recv_run]] by (simp_all add: has_more_def cqe_f_more_def)
  then show ?thesis using udp_read_loop_dies [of sample_recv 65537 "sample_udp_api\<lparr>u_get_sqe := \<lambda>_. (False, ())\<rparr>" idle_srv 34] by auto
qed

end
