(* ===== verification/Worker_Start.thy ===== *)
theory Worker_Start
  imports Server Udp_Message Tcp_Lifecycle
begin

text \<open>
  Starting a worker: \<^verbatim>\<open>IoThread::start_thread\<close> (\<^verbatim>\<open>src/core/io_thread.cpp\<close>) and the two versions of \<^verbatim>\<open>do_init_resources\<close>
  (\<^verbatim>\<open>src/core/tcp_thread.cpp\<close>, \<^verbatim>\<open>src/core/udp_thread.cpp\<close>), which build a worker's ring, buffers, pools and channels in order. What
  the allocations contain and what the kernel returns are arguments. \<^term>\<open>None\<close> is a failed assertion, or an exception in a
  thread of its own, which ends the process; an exception on the thread that calls \<^verbatim>\<open>start\<close> is \<^term>\<open>Inl\<close>.
\<close>

section \<open>The thread\<close>

text \<open>\<^verbatim>\<open>bind_to_cpu\<close>: the CPU the thread is bound to, if any.\<close>

definition bind_to_cpu :: "i32 \<Rightarrow> i32 option" where
  "bind_to_cpu cpu = (if sint cpu < 0 then None else Some cpu)"

text \<open>A pinned worker initialises its resources on its own thread, after binding it; the others on the caller's.\<close>

definition start_thread :: "i32 \<Rightarrow> (ring_error + 'w) option \<Rightarrow> (ring_error + i32 option \<times> 'w) option" where
  "start_thread cpu init =
     (if 0 \<le> sint cpu
      then (case init of Some (Inr w) \<Rightarrow> Some (Inr (bind_to_cpu cpu, w)) | _ \<Rightarrow> None)
      else map_option (map_sum id (Pair None)) init)"

definition sqpoll_for :: "i32 \<Rightarrow> sqpoll_params option" where
  "sqpoll_for cpu = (if 0 \<le> sint cpu then Some (make_sqpoll_params cpu) else None)"

section \<open>TCP\<close>

text \<open>The contents of the allocations, whether the buffer ring could be set up, its group id, and the event descriptor.\<close>

record tcp_mem =
  tm_setup :: bool
  tm_group :: i32
  tm_ring :: "byte list"
  tm_pool :: "byte list"
  tm_queue :: "u32 list"
  tm_read :: "nat \<Rightarrow> u32 list \<times> nat list \<times> u32 list \<times> u32"
  tm_write :: "nat \<Rightarrow> u32 list \<times> u32 list \<times> iovec list"
  tm_freeq :: "i32 list"
  tm_wakeup :: i32

text \<open>The buffers of channel \<open>i\<close>.\<close>

definition chan_bufs :: "tcp_mem \<Rightarrow> tcp_conf \<Rightarrow> buf_ring \<Rightarrow> nat \<Rightarrow> read_stream \<times> write_stream" where
  "chan_bufs mem cf b i =
     (case (tm_read mem i, tm_write mem i) of
        ((q, pd, ps, pc), (pend, snds, iov)) \<Rightarrow>
          (read_stream_new q pd ps pc b, write_stream_new pend snds iov (tc_channel_capacity cf)))"

definition tcp_init_resources ::
  "('r, sqpoll_params) tcp_api \<Rightarrow> tcp_mem \<Rightarrow> tcp_conf \<Rightarrow> i32 \<Rightarrow> (ring_error + 'r tcp_worker) option" where
  "tcp_init_resources api mem cf cpu =
     (case io_ring_new api (tc_queue_depth cf) (sqpoll_for cpu) of
        Inl e \<Rightarrow> Some (Inl e)
      | Inr ring \<Rightarrow> do {
          b \<leftarrow> buf_ring_new (tm_setup mem) (tm_group mem) (tm_ring mem) (tc_buf_ring_size cf) 4096;
          p \<leftarrow> buf_pool_new (tm_pool mem) (tm_queue mem) (sv_buf_pool_size cf) 4096;
          w \<leftarrow> tcp_pool_new (chan_bufs mem cf b) (tm_freeq mem) (tc_pool_size cf)
            \<lparr>it_cpu = cpu, it_ring = ring, it_sqes = [], it_wakeup_fd = None, tw_br = b, tw_pool = p, tw_chans = [], tw_freeq = [],
             tw_head = 0, tw_tail = 0, tw_psize = 0, tw_mask = 0, tw_pending = [], tw_closed = [], tw_listen = - 1,
             tw_atok = token_new, tw_aco = No_Frame\<rparr>;
          Some (Inr (w\<lparr>it_wakeup_fd := Some (tm_wakeup mem)\<rparr>)) })"

definition tcp_thread_new ::
  "('r, sqpoll_params) tcp_api \<Rightarrow> tcp_mem \<Rightarrow> tcp_conf \<Rightarrow> i32 \<Rightarrow> (ring_error + i32 option \<times> 'r tcp_worker) option" where
  "tcp_thread_new api mem cf cpu = start_thread cpu (tcp_init_resources api mem cf cpu)"

section \<open>UDP\<close>

text \<open>
  A UDP worker: the event loop's state with the channel. The ring and the log of entries are those of the loop; they are
  lent to the channel for each call.
\<close>

record 'r udp_thread = "('r, udp_ptr, udp_tok) io_thread" +
  ut_chan :: "'r udp_channel"

definition lend_ring :: "'r udp_thread \<Rightarrow> 'r udp_channel" where
  "lend_ring w = (ut_chan w)\<lparr>uc_send := (uc_send (ut_chan w))\<lparr>ud_ring := it_ring w, ud_sqes := it_sqes w\<rparr>\<rparr>"

definition return_ring :: "'r udp_thread \<Rightarrow> 'r udp_channel \<Rightarrow> 'r udp_thread" where
  "return_ring w x = w\<lparr>it_ring := ud_ring (uc_send x), it_sqes := ud_sqes (uc_send x), ut_chan := x\<rparr>"

definition udp_thread_complete ::
  "('r, 'q) udp_api \<Rightarrow> 'r udp_channel udp_server \<Rightarrow> udp_tok \<Rightarrow> i32 \<Rightarrow> i32 \<Rightarrow> 'r udp_thread \<Rightarrow> 'r udp_thread option" where
  "udp_thread_complete api srv tok res flag w = map_option (return_ring w) (udp_complete api srv tok res flag (lend_ring w))"

text \<open>\<^verbatim>\<open>UdpThread\<close> overrides no hook of the loop.\<close>

definition udp_run_loop ::
  "('r, 'q) udp_api \<Rightarrow> 'r udp_channel udp_server \<Rightarrow> bool list \<Rightarrow> 'r udp_thread \<Rightarrow> (bool \<times> 'r udp_thread) option" where
  "udp_run_loop api srv = run_loop api Udp_Wakeup_Buf Some (udp_thread_complete api srv) Some (io_on_stop api)"

record udp_mem =
  um_setup :: bool
  um_group :: i32
  um_ring :: "byte list"
  um_pool :: "byte list"
  um_queue :: "u32 list"
  um_read :: "u32 list \<times> nat list \<times> u32 list \<times> u32"
  um_write :: "u32 list \<times> u32 list \<times> nat list"
  um_wakeup :: i32

text \<open>\<^verbatim>\<open>do_init_resources\<close>; a failure to open the socket ends the process.\<close>

definition udp_init_resources ::
  "('r, sqpoll_params) udp_api \<Rightarrow> (sock_call \<Rightarrow> i32) \<Rightarrow> udp_mem \<Rightarrow> udp_conf \<Rightarrow> i32 \<Rightarrow> (ring_error + 'r udp_thread) option" where
  "udp_init_resources api os mem cf cpu =
     (case io_ring_new api (uc_queue_depth cf) (sqpoll_for cpu) of
        Inl e \<Rightarrow> Some (Inl e)
      | Inr ring \<Rightarrow> do {
          b \<leftarrow> buf_ring_new (um_setup mem) (um_group mem) (um_ring mem) (uc_buf_ring_size cf) 4096;
          p \<leftarrow> buf_pool_new (um_pool mem) (um_queue mem) (sv_buf_pool_size cf) 4096;
          mp \<leftarrow> msghdr_pool_new (uc_msghdr_pool_size cf) 16;
          fd \<leftarrow> (case snd (socket_new os (ucast (sv_port cf)) UDP) of Inl _ \<Rightarrow> None | Inr fd \<Rightarrow> Some fd);
          x \<leftarrow> udp_assign api fd (udp_channel_new (um_write mem) (um_read mem) (uc_channel_capacity cf) ring b p mp);
          Some (Inr \<lparr>it_cpu = cpu, it_ring = ud_ring (uc_send x), it_sqes = ud_sqes (uc_send x),
            it_wakeup_fd = Some (um_wakeup mem), ut_chan = x\<rparr>) })"

definition udp_thread_new ::
  "('r, sqpoll_params) udp_api \<Rightarrow> (sock_call \<Rightarrow> i32) \<Rightarrow> udp_mem \<Rightarrow> udp_conf \<Rightarrow> i32 \<Rightarrow> (ring_error + i32 option \<times> 'r udp_thread) option" where
  "udp_thread_new api os mem cf cpu = start_thread cpu (udp_init_resources api os mem cf cpu)"

section \<open>What a new worker looks like\<close>

lemma fold_frame: "(\<And>x w. g (f x w) = g w) \<Longrightarrow> g (fold f xs w) = g w"
  by (induction xs arbitrary: w) simp_all

lemma tcp_pool_new_frame:
  assumes "tcp_pool_new bufs freeq n w = Some w'"
  shows "tw_br w' = tw_br w" "tw_pool w' = tw_pool w" "it_cpu w' = it_cpu w" "it_sqes w' = it_sqes w"
    "it_ring w' = it_ring w" "tw_pending w' = tw_pending w"
proof -
  let ?u = "w\<lparr>tw_chans := [], tw_freeq := freeq, tw_head := 0, tw_tail := 0, tw_psize := n, tw_mask := n - 1\<rparr>"
  have w': "w' = fold (pool_add bufs) [0..<unat n] ?u"
    using assms by (auto simp: tcp_pool_new_def pool_add_def [abs_def] split: if_splits)
  have "g w' = g ?u" if "\<And>i u. g (pool_add bufs i u) = g u" for g :: "'a tcp_worker \<Rightarrow> 'b"
    unfolding w' by (rule fold_frame [where f = "pool_add bufs"]) (rule that)
  note this [of tw_br] this [of tw_pool] this [of it_cpu] this [of it_sqes] this [of it_ring] this [of tw_pending]
  then show "tw_br w' = tw_br w" "tw_pool w' = tw_pool w" "it_cpu w' = it_cpu w" "it_sqes w' = it_sqes w"
      "it_ring w' = it_ring w" "tw_pending w' = tw_pending w"
    by (simp_all add: pool_add_def)
qed

lemma chan_bufs_unused:
  assumes "br_shape b" and "length (fst (tm_read mem i)) = unat (br_num b)"
    and "length (fst (snd (tm_read mem i))) = unat (br_num b)" and "length (fst (snd (snd (tm_read mem i)))) = unat (br_num b)"
  shows "conn_unused b (tcp_channel_new fd (fst (chan_bufs mem cf b i)) (snd (chan_bufs mem cf b i)))"
proof -
  obtain q pd ps pc where r: "tm_read mem i = (q, pd, ps, pc)" by (rule prod_cases4)
  obtain pend snds iov where w: "tm_write mem i = (pend, snds, iov)" by (rule prod_cases3)
  have "rs_inv b (read_stream_new q pd ps pc b)" "rb_list (read_stream_new q pd ps pc b) = []"
    using read_stream_new_ok [OF assms(1)] assms(2-4) r by simp_all
  then show ?thesis
    by (simp add: conn_unused_def tcp_channel_new_def chan_bufs_def r w)
      (simp add: write_stream_new_def write_buf_new_def write_buf.defs write_stream.defs ws_has_send_data_def)
qed

text \<open>The allocations have the sizes the constructors ask for.\<close>

definition tcp_mem_ok :: "tcp_mem \<Rightarrow> tcp_conf \<Rightarrow> bool" where
  "tcp_mem_ok mem cf \<longleftrightarrow> tm_setup mem \<and> length (tm_ring mem) = unat (tc_buf_ring_size cf) * 4096 \<and>
     length (tm_pool mem) = unat (sv_buf_pool_size cf) * 4096 \<and> length (tm_queue mem) = unat (sv_buf_pool_size cf) \<and>
     length (tm_freeq mem) = unat (tc_pool_size cf) \<and>
     (\<forall>i. case tm_read mem i of (q, pd, ps, _) \<Rightarrow> length q = unat (tc_buf_ring_size cf) \<and>
        length pd = unat (tc_buf_ring_size cf) \<and> length ps = unat (tc_buf_ring_size cf))"

definition tcp_conf_ok :: "tcp_conf \<Rightarrow> bool" where
  "tcp_conf_ok cf \<longleftrightarrow> is_power_of_two (tc_buf_ring_size cf) \<and> unat (tc_buf_ring_size cf) \<le> 2 ^ 15 \<and>
     is_power_of_two (sv_buf_pool_size cf) \<and> unat (sv_buf_pool_size cf) < 2 ^ 19 \<and> is_power_of_two (tc_pool_size cf)"

text \<open>What the constructed worker is like, when the ring can be set up.\<close>

lemma tcp_init_ok:
  assumes cf: "tcp_conf_ok cf" and mem: "tcp_mem_ok mem cf"
    and ring: "io_ring_new api (tc_queue_depth cf) (sqpoll_for cpu) = Inr ring"
  shows "\<exists>w. tcp_init_resources api mem cf cpu = Some (Inr w) \<and> it_cpu w = cpu \<and> it_sqes w = [] \<and> it_ring w = ring \<and>
    br_shape (tw_br w) \<and> br_published (tw_br w) = map of_nat [0..<unat (tc_buf_ring_size cf)] \<and>
    br_num (tw_br w) = tc_buf_ring_size cf \<and> tw_pending w = [] \<and>
    bp_inv (tw_pool w) \<and> bp_free (tw_pool w) = map of_nat [0..<unat (sv_buf_pool_size cf)] \<and>
    pool_unused w \<and> pool_free w = [0..<unat (tc_pool_size cf)] \<and>
    tw_chans w = map (\<lambda>i. tcp_channel_new (- 1) (fst (chan_bufs mem cf (tw_br w) i)) (snd (chan_bufs mem cf (tw_br w) i)))
      [0..<unat (tc_pool_size cf)]"
proof -
  have M: "tm_setup mem" "length (tm_ring mem) = unat (tc_buf_ring_size cf) * unat (4096 :: i32)"
      "length (tm_pool mem) = unat (sv_buf_pool_size cf) * unat (4096 :: i32)" "length (tm_queue mem) = unat (sv_buf_pool_size cf)"
      "length (tm_freeq mem) = unat (tc_pool_size cf)" using mem by (simp_all add: tcp_mem_ok_def)
  have C: "is_power_of_two (tc_buf_ring_size cf)" "unat (tc_buf_ring_size cf) \<le> 2 ^ 15" "is_power_of_two (sv_buf_pool_size cf)"
      "unat (sv_buf_pool_size cf) * unat (4096 :: i32) < 2 ^ 31" "unat (tc_buf_ring_size cf) * unat (4096 :: i32) < 2 ^ 31"
      "is_power_of_two (tc_pool_size cf)" using cf by (simp_all add: tcp_conf_ok_def)
  obtain b where b: "buf_ring_new True (tm_group mem) (tm_ring mem) (tc_buf_ring_size cf) 4096 = Some b" "br_shape b"
      "br_num b = tc_buf_ring_size cf" "br_published b = map of_nat [0..<unat (tc_buf_ring_size cf)]"
    using buf_ring_new_ok [OF C(1,2) M(2) _ C(5), of "tm_group mem"] by auto
  obtain p where p: "buf_pool_new (tm_pool mem) (tm_queue mem) (sv_buf_pool_size cf) 4096 = Some p" "bp_inv p"
      "bp_free p = map of_nat [0..<unat (sv_buf_pool_size cf)]"
    using buf_pool_new_ok [OF C(3) M(3,4) _ C(4)] by auto
  define w0 where "w0 = (\<lparr>it_cpu = cpu, it_ring = ring, it_sqes = [], it_wakeup_fd = None, tw_br = b, tw_pool = p, tw_chans = [],
    tw_freeq = [], tw_head = 0, tw_tail = 0, tw_psize = 0, tw_mask = 0, tw_pending = [], tw_closed = [], tw_listen = - 1,
    tw_atok = token_new, tw_aco = No_Frame\<rparr> :: _ tcp_worker)"
  have "length (fst (tm_read mem i)) = unat (br_num b) \<and> length (fst (snd (tm_read mem i))) = unat (br_num b) \<and>
      length (fst (snd (snd (tm_read mem i)))) = unat (br_num b)" for i
    using mem b(3) by (cases "tm_read mem i") (auto simp: tcp_mem_ok_def dest: spec [of _ i])
  then have un: "conn_unused (tw_br w0) (tcp_channel_new (- 1) (fst (chan_bufs mem cf b i)) (snd (chan_bufs mem cf b i)))" for i
    using chan_bufs_unused [OF b(2)] by (simp add: w0_def)
  obtain w where w: "tcp_pool_new (chan_bufs mem cf b) (tm_freeq mem) (tc_pool_size cf) w0 = Some w" "pool_unused w"
      "pool_free w = [0..<unat (tc_pool_size cf)]"
      "tw_chans w = map (\<lambda>i. tcp_channel_new (- 1) (fst (chan_bufs mem cf b i)) (snd (chan_bufs mem cf b i))) [0..<unat (tc_pool_size cf)]"
    using tcp_pool_new_unused [where bufs = "chan_bufs mem cf b", OF C(6) M(5) un] by blast
  note f = tcp_pool_new_frame [OF w(1)]
  have "tcp_init_resources api mem cf cpu = Some (Inr (w\<lparr>it_wakeup_fd := Some (tm_wakeup mem)\<rparr>))"
    using ring b(1) p(1) w(1) M(1) by (simp add: tcp_init_resources_def w0_def)
  moreover have "pool_unused (w\<lparr>it_wakeup_fd := Some (tm_wakeup mem)\<rparr>)" "pool_free (w\<lparr>it_wakeup_fd := Some (tm_wakeup mem)\<rparr>) = pool_free w"
    using w(2) by (simp_all add: pool_unused_def pool_free_def chan_def)
  ultimately show ?thesis using b p w f by (simp add: w0_def)
qed

text \<open>
  C30: a new TCP worker is well formed. With sizes that are powers of two, and allocations of these sizes, the only failure of
  \<^verbatim>\<open>do_init_resources\<close> is that of the ring, which it reports with its errno. Otherwise the worker's buffer ring and pool are
  well formed, every receive buffer has been given to the kernel once, every send buffer is free, and the channel pool holds
  each channel once, without data and without operations in flight.
\<close>

theorem tcp_worker_ready:
  assumes cf: "tcp_conf_ok cf" and mem: "tcp_mem_ok mem cf"
  shows "case io_ring_new api (tc_queue_depth cf) (sqpoll_for cpu) of
      Inl e \<Rightarrow> tcp_init_resources api mem cf cpu = Some (Inl e)
    | Inr ring \<Rightarrow> \<exists>w. tcp_init_resources api mem cf cpu = Some (Inr w) \<and> it_cpu w = cpu \<and> it_sqes w = [] \<and>
        br_shape (tw_br w) \<and> br_published (tw_br w) = map of_nat [0..<unat (tc_buf_ring_size cf)] \<and>
        bp_inv (tw_pool w) \<and> bp_free (tw_pool w) = map of_nat [0..<unat (sv_buf_pool_size cf)] \<and>
        pool_unused w \<and> pool_free w = [0..<unat (tc_pool_size cf)] \<and> length (tw_chans w) = unat (tc_pool_size cf)"
proof (cases "io_ring_new api (tc_queue_depth cf) (sqpoll_for cpu)")
  case (Inl e)
  then show ?thesis by (simp add: tcp_init_resources_def)
next
  case (Inr ring)
  from tcp_init_ok [OF cf mem Inr] show ?thesis by (auto simp: Inr)
qed

definition sample_tcp_conf :: tcp_conf where
  "sample_tcp_conf = \<lparr>sv_port = 80, sv_thread_nums = 1, sv_buf_pool_size = 4, sv_cpu_affinity = False, tc_channel_capacity = 4,
     tc_buf_ring_size = 2, tc_pool_size = 2, tc_queue_depth = 8\<rparr>"

definition sample_tcp_mem :: tcp_mem where
  "sample_tcp_mem = \<lparr>tm_setup = True, tm_group = 0, tm_ring = replicate 8192 0, tm_pool = replicate 16384 0, tm_queue = replicate 4 0,
     tm_read = \<lambda>_. ([0, 0], [0, 0], [0, 0], 0), tm_write = \<lambda>_. (replicate 4 0, replicate 4 0, []), tm_freeq = [0, 0], tm_wakeup = 9\<rparr>"

text \<open>A ring that can always be set up.\<close>

definition sample_start_api :: "(unit, sqpoll_params, 't) uring" where
  "sample_start_api = \<lparr>u_queue_init = \<lambda>_ _. (0, ()), u_queue_init_params = \<lambda>_ _. (0, ()), u_get_sqe = \<lambda>_. (True, ()),
     u_wait_cqe = \<lambda>_. (0, None, ()), u_peek_cqe = \<lambda>_. (0, None, ()), u_peek_batch_cqe = \<lambda>_ _. (0, [], ()),
     u_submit = \<lambda>_. (0, ()), u_submit_and_wait = \<lambda>_ _. (0, ()), u_register_files = \<lambda>_ _. (0, ()),
     u_cqe_seen = \<lambda>_ _. (), u_cq_advance = \<lambda>_ _. (), u_ring_fd = \<lambda>_. 0\<rparr>"

theorem tcp_worker_ready_witness:
  "\<exists>w. tcp_init_resources sample_start_api sample_tcp_mem sample_tcp_conf 0 = Some (Inr w) \<and> pool_free w = [0, 1] \<and>
     br_published (tw_br w) = [0, 1]"
proof -
  have "io_ring_new (sample_start_api :: (unit, _, tcp_tok) uring) (tc_queue_depth sample_tcp_conf) (sqpoll_for 0) =
      Inr \<lparr>ir_ring = (), ir_queue_depth = 8\<rparr>"
    by (simp add: io_ring_new_def sample_start_api_def sqpoll_for_def check_ret_def sample_tcp_conf_def)
  moreover have "tcp_conf_ok sample_tcp_conf" "tcp_mem_ok sample_tcp_mem sample_tcp_conf"
    by (simp_all add: tcp_conf_ok_def tcp_mem_ok_def sample_tcp_conf_def sample_tcp_mem_def is_power_of_two_def)
  ultimately show ?thesis
    using tcp_worker_ready [of sample_tcp_conf sample_tcp_mem sample_start_api 0] by (auto simp: sample_tcp_conf_def upt_rec)
qed

definition udp_conf_ok :: "udp_conf \<Rightarrow> bool" where
  "udp_conf_ok cf \<longleftrightarrow> is_power_of_two (uc_buf_ring_size cf) \<and> unat (uc_buf_ring_size cf) \<le> 2 ^ 15 \<and>
     is_power_of_two (sv_buf_pool_size cf) \<and> unat (sv_buf_pool_size cf) < 2 ^ 19 \<and>
     is_power_of_two (uc_msghdr_pool_size cf) \<and> unat (uc_msghdr_pool_size cf) < 2 ^ 27 \<and> is_power_of_two (uc_channel_capacity cf)"

definition udp_mem_ok :: "udp_mem \<Rightarrow> udp_conf \<Rightarrow> bool" where
  "udp_mem_ok mem cf \<longleftrightarrow> um_setup mem \<and> length (um_ring mem) = unat (uc_buf_ring_size cf) * 4096 \<and>
     length (um_pool mem) = unat (sv_buf_pool_size cf) * 4096 \<and> length (um_queue mem) = unat (sv_buf_pool_size cf) \<and>
     (case um_read mem of (q, pd, ps, _) \<Rightarrow> length q = unat (uc_buf_ring_size cf) \<and>
        length pd = unat (uc_buf_ring_size cf) \<and> length ps = unat (uc_buf_ring_size cf)) \<and>
     (case um_write mem of (pend, snds, slots) \<Rightarrow> length pend = unat (uc_channel_capacity cf) \<and>
        length snds = unat (uc_channel_capacity cf) \<and> length slots = unat (uc_channel_capacity cf))"

lemma udp_assign_ok:
  assumes "fst (u_get_sqe api (ir_ring (ud_ring (uc_send x))))" and "ud_notify (uc_send x) = notify_token_new"
  shows "\<exists>x'. udp_assign api fd x = Some x' \<and> uc_reading x' \<and> udp_waiting (uc_send x') \<and> ud_fd (uc_send x') = fd \<and>
    ud_wbuf (uc_send x') = ud_wbuf (uc_send x) \<and> ud_pool (uc_send x') = ud_pool (uc_send x) \<and> ud_mp (uc_send x') = ud_mp (uc_send x)"
  using assms
  by (cases "u_get_sqe api (ir_ring (ud_ring (uc_send x)))")
    (simp add: udp_assign_def udp_read_start_def udp_recv_arm_def get_sqe_def udp_read_await_def udp_assign_write_def
      udp_write_await.simps nt_co_await_def nt_await_ready_def nt_await_suspend_def notify_token_new_def udp_waiting_def Let_def)

lemma udp_members_new:
  assumes cf: "udp_conf_ok cf" and mem: "udp_mem_ok mem cf" and wr: "um_write mem = (pend, snds, slots)"
  shows "\<exists>b p mp. buf_ring_new True (um_group mem) (um_ring mem) (uc_buf_ring_size cf) 4096 = Some b \<and>
    buf_pool_new (um_pool mem) (um_queue mem) (sv_buf_pool_size cf) 4096 = Some p \<and> bp_owned p [] \<and>
    msghdr_pool_new (uc_msghdr_pool_size cf) 16 = Some mp \<and> mp_inv mp \<and> mp_max_iov mp = 16 \<and>
    distinct (mp_free mp) \<and> set (mp_free mp) = mp_handles mp \<and>
    (let wb = write_dgram_new pend snds slots mp (uc_channel_capacity cf)
     in wd_shape wb \<and> wb_plist wb = [] \<and> wd_queue wb = [] \<and> wd_max_iov wb = 16)"
proof -
  have M: "length (um_ring mem) = unat (uc_buf_ring_size cf) * unat (4096 :: i32)"
      "length (um_pool mem) = unat (sv_buf_pool_size cf) * unat (4096 :: i32)" "length (um_queue mem) = unat (sv_buf_pool_size cf)"
      "length pend = unat (uc_channel_capacity cf)" "length snds = unat (uc_channel_capacity cf)" "length slots = unat (uc_channel_capacity cf)"
    using mem wr by (simp_all add: udp_mem_ok_def)
  have C: "is_power_of_two (uc_buf_ring_size cf)" "unat (uc_buf_ring_size cf) \<le> 2 ^ 15" "is_power_of_two (sv_buf_pool_size cf)"
      "unat (sv_buf_pool_size cf) * unat (4096 :: i32) < 2 ^ 31" "unat (uc_buf_ring_size cf) * unat (4096 :: i32) < 2 ^ 31"
      "is_power_of_two (uc_msghdr_pool_size cf)" "unat (uc_msghdr_pool_size cf) * unat (16 :: i32) < 2 ^ 31"
      "is_power_of_two (uc_channel_capacity cf)" using cf by (simp_all add: udp_conf_ok_def)
  obtain b where b: "buf_ring_new True (um_group mem) (um_ring mem) (uc_buf_ring_size cf) 4096 = Some b"
    using buf_ring_new_ok [OF C(1,2) M(1) _ C(5), of "um_group mem"] by auto
  obtain p where p: "buf_pool_new (um_pool mem) (um_queue mem) (sv_buf_pool_size cf) 4096 = Some p" "bp_inv p"
      "bp_free p = map of_nat [0..<unat (sv_buf_pool_size cf)]" "bp_num p = sv_buf_pool_size cf"
    using buf_pool_new_ok [OF C(3) M(2,3) _ C(4)] by auto
  then have "bp_owned p []" using distinct_u32_upt [of "bp_num p"] by (simp add: bp_owned_def bp_blocks_upt)
  moreover obtain mp where mp: "msghdr_pool_new (uc_msghdr_pool_size cf) 16 = Some mp" "mp_inv mp"
      "mp_free mp = [0..<unat (uc_msghdr_pool_size cf)]" "mp_handles mp = {..<unat (uc_msghdr_pool_size cf)}" "mp_max_iov mp = 16"
    using msghdr_pool_new_ok [OF C(6) _ C(7)] by auto
  moreover obtain k where k: "k < 31" "uc_channel_capacity cf = 2 ^ k" "unat (uc_channel_capacity cf) = 2 ^ k"
    using C(8) by (rule is_power_of_twoE)
  have "let wb = write_dgram_new pend snds slots mp (uc_channel_capacity cf)
      in wd_shape wb \<and> wb_plist wb = [] \<and> wd_queue wb = [] \<and> wd_max_iov wb = 16"
    unfolding k(2) using write_dgram_new_ok [of k pend snds slots mp] k M(4-6) mp(5) by (simp add: Let_def)
  ultimately show ?thesis using b p(1) by (intro exI [of _ b] exI [of _ p] exI [of _ mp]) (simp add: lessThan_atLeast0)
qed

text \<open>
  C31: a new UDP worker is ready. With sizes that are powers of two and allocations of these sizes, once the ring and the
  socket could be opened and the ring has a free entry, \<^verbatim>\<open>do_init_resources\<close> succeeds. Its channel sends and receives on the
  new socket: the receiving half is at the start of a run, with every buffer at the kernel, and the sending half waits for
  work with all its blocks and message slots free.
\<close>

theorem udp_worker_ready:
  assumes cf: "udp_conf_ok cf" and mem: "udp_mem_ok mem cf" and ring: "io_ring_new api (uc_queue_depth cf) (sqpoll_for cpu) = Inr ring"
    and sock: "snd (socket_new os (ucast (sv_port cf)) UDP) = Inr fd" and sqe: "fst (u_get_sqe api (ir_ring ring))"
  shows "\<exists>w. udp_init_resources api os mem cf cpu = Some (Inr w) \<and> ud_fd (uc_send (ut_chan w)) = fd \<and>
    udp_recv_run api rm (ut_chan w) (map ucast (br_published (uc_br (ut_chan w)))) [] [] \<and>
    udp_waiting (uc_send (ut_chan w)) \<and> udp_holds (\<lambda>_. []) [] [] (uc_send (ut_chan w))"
proof -
  obtain q pd ps pc where r: "um_read mem = (q, pd, ps, pc)" by (rule prod_cases4)
  obtain pend snds slots where wr: "um_write mem = (pend, snds, slots)" by (rule prod_cases3)
  have M: "um_setup mem" "length (um_ring mem) = unat (uc_buf_ring_size cf) * unat (4096 :: i32)"
      "length q = unat (uc_buf_ring_size cf)" "length pd = unat (uc_buf_ring_size cf)" "length ps = unat (uc_buf_ring_size cf)"
    using mem r by (simp_all add: udp_mem_ok_def)
  have C: "is_power_of_two (uc_buf_ring_size cf)" "unat (uc_buf_ring_size cf) \<le> 2 ^ 15"
      "unat (uc_buf_ring_size cf) * unat (4096 :: i32) < 2 ^ 31" using cf by (simp_all add: udp_conf_ok_def)
  obtain b p mp where b: "buf_ring_new True (um_group mem) (um_ring mem) (uc_buf_ring_size cf) 4096 = Some b"
    and p: "buf_pool_new (um_pool mem) (um_queue mem) (sv_buf_pool_size cf) 4096 = Some p" "bp_owned p []"
    and mp: "msghdr_pool_new (uc_msghdr_pool_size cf) 16 = Some mp" "mp_inv mp" "mp_max_iov mp = 16" "distinct (mp_free mp)"
      "set (mp_free mp) = mp_handles mp"
    and wb: "let wb = write_dgram_new pend snds slots mp (uc_channel_capacity cf)
      in wd_shape wb \<and> wb_plist wb = [] \<and> wd_queue wb = [] \<and> wd_max_iov wb = 16"
    using udp_members_new [OF cf mem wr] by blast
  let ?wb = "write_dgram_new pend snds slots mp (uc_channel_capacity cf)"
  let ?x0 = "udp_channel_new (pend, snds, slots) (q, pd, ps, pc) (uc_channel_capacity cf) ring b p mp"
  have x0: "fst (u_get_sqe api (ir_ring (ud_ring (uc_send ?x0))))" "ud_notify (uc_send ?x0) = notify_token_new" "ud_wbuf (uc_send ?x0) = ?wb"
      "ud_pool (uc_send ?x0) = p" "ud_mp (uc_send ?x0) = mp" "uc_br ?x0 = b"
    using sqe by (simp_all add: udp_channel_new_def)
  from udp_assign_ok [OF x0(1,2), of fd] obtain x where x: "udp_assign api fd ?x0 = Some x" "uc_reading x" "udp_waiting (uc_send x)"
      "ud_fd (uc_send x) = fd" "ud_wbuf (uc_send x) = ?wb" "ud_pool (uc_send x) = p" "ud_mp (uc_send x) = mp"
    unfolding x0(3-5) by blast
  have run: "udp_recv_run api rm x (map ucast (br_published b)) [] []"
    by (rule recv_start [OF C(1,2) M(2) _ C(3) b M(3-5) x(1,2)]) simp
  have "uc_br x = b"
    using x(1,2) by (auto simp: udp_assign_def udp_read_start_def udp_read_await_def Let_def x0(6) split: prod.splits bool.splits dest: udp_recv_arm_frame)
  moreover have "udp_holds (\<lambda>_. []) [] [] (uc_send x)"
    unfolding udp_holds_def Let_def x(5-7) using wb mp p(2) by (simp add: Let_def)
  moreover have "udp_init_resources api os mem cf cpu = Some (Inr \<lparr>it_cpu = cpu, it_ring = ud_ring (uc_send x),
      it_sqes = ud_sqes (uc_send x), it_wakeup_fd = Some (um_wakeup mem), ut_chan = x\<rparr>)"
    using ring b p(1) mp(1) sock x(1) M(1) by (simp add: udp_init_resources_def r wr)
  ultimately show ?thesis using run x by auto
qed

definition sample_udp_conf :: udp_conf where
  "sample_udp_conf = \<lparr>sv_port = 53, sv_thread_nums = 1, sv_buf_pool_size = 4, sv_cpu_affinity = False, uc_buf_ring_size = 2,
     uc_msghdr_pool_size = 2, uc_channel_capacity = 4, uc_queue_depth = 8\<rparr>"

definition sample_udp_mem :: udp_mem where
  "sample_udp_mem = \<lparr>um_setup = True, um_group = 0, um_ring = replicate 8192 0, um_pool = replicate 16384 0, um_queue = replicate 4 0,
     um_read = ([0, 0], [0, 0], [0, 0], 0), um_write = (replicate 4 0, replicate 4 0, replicate 4 0), um_wakeup = 9\<rparr>"

theorem udp_worker_ready_witness:
  "\<exists>w. udp_init_resources sample_start_api (\<lambda>_. 6) sample_udp_mem sample_udp_conf (- 1) = Some (Inr w) \<and>
     ud_fd (uc_send (ut_chan w)) = 6 \<and> udp_waiting (uc_send (ut_chan w))"
proof -
  have "udp_conf_ok sample_udp_conf" "udp_mem_ok sample_udp_mem sample_udp_conf"
    by (simp_all add: udp_conf_ok_def udp_mem_ok_def sample_udp_conf_def sample_udp_mem_def is_power_of_two_def)
  moreover have "io_ring_new (sample_start_api :: (unit, _, udp_tok) uring) (uc_queue_depth sample_udp_conf) (sqpoll_for (- 1)) =
      Inr \<lparr>ir_ring = (), ir_queue_depth = 8\<rparr>"
    by (simp add: io_ring_new_def sample_start_api_def sqpoll_for_def check_ret_def sample_udp_conf_def)
  moreover have "snd (socket_new (\<lambda>_. 6) (ucast (sv_port sample_udp_conf)) UDP) = Inr 6"
    by (simp add: socket_new_def fails_def Let_def)
  moreover have "fst (u_get_sqe (sample_start_api :: (unit, _, udp_tok) uring) ())" by (simp add: sample_start_api_def)
  ultimately show ?thesis
    using udp_worker_ready [of sample_udp_conf sample_udp_mem sample_start_api "- 1" "\<lparr>ir_ring = (), ir_queue_depth = 8\<rparr>" "\<lambda>_. 6" 6]
    by auto
qed

end
