(* ===== verification/Echo_Server.thy ===== *)
theory Echo_Server
  imports Tcp_Application Worker_Start
begin

text \<open>
  The echo server of \<^verbatim>\<open>benchmarks/echo_server.cpp\<close>, the application in the repository: it meets the contract
  of \<open>Tcp_Application\<close>, so a worker that runs it keeps its receive buffers apart; and its read callback queues for
  sending what was received.
\<close>

section \<open>The TCP callbacks\<close>

text \<open>\<^verbatim>\<open>for (i = 0; i < res->count; ++i) ch.append(res->data[i], res->size[i])\<close>; the results are ignored.\<close>

fun echo_append_all :: "nat \<Rightarrow> nat list \<Rightarrow> 'r tcp_worker \<Rightarrow> 'r tcp_worker option" where
  "echo_append_all c [] w = Some w"
| "echo_append_all c (i # is) w =
     (let res = ch_rbuf (chan w c) in
      if i < length (rb_pdata res) \<and> i < length (rb_psize res)
      then Option.bind (tcp_append c (seg (rb_pdata res ! i) (unat (rb_psize res ! i)) (br_bufs (tw_br w))) (rb_psize res ! i) w)
             (\<lambda>(_, w'). echo_append_all c is w')
      else None)"

definition echo_on_read :: "('r, 'q) tcp_api \<Rightarrow> nat \<Rightarrow> 'r tcp_worker \<Rightarrow> 'r tcp_worker option" where
  "echo_on_read api c w =
     (let avail = rb_bytes (ch_rbuf (chan w c)) in
      if avail = 0 then Some w
      else do {
        (res, w1) \<leftarrow> tcp_peek c avail w;
        if \<not> res then Some w1
        else do {
          w2 \<leftarrow> echo_append_all c [0..<unat (rb_pcount (ch_rbuf (chan w1 c)))] w1;
          (_, w3) \<leftarrow> tcp_consume c avail w2;
          map_option snd (tcp_submit api c w3) } })"

text \<open>\<^verbatim>\<open>on_write\<close> is the empty one of \<^verbatim>\<open>TcpServer\<close>.\<close>

definition tcp_echo :: "('r, 'q) tcp_api \<Rightarrow> 'r tcp_worker tcp_server" where
  "tcp_echo api =
     \<lparr>on_read = echo_on_read api, on_write = \<lambda>_ _. Some, on_accept = \<lambda>_. Some, on_close = \<lambda>_ _. Some\<rparr>"

section \<open>The contract\<close>

lemma echo_append_all_recv: "echo_append_all c is w = Some w' \<Longrightarrow> recv_view w' = recv_view w"
proof (induction "is" arbitrary: w)
  case (Cons i "is")
  then show ?case
    by (auto simp: Let_def split: if_splits Option.bind_splits dest!: tcp_append_recv Cons.IH)
qed simp

lemma echo_keeps:
  assumes r: "echo_on_read api c w = Some w'" and c: "c < length (tw_chans w)"
  shows "keeps c w w'"
proof (cases "rb_bytes (ch_rbuf (chan w c)) = 0")
  case True
  then show ?thesis using r by (simp add: echo_on_read_def)
next
  case False
  then obtain res w1 where w1: "tcp_peek c (rb_bytes (ch_rbuf (chan w c))) w = Some (res, w1)"
    using r by (auto simp: echo_on_read_def Let_def split: Option.bind_splits)
  have k1: "keeps c w w1" by (rule keeps_peek [OF w1 c])
  show ?thesis
  proof (cases res)
    case False
    then show ?thesis using r w1 k1 \<open>rb_bytes (ch_rbuf (chan w c)) \<noteq> 0\<close> by (simp add: echo_on_read_def Let_def)
  next
    case True
    then obtain w2 ok w3 ok' where w2: "echo_append_all c [0..<unat (rb_pcount (ch_rbuf (chan w1 c)))] w1 = Some w2"
        and w3: "tcp_consume c (rb_bytes (ch_rbuf (chan w c))) w2 = Some (ok, w3)" and w': "tcp_submit api c w3 = Some (ok', w')"
      using r w1 \<open>rb_bytes (ch_rbuf (chan w c)) \<noteq> 0\<close>
      by (auto simp: echo_on_read_def Let_def split: Option.bind_splits)
    have k2: "keeps c w1 w2" by (rule keeps_view [OF echo_append_all_recv [OF w2]])
    have "c < length (tw_chans w2)" using c k1 k2 by (simp add: keeps_def)
    then have "keeps c w2 w3" by (rule keeps_consume [OF w3])
    moreover have "keeps c w3 w'" by (rule keeps_view [OF tcp_submit_recv [OF w']])
    ultimately show ?thesis using keeps_trans k1 k2 by meson
  qed
qed

interpretation echo: tcp_application "tcp_echo api" for api :: "('r, 'q) tcp_api"
  by unfold_locales (auto simp: tcp_echo_def intro: echo_keeps)

section \<open>The first state\<close>

lemma published_all:
  assumes "br_shape b"
  shows "mset (map ucast (map of_nat [0..<unat (br_num b)] :: u16 list)) = mset_set (br_blocks b)"
proof -
  let ?n = "unat (br_num b)" and ?f = "of_nat :: nat \<Rightarrow> u32"
  have bl: "?f i \<in> br_blocks b \<and> unat (?f i) = i" if "i < ?n" for i
    using that unat_of_nat_le [of i "br_num b"] by (simp add: br_blocks_def word_less_nat_alt)
  have "?n \<le> 2 ^ 15" using assms power_increasing [of _ 15 "2::nat"] by (auto simp: br_shape_def)
  then have "ucast (of_nat i :: u16) = ?f i" if "i < ?n" for i
    using that by (simp add: word_unat_eq_iff unsigned_ucast_eq unsigned_take_bit_eq unat_of_nat take_bit_nat_eq_self)
  then have eq: "map ucast (map of_nat [0..<?n] :: u16 list) = map ?f [0..<?n]" by simp
  have "inj_on ?f {0..<?n}" using bl by (intro inj_onI) (metis atLeastLessThan_iff)
  then have "distinct (map ?f [0..<?n])" by (simp add: distinct_map)
  moreover have "?f ` {0..<?n} = br_blocks b"
  proof (intro equalityI subsetI)
    fix i assume "i \<in> br_blocks b"
    then have "unat i < ?n" by (simp add: br_blocks_def word_less_nat_alt)
    then show "i \<in> ?f ` {0..<?n}" by (intro image_eqI [of _ _ "unat i"]) simp_all
  qed (use bl in auto)
  ultimately show ?thesis unfolding eq using mset_set_set [of "map ?f [0..<?n]"] by simp
qed

lemma recv_ok_new:
  assumes cf: "tcp_conf_ok cf" and mem: "tcp_mem_ok mem cf" and new: "tcp_init_resources api mem cf cpu = Some (Inr w)"
  shows "recv_ok (replicate (length (tw_chans w)) [], [], [], w)"
proof -
  obtain ring where ring: "io_ring_new api (tc_queue_depth cf) (sqpoll_for cpu) = Inr ring"
    using new by (auto simp: tcp_init_resources_def split: sum.splits)
  let ?n = "unat (tc_buf_ring_size cf)"
  from tcp_init_ok [OF cf mem ring] new have w: "br_shape (tw_br w)" "br_published (tw_br w) = map of_nat [0..<?n]"
      "br_num (tw_br w) = tc_buf_ring_size cf" "tw_pending w = []"
      "tw_chans w = map (\<lambda>i. tcp_channel_new (- 1) (fst (chan_bufs mem cf (tw_br w) i)) (snd (chan_bufs mem cf (tw_br w) i)))
        [0..<unat (tc_pool_size cf)]" by auto
  have len: "length (fst (tm_read mem i)) = ?n" "length (fst (snd (tm_read mem i))) = ?n"
      "length (fst (snd (snd (tm_read mem i)))) = ?n" for i
    using mem by (cases "tm_read mem i"; auto simp: tcp_mem_ok_def dest: spec [of _ i])+
  have r: "rs_inv (tw_br w) r \<and> rb_list r = [] \<and> rs_data (tw_br w) r = [] \<and> length (rb_queue r) = unat (br_num (tw_br w))"
    if "r \<in> set (rbufs w)" for r
  proof -
    obtain i where i: "r = fst (chan_bufs mem cf (tw_br w) i)" using \<open>r \<in> _\<close> w(5) by (auto simp: tcp_channel_new_def)
    have "length (rb_queue r) = ?n" using len(1) [of i]
      by (auto simp: i chan_bufs_def read_stream_new_def read_buf_new_def read_buf.defs read_stream.defs split: prod.splits)
    moreover have "conn_unused (tw_br w) (tcp_channel_new (- 1) r (snd (chan_bufs mem cf (tw_br w) i)))"
      unfolding i by (rule chan_bufs_unused [OF w(1)]) (simp_all add: len w(3))
    ultimately show ?thesis by (simp add: conn_unused_def tcp_channel_new_def rs_data_def w(3))
  qed
  have "kernel_bufs [] (tw_br w) = mset_set (br_blocks (tw_br w))"
    using published_all [OF w(1)] by (simp add: kernel_bufs_def w(2,3))
  moreover have "concat (map rb_list (rbufs w)) = []" using r by simp
  ultimately have "tcp_parts [] [] w" using w(1) r unfolding tcp_parts_def parts_def by simp
  moreover have "rdata w ! c = []" if "c < length (tw_chans w)" for c
    using r that by (simp add: rdata_def)
  ultimately show ?thesis using w(4) by simp
qed

section \<open>Runs of the echo server\<close>

text \<open>
  C4: receive isolation. Take any run of a worker that \<^verbatim>\<open>do_init_resources\<close> built, with the echo server as its
  application: starting to accept, connections accepted and ended, data received on any channel in any buffer the kernel
  holds, writes completed, batches of read callbacks, in any order. Then every receive buffer is in exactly one place: with the
  kernel, in the queue of one channel, or lost by a completion that no channel stored. What can be read on a channel
  is the last part of the bytes delivered to it, in order and without a gap: no byte of another channel, and none that the
  kernel wrote later.
\<close>

theorem tcp_receive_isolated:
  fixes api :: "('r, sqpoll_params) tcp_api"
  assumes "tcp_conf_ok cf" and "tcp_mem_ok mem cf" and "tcp_init_resources api mem cf cpu = Some (Inr w0)"
    and "(tcp_event api (tcp_echo api))\<^sup>*\<^sup>* (replicate (length (tw_chans w0)) [], [], [], w0) (got, lost, taken, w)"
  shows "kernel_bufs taken (tw_br w) + mset (concat (map (rb_list \<circ> ch_rbuf) (tw_chans w))) + mset lost =
      mset_set (br_blocks (tw_br w)) \<and>
    (\<forall>c < length (tw_chans w). suffix (rs_data (tw_br w) (ch_rbuf (chan w c))) (got ! c))"
proof -
  from echo.run_ok [OF assms(4) recv_ok_new [OF assms(1-3)]]
  have ok: "tcp_parts lost taken w" "\<forall>c < length (tw_chans w). suffix (rdata w ! c) (got ! c)" by simp_all
  then show ?thesis using partsD(5) [of lost taken "tw_br w" "rbufs w"] by (simp add: tcp_parts_def rdata_def chan_def)
qed

lemma sample_init:
  obtains w0 where "tcp_init_resources (sample_start_api :: (unit, sqpoll_params) tcp_api) sample_tcp_mem sample_tcp_conf 0 = Some (Inr w0)"
    "tcp_conf_ok sample_tcp_conf" "tcp_mem_ok sample_tcp_mem sample_tcp_conf" "length (tw_chans w0) = 2"
proof -
  have ring: "io_ring_new (sample_start_api :: (unit, sqpoll_params) tcp_api) (tc_queue_depth sample_tcp_conf) (sqpoll_for 0) =
      Inr \<lparr>ir_ring = (), ir_queue_depth = 8\<rparr>"
    by (simp add: io_ring_new_def sample_start_api_def sqpoll_for_def check_ret_def sample_tcp_conf_def)
  have ok: "tcp_conf_ok sample_tcp_conf" "tcp_mem_ok sample_tcp_mem sample_tcp_conf"
    by (simp_all add: tcp_conf_ok_def tcp_mem_ok_def sample_tcp_conf_def sample_tcp_mem_def is_power_of_two_def)
  from tcp_init_ok [OF ok ring] show thesis using ok by (auto intro: that simp: sample_tcp_conf_def)
qed

text \<open>The sample worker, which starts to accept on descriptor 6.\<close>

theorem tcp_receive_isolated_witness:
  "\<exists>w0 w. tcp_init_resources (sample_start_api :: (unit, sqpoll_params) tcp_api) sample_tcp_mem sample_tcp_conf 0 = Some (Inr w0) \<and>
     tcp_on_loop_start sample_start_api (\<lambda>_. 6) 80 w0 = Some w \<and>
     kernel_bufs [] (tw_br w) + mset (concat (map (rb_list \<circ> ch_rbuf) (tw_chans w))) = mset_set (br_blocks (tw_br w))"
proof -
  obtain w0 where w0: "tcp_init_resources (sample_start_api :: (unit, sqpoll_params) tcp_api) sample_tcp_mem sample_tcp_conf 0 = Some (Inr w0)"
      "tcp_conf_ok sample_tcp_conf" "tcp_mem_ok sample_tcp_mem sample_tcp_conf" by (rule sample_init)
  have "snd (socket_new (\<lambda>_. 6) (ucast (80 :: i32)) TCP) = Inr 6" by (simp add: socket_new_def fails_def Let_def)
  then obtain w where w: "tcp_on_loop_start (sample_start_api :: (unit, sqpoll_params) tcp_api) (\<lambda>_. 6) 80 w0 = Some w"
    by (simp add: tcp_on_loop_start_def accept_start_def accept_arm_def put_sqe_eq sqe_free_def sample_start_api_def Let_def)
  have "(tcp_event sample_start_api (tcp_echo sample_start_api))\<^sup>*\<^sup>* (replicate (length (tw_chans w0)) [], [], [], w0)
      (replicate (length (tw_chans w0)) [], [], [], w)"
    by (rule r_into_rtranclp) (rule ev_start [OF w])
  from tcp_receive_isolated [OF w0(2,3,1) this] show ?thesis using w0(1) w by auto
qed

end
