(* ===== verification/Echo_Exact.thy ===== *)
theory Echo_Exact
  imports Echo_Server
begin

text \<open>
  What the read callback of the TCP echo server does with the bytes of one connection: it moves them from the receive
  buffer to the send queue of the same connection.
\<close>

section \<open>Sending through a channel\<close>

lemma tcp_append_ok:
  assumes h: "ws_holds rest (tw_pool w) (ch_wbuf (chan w c))" and len: "length d = unat sz"
  shows "\<exists>ok b p. tcp_append c d sz w = Some (ok, chan_upd c (\<lambda>ch. ch\<lparr>ch_wbuf := b\<rparr>) (w\<lparr>tw_pool := p\<rparr>)) \<and>
    wb_append d sz (ch_wbuf (chan w c)) (tw_pool w) = Some (ok, b, p) \<and>
    step_refines (Append d) rest (tw_pool w) (ch_wbuf (chan w c)) ok p b"
proof -
  obtain ok b p where "wb_append d sz (ch_wbuf (chan w c)) (tw_pool w) = Some (ok, b, p)"
      "step_refines (Append d) rest (tw_pool w) (ch_wbuf (chan w c)) ok p b"
    using refines_append [OF h len] by blast
  then show ?thesis by (intro exI [of _ ok] exI [of _ b] exI [of _ p]) (simp add: tcp_append_def)
qed

text \<open>The write coroutine, woken with something to send, hands it to the kernel and waits.\<close>

lemma write_wake_sends:
  assumes c: "c < length (tw_chans w)" and op: "\<not> is_closing (chan w c)"
    and h: "ws_holds rest (tw_pool w) (ch_wbuf (chan w c))" and ne: "wb_slist (ch_wbuf (chan w c)) \<noteq> []"
  shows "\<exists>w' iov. write_wake api c w = Some w' \<and> tw_pool w' = tw_pool w \<and> length iov = length (ws_iovec (ch_wbuf (chan w c))) \<and>
    ch_wbuf (chan w' c) = (ch_wbuf (chan w c))\<lparr>ws_iovec := iov\<rparr>"
proof -
  from ws_peek_iovec_ok [OF ws_holdsD(1,4) [OF h] ne] obtain count bytes iov where
    pk: "ws_peek_iovec (ch_wbuf (chan w c)) (tw_pool w) = Some (True, count, bytes, (ch_wbuf (chan w c))\<lparr>ws_iovec := iov\<rparr>)"
      "sint count = int (length (wb_slist (ch_wbuf (chan w c))))" "length iov = length (ws_iovec (ch_wbuf (chan w c)))" by blast
  have "count \<noteq> 0" using pk(2) ne by auto
  then show ?thesis
    using c op pk(1,3)
    by (auto simp: write_wake_def write_send_def is_closing_def Let_def put_sqe_eq in_flight_inc_def)
qed

lemma tcp_submit_ok:
  assumes c: "c < length (tw_chans w)" and op: "\<not> is_closing (chan w c)"
    and h: "ws_holds rest (tw_pool w) (ch_wbuf (chan w c))"
  shows "\<exists>ok w'. tcp_submit api c w = Some (ok, w') \<and> tw_pool w' = tw_pool w \<and>
    ws_holds rest (tw_pool w) (ch_wbuf (chan w' c)) \<and>
    ws_abs (tw_pool w) (ch_wbuf (chan w' c)) = spec_step Submit ok (ws_abs (tw_pool w) (ch_wbuf (chan w c)))"
proof -
  obtain ok b where s: "ws_submit (ch_wbuf (chan w c)) = (ok, b)" by fastforce
  have r: "ws_holds rest (tw_pool w) b" "ws_abs (tw_pool w) b = spec_step Submit ok (ws_abs (tw_pool w) (ch_wbuf (chan w c)))"
    using refines_submit [OF h s] by (simp_all add: step_refines_def)
  show ?thesis
  proof (cases "ok \<and> nt_handle (ch_notify (chan w c)) \<noteq> None")
    case False
    then have "ok \<Longrightarrow> nt_handle (ch_notify (chan w c)) = None" by blast
    then obtain w' where "tcp_submit api c w = Some (ok, w')" "tw_pool w' = tw_pool w" "ch_wbuf (chan w' c) = b"
      using c s by (cases ok) (simp_all add: tcp_submit_def tcp_notify_def nt_notify_def Let_def)
    then show ?thesis using r by metis
  next
    case True
    then obtain g where g: "nt_handle (ch_notify (chan w c)) = Some g" by blast
    let ?t = "(ch_notify (chan w c))\<lparr>nt_handle := None\<rparr>"
    let ?w = "chan_upd c (\<lambda>ch. ch\<lparr>ch_wbuf := b, ch_notify := ?t\<rparr>) w"
    have "wb_plist (ch_wbuf (chan w c)) \<noteq> []"
      using ws_submit_ok [OF ws_holdsD(2) [OF h]] s True by (auto split: if_splits)
    moreover have "wb_slist b = wb_slist (ch_wbuf (chan w c)) @ wb_plist (ch_wbuf (chan w c))"
    proof -
      have "length (bp_block (tw_pool w) i) = unat (bp_data_size (tw_pool w) i)" if "i \<in> set (wb_slist (ch_wbuf (chan w c)))" for i
        using that bp_ownedD(1,2) [OF ws_holdsD(3) [OF h]] by (intro length_bp_block) auto
      then show ?thesis using ws_submit_inv [OF ws_holdsD(1) [OF h], of b] s True by auto
    qed
    ultimately have "wb_slist b \<noteq> []" by simp
    then obtain w' iov where w': "write_wake api c ?w = Some w'" "tw_pool w' = tw_pool w" "length iov = length (ws_iovec b)"
        "ch_wbuf (chan w' c) = b\<lparr>ws_iovec := iov\<rparr>"
      using write_wake_sends [of c ?w rest api] c op r(1) by (auto simp: is_closing_def)
    have "tcp_submit api c w = Some (True, w')"
      using s True g w'(1) c by (simp add: tcp_submit_def tcp_notify_def nt_notify_def Let_def)
    moreover have "ws_holds rest (tw_pool w) (ch_wbuf (chan w' c))" "ws_abs (tw_pool w) (ch_wbuf (chan w' c)) = ws_abs (tw_pool w) b"
      unfolding w'(4) using r(1) ws_iovec_scratch [OF w'(3)] by blast+
    ultimately show ?thesis using w'(2) r(2) True by metis
  qed
qed

section \<open>The loop of appends\<close>

definition echo_segs :: "buf_ring \<Rightarrow> 'a read_buf_scheme \<Rightarrow> nat list \<Rightarrow> byte list list" where
  "echo_segs b r is = map (\<lambda>i. seg (rb_pdata r ! i) (unat (rb_psize r ! i)) (br_bufs b)) is"

text \<open>
  Appending the given segments one after the other to a write buffer: the results of the calls, and the buffer and the
  pool they leave. The segments accepted are those whose call returned true.
\<close>

fun append_results :: "byte list list \<Rightarrow> write_stream \<Rightarrow> buf_pool \<Rightarrow> (bool list \<times> write_stream \<times> buf_pool) option" where
  "append_results [] b p = Some ([], b, p)"
| "append_results (d # ds) b p = do {
     (ok, b1, p1) \<leftarrow> wb_append d (of_nat (length d)) b p;
     (oks, r) \<leftarrow> append_results ds b1 p1;
     Some (ok # oks, r) }"

definition accepted :: "bool list \<Rightarrow> 'a list \<Rightarrow> 'a list" where
  "accepted oks xs = map snd (filter fst (zip oks xs))"

lemma accepted_simps [simp]:
  "accepted [] xs = []" "accepted (ok # oks) (x # xs) = (if ok then x # accepted oks xs else accepted oks xs)"
  by (simp_all add: accepted_def)

lemma accepted_all: "length oks = length xs \<Longrightarrow> list_all id oks \<Longrightarrow> accepted oks xs = xs"
  by (induction oks xs rule: list_induct2) simp_all

lemma echo_append_all_ok:
  assumes "c < length (tw_chans w)" and "ws_holds rest (tw_pool w) (ch_wbuf (chan w c))"
    and "\<And>i. i \<in> set is \<Longrightarrow> i < length (rb_pdata (ch_rbuf (chan w c))) \<and> i < length (rb_psize (ch_rbuf (chan w c))) \<and>
      length (seg (rb_pdata (ch_rbuf (chan w c)) ! i) (unat (rb_psize (ch_rbuf (chan w c)) ! i)) (br_bufs (tw_br w))) =
        unat (rb_psize (ch_rbuf (chan w c)) ! i)"
  shows "\<exists>oks b p. echo_append_all c is w = Some (chan_upd c (\<lambda>ch. ch\<lparr>ch_wbuf := b\<rparr>) (w\<lparr>tw_pool := p\<rparr>)) \<and>
    append_results (echo_segs (tw_br w) (ch_rbuf (chan w c)) is) (ch_wbuf (chan w c)) (tw_pool w) = Some (oks, b, p) \<and>
    length oks = length is \<and> ws_holds rest p b \<and> map (bp_block p) rest = map (bp_block (tw_pool w)) rest \<and>
    ws_abs p b = (ws_abs (tw_pool w) (ch_wbuf (chan w c)))\<lparr>sp_pending := sp_pending (ws_abs (tw_pool w) (ch_wbuf (chan w c))) @
      concat (accepted oks (echo_segs (tw_br w) (ch_rbuf (chan w c)) is))\<rparr>"
  using assms
proof (induction "is" arbitrary: w)
  case Nil
  have "chan_upd c (\<lambda>ch. ch\<lparr>ch_wbuf := ch_wbuf (chan w c)\<rparr>) (w\<lparr>tw_pool := tw_pool w\<rparr>) = w"
    by (simp add: chan_upd_def chan_def)
  then show ?case using Nil
    by (intro exI [of _ "[]"] exI [of _ "ch_wbuf (chan w c)"] exI [of _ "tw_pool w"]) (simp add: echo_segs_def)
next
  case (Cons i "is")
  let ?r = "ch_rbuf (chan w c)" and ?d = "seg (rb_pdata (ch_rbuf (chan w c)) ! i) (unat (rb_psize (ch_rbuf (chan w c)) ! i)) (br_bufs (tw_br w))"
  obtain ok b p where a: "tcp_append c ?d (rb_psize ?r ! i) w = Some (ok, chan_upd c (\<lambda>ch. ch\<lparr>ch_wbuf := b\<rparr>) (w\<lparr>tw_pool := p\<rparr>))"
      and call: "wb_append ?d (rb_psize ?r ! i) (ch_wbuf (chan w c)) (tw_pool w) = Some (ok, b, p)"
      and s: "step_refines (Append ?d) rest (tw_pool w) (ch_wbuf (chan w c)) ok p b"
    using tcp_append_ok [OF Cons.prems(2)] Cons.prems(3) [of i] by (metis list.set_intros(1))
  let ?w = "chan_upd c (\<lambda>ch. ch\<lparr>ch_wbuf := b\<rparr>) (w\<lparr>tw_pool := p\<rparr>)"
  have f: "ch_rbuf (chan ?w c) = ?r" "ch_wbuf (chan ?w c) = b" "tw_pool ?w = p" "tw_br ?w = tw_br w" "length (tw_chans ?w) = length (tw_chans w)"
    using Cons.prems(1) by simp_all
  have sr: "ws_holds rest p b" "map (bp_block p) rest = map (bp_block (tw_pool w)) rest"
      "ws_abs p b = spec_step (Append ?d) ok (ws_abs (tw_pool w) (ch_wbuf (chan w c)))"
    using s by (simp_all add: step_refines_def)
  from Cons.IH [of ?w] obtain oks b' p' where IH: "echo_append_all c is ?w = Some (chan_upd c (\<lambda>ch. ch\<lparr>ch_wbuf := b'\<rparr>) (?w\<lparr>tw_pool := p'\<rparr>))"
      "append_results (echo_segs (tw_br w) ?r is) b p = Some (oks, b', p')" "length oks = length is" "ws_holds rest p' b'" "map (bp_block p') rest = map (bp_block p) rest"
      "ws_abs p' b' = (ws_abs p b)\<lparr>sp_pending := sp_pending (ws_abs p b) @ concat (accepted oks (echo_segs (tw_br w) ?r is))\<rparr>"
    unfolding f using Cons.prems(1,3) sr(1) by auto
  have "echo_append_all c (i # is) w = Some (chan_upd c (\<lambda>ch. ch\<lparr>ch_wbuf := b'\<rparr>) (w\<lparr>tw_pool := p'\<rparr>))"
    using Cons.prems(3) [of i] a IH(1) by (simp add: Let_def chan_upd_commute)
  moreover have "ws_abs p' b' = (ws_abs (tw_pool w) (ch_wbuf (chan w c)))\<lparr>sp_pending := sp_pending (ws_abs (tw_pool w) (ch_wbuf (chan w c))) @
      concat (accepted (ok # oks) (echo_segs (tw_br w) ?r (i # is)))\<rparr>"
    unfolding IH(6) sr(3) by (cases ok) (simp_all add: echo_segs_def)
  moreover have "of_nat (length ?d) = rb_psize ?r ! i" using Cons.prems(3) [of i] by simp
  then have "append_results (echo_segs (tw_br w) ?r (i # is)) (ch_wbuf (chan w c)) (tw_pool w) = Some (ok # oks, b', p')"
    using call IH(2) by (simp add: echo_segs_def)
  ultimately show ?case using IH(3-5) sr(2) by (intro exI [of _ "ok # oks"] exI [of _ b'] exI [of _ p']) simp
qed

section \<open>The callback\<close>

text \<open>The bytes on their way out of a channel: submitted, and still being built.\<close>

definition to_send :: "nat \<Rightarrow> 'r tcp_worker \<Rightarrow> stream_spec" where
  "to_send c w = ws_abs (tw_pool w) (ch_wbuf (chan w c))"

text \<open>The segments of the result of \<^verbatim>\<open>peek(readable_bytes())\<close>, as the loop reads them.\<close>

definition peeked :: "nat \<Rightarrow> 'r tcp_worker \<Rightarrow> byte list list" where
  "peeked c w =
     (let r = ch_rbuf (chan w c) in
      case rs_peek (rb_bytes r) (tw_br w) r of
        Some (True, r') \<Rightarrow> echo_segs (tw_br w) r' [0..<unat (rb_pcount r')]
      | _ \<Rightarrow> [])"

lemma echo_peek:
  assumes inv: "rs_inv b r" and nowrap: "rb_head r \<le> rb_tail r"
  shows "\<exists>r'. rs_peek (rb_bytes r) b r = Some (True, r') \<and>
    concat (echo_segs b r' [0..<unat (rb_pcount r')]) = rs_data b r \<and> (rb_bytes r = 0 \<longrightarrow> unat (rb_pcount r') = 0) \<and>
    (\<forall>i < unat (rb_pcount r'). i < length (rb_pdata r') \<and> i < length (rb_psize r') \<and>
       length (seg (rb_pdata r' ! i) (unat (rb_psize r' ! i)) (br_bufs b)) = unat (rb_psize r' ! i))"
proof -
  define segs where "segs = peek_segs b (unat (rs_off r)) (rb_list r) (unat (rb_bytes r))"
  let ?n = "length segs"
  let ?r = "r\<lparr>rb_pdata := map fst segs @ drop ?n (rb_pdata r), rb_psize := map (of_nat \<circ> snd) segs @ drop ?n (rb_psize r),
    rb_pcount := of_nat ?n\<rparr>"
  note pk = rs_peek_segs [OF inv nowrap order_refl segs_def]
  have small: "unat (of_nat k :: u32) = k" if "(a, k) \<in> set segs" for a k
    using peek_segs_small [of a k b "unat (rs_off r)" "rb_list r" "unat (rb_bytes r)"] that
    by (simp add: segs_def unat_of_nat take_bit_nat_eq_self)
  have nth: "rb_pdata ?r ! i = fst (segs ! i)" "unat (rb_psize ?r ! i) = snd (segs ! i)" if "i < ?n" for i
    using that small [of "fst (segs ! i)" "snd (segs ! i)"] by (simp_all add: nth_append)
  have "echo_segs b ?r [0..<?n] = map (\<lambda>(a, k). seg a k (br_bufs b)) segs"
    using nth by (intro nth_equalityI) (simp_all add: echo_segs_def split: prod.split)
  then have "concat (echo_segs b ?r [0..<unat (rb_pcount ?r)]) = rs_data b r"
    using pk(2,4) rs_inv_bytes(1) [OF inv] by simp
  moreover have "length (seg (rb_pdata ?r ! i) (unat (rb_psize ?r ! i)) (br_bufs b)) = unat (rb_psize ?r ! i)" if "i < ?n" for i
    using pk(5) [of "fst (segs ! i)" "snd (segs ! i)"] that by (simp only: nth [OF that]) simp
  moreover have "unat (rb_pcount ?r) = 0" if "rb_bytes r = 0" using that by (simp add: segs_def)
  ultimately show ?thesis using pk(1,2) by (intro exI [of _ ?r]) simp
qed

text \<open>The last two calls of the callback.\<close>

lemma echo_finish:
  assumes c: "c < length (tw_chans w)" and inv: "rs_inv (tw_br w) (ch_rbuf (chan w c))" and op: "\<not> is_closing (chan w c)"
    and h: "ws_holds rest (tw_pool w) (ch_wbuf (chan w c))"
  shows "\<exists>w3 ok w'. tcp_consume c (rb_bytes (ch_rbuf (chan w c))) w = Some (True, w3) \<and> tcp_submit api c w3 = Some (ok, w') \<and>
    rb_list (ch_rbuf (chan w' c)) = [] \<and> tw_br w' = fold br_release (rb_list (ch_rbuf (chan w c))) (tw_br w) \<and>
    tw_pool w' = tw_pool w \<and> ws_holds rest (tw_pool w) (ch_wbuf (chan w' c)) \<and>
    sp_out (to_send c w') @ sp_pending (to_send c w') = sp_out (to_send c w) @ sp_pending (to_send c w)"
proof -
  let ?b = "fold br_release (rb_list (ch_rbuf (chan w c))) (tw_br w)" and ?p = "tw_pool w"
  obtain r2 where r2: "rs_consume (rb_bytes (ch_rbuf (chan w c))) (ch_rbuf (chan w c)) (tw_br w) = Some (True, r2, ?b)"
      "rb_list r2 = []"
    using rs_consume_all [OF inv] by auto
  define w3 where "w3 = chan_upd c (\<lambda>ch. ch\<lparr>ch_rbuf := r2\<rparr>) (w\<lparr>tw_br := ?b\<rparr>)"
  have w3: "tcp_consume c (rb_bytes (ch_rbuf (chan w c))) w = Some (True, w3)" using c r2(1) by (simp add: tcp_consume_def w3_def)
  have f3: "ch_rbuf (chan w3 c) = r2" "ch_wbuf (chan w3 c) = ch_wbuf (chan w c)" "tw_br w3 = ?b" "tw_pool w3 = ?p"
      "c < length (tw_chans w3)" "\<not> is_closing (chan w3 c)"
    using c op by (simp_all add: w3_def is_closing_def)
  obtain ok w' where w': "tcp_submit api c w3 = Some (ok, w')" "tw_pool w' = ?p" "ws_holds rest ?p (ch_wbuf (chan w' c))"
      "ws_abs ?p (ch_wbuf (chan w' c)) = spec_step Submit ok (ws_abs ?p (ch_wbuf (chan w c)))"
    using tcp_submit_ok [OF f3(5,6), of rest api] h unfolding f3 by blast
  have v: "tw_br w' = ?b" "rbufs w' = rbufs w3" "length (tw_chans w') = length (tw_chans w3)"
    using recv_viewD [OF tcp_submit_recv [OF w'(1)]] f3(3) by simp_all
  then have "ch_rbuf (chan w' c) = r2" using f3(1,5) by (metis chan_def nth_map)
  moreover have "sp_out (to_send c w') @ sp_pending (to_send c w') = sp_out (to_send c w) @ sp_pending (to_send c w)"
    using w'(2,4) by (cases ok) (simp_all add: to_send_def)
  ultimately show ?thesis using w3 w' r2(2) v(1) by (intro exI [of _ w3] exI [of _ ok] exI [of _ w']) simp
qed

text \<open>The callback with something to read, once \<^verbatim>\<open>peek\<close> has given the result \<open>r'\<close>.\<close>

lemma echo_run:
  assumes c: "c < length (tw_chans w)" and inv: "rs_inv (tw_br w) (ch_rbuf (chan w c))"
    and h: "ws_holds rest (tw_pool w) (ch_wbuf (chan w c))" and op: "\<not> is_closing (chan w c)"
    and some: "rb_bytes (ch_rbuf (chan w c)) \<noteq> 0"
    and pk: "rs_peek (rb_bytes (ch_rbuf (chan w c))) (tw_br w) (ch_rbuf (chan w c)) = Some (True, r')"
    and r': "\<And>i. i < unat (rb_pcount r') \<Longrightarrow> i < length (rb_pdata r') \<and> i < length (rb_psize r') \<and>
       length (seg (rb_pdata r' ! i) (unat (rb_psize r' ! i)) (br_bufs (tw_br w))) = unat (rb_psize r' ! i)"
    and segs: "segs = echo_segs (tw_br w) r' [0..<unat (rb_pcount r')]"
  shows "\<exists>w' oks b p. on_read (tcp_echo api) c w = Some w' \<and> length oks = length segs \<and>
    append_results segs (ch_wbuf (chan w c)) (tw_pool w) = Some (oks, b, p) \<and>
    rb_list (ch_rbuf (chan w' c)) = [] \<and> tw_br w' = fold br_release (rb_list (ch_rbuf (chan w c))) (tw_br w) \<and>
    sp_out (to_send c w') @ sp_pending (to_send c w') =
      sp_out (to_send c w) @ sp_pending (to_send c w) @ concat (accepted oks segs) \<and>
    ws_holds rest (tw_pool w') (ch_wbuf (chan w' c)) \<and> map (bp_block (tw_pool w')) rest = map (bp_block (tw_pool w)) rest"
proof -
  let ?avail = "rb_bytes (ch_rbuf (chan w c))"
  define w1 where "w1 = chan_upd c (\<lambda>ch. ch\<lparr>ch_rbuf := r'\<rparr>) w"
  have w1: "tcp_peek c ?avail w = Some (True, w1)" by (simp add: tcp_peek_def pk w1_def)
  have f1: "ch_rbuf (chan w1 c) = r'" "ch_wbuf (chan w1 c) = ch_wbuf (chan w c)" "tw_br w1 = tw_br w" "tw_pool w1 = tw_pool w"
    using c by (simp_all add: w1_def)
  have "c < length (tw_chans w1)" using c by (simp add: w1_def)
  from echo_append_all_ok [OF this, of rest "[0..<unat (rb_pcount r')]"] h r'
  obtain oks b p where a: "echo_append_all c [0..<unat (rb_pcount r')] w1 = Some (chan_upd c (\<lambda>ch. ch\<lparr>ch_wbuf := b\<rparr>) (w1\<lparr>tw_pool := p\<rparr>))"
      "append_results segs (ch_wbuf (chan w c)) (tw_pool w) = Some (oks, b, p)" "length oks = length segs"
      "ws_holds rest p b" "map (bp_block p) rest = map (bp_block (tw_pool w)) rest"
      "ws_abs p b = (to_send c w)\<lparr>sp_pending := sp_pending (to_send c w) @ concat (accepted oks segs)\<rparr>"
    unfolding f1 to_send_def segs by (auto simp: echo_segs_def)
  define w2 where "w2 = chan_upd c (\<lambda>ch. ch\<lparr>ch_wbuf := b\<rparr>) (w1\<lparr>tw_pool := p\<rparr>)"
  note keep = rs_peek_keeps [OF pk]
  have inv': "rs_inv (tw_br w) r'" using keep(4) inv by simp
  then have b': "rb_bytes r' = ?avail" using inv keep(2) [of "tw_br w"] by (simp add: rs_inv_def)
  have f2: "ch_rbuf (chan w2 c) = r'" "ch_wbuf (chan w2 c) = b" "tw_br w2 = tw_br w" "tw_pool w2 = p" "c < length (tw_chans w2)"
      "\<not> is_closing (chan w2 c)" "to_send c w2 = ws_abs p b"
    using c op by (simp_all add: w2_def w1_def is_closing_def to_send_def)
  from echo_finish [OF f2(5) _ f2(6), of rest api] a(4) inv' b' keep(1) obtain w3 ok w' where
    fin: "tcp_consume c ?avail w2 = Some (True, w3)" "tcp_submit api c w3 = Some (ok, w')" "rb_list (ch_rbuf (chan w' c)) = []"
      "tw_br w' = fold br_release (rb_list (ch_rbuf (chan w c))) (tw_br w)" "tw_pool w' = p" "ws_holds rest p (ch_wbuf (chan w' c))"
      "sp_out (to_send c w') @ sp_pending (to_send c w') = sp_out (ws_abs p b) @ sp_pending (ws_abs p b)"
    unfolding f2 by auto
  have "on_read (tcp_echo api) c w = Some w'"
    using some w1 a(1) fin(1,2) by (simp add: tcp_echo_def echo_on_read_def f1(1) w2_def)
  then show ?thesis using a fin(3-7) by (intro exI [of _ w'] exI [of _ oks] exI [of _ b] exI [of _ p]) simp
qed

text \<open>
  C13: the TCP echo server echoes. On an open connection whose receive counters have not wrapped, \<^verbatim>\<open>on_read\<close> returns. It
  has then consumed all bytes received so far and given their buffers back. What it adds behind the bytes that were
  waiting to be sent on the same connection is, in order, those segments of the result of \<^verbatim>\<open>peek\<close>, which together are the
  bytes received, for which the call of \<^verbatim>\<open>append\<close>, made on them one after the other, returned true: all of the bytes, if none
  was refused. The blocks of the other connections are untouched. A segment that \<^verbatim>\<open>append\<close> refused is gone: the
  callback ignores the result.
\<close>

theorem tcp_echo_exact:
  assumes c: "c < length (tw_chans w)" and inv: "rs_inv (tw_br w) (ch_rbuf (chan w c))"
    and nowrap: "rb_head (ch_rbuf (chan w c)) \<le> rb_tail (ch_rbuf (chan w c))"
    and h: "ws_holds rest (tw_pool w) (ch_wbuf (chan w c))" and op: "\<not> is_closing (chan w c)"
  shows "\<exists>w' oks b p. on_read (tcp_echo api) c w = Some w' \<and>
    concat (peeked c w) = rs_data (tw_br w) (ch_rbuf (chan w c)) \<and>
    append_results (peeked c w) (ch_wbuf (chan w c)) (tw_pool w) = Some (oks, b, p) \<and>
    rb_list (ch_rbuf (chan w' c)) = [] \<and> tw_br w' = fold br_release (rb_list (ch_rbuf (chan w c))) (tw_br w) \<and>
    sp_out (to_send c w') @ sp_pending (to_send c w') =
      sp_out (to_send c w) @ sp_pending (to_send c w) @ concat (accepted oks (peeked c w)) \<and>
    (list_all id oks \<longrightarrow> sp_out (to_send c w') @ sp_pending (to_send c w') =
       sp_out (to_send c w) @ sp_pending (to_send c w) @ rs_data (tw_br w) (ch_rbuf (chan w c))) \<and>
    ws_holds rest (tw_pool w') (ch_wbuf (chan w' c)) \<and> map (bp_block (tw_pool w')) rest = map (bp_block (tw_pool w)) rest"
proof -
  let ?avail = "rb_bytes (ch_rbuf (chan w c))"
  obtain r' where r': "rs_peek ?avail (tw_br w) (ch_rbuf (chan w c)) = Some (True, r')"
      "concat (echo_segs (tw_br w) r' [0..<unat (rb_pcount r')]) = rs_data (tw_br w) (ch_rbuf (chan w c))"
      "?avail = 0 \<Longrightarrow> unat (rb_pcount r') = 0"
      "\<And>i. i < unat (rb_pcount r') \<Longrightarrow> i < length (rb_pdata r') \<and> i < length (rb_psize r') \<and>
       length (seg (rb_pdata r' ! i) (unat (rb_psize r' ! i)) (br_bufs (tw_br w))) = unat (rb_psize r' ! i)"
    using echo_peek [OF inv nowrap] by blast
  have segs: "peeked c w = echo_segs (tw_br w) r' [0..<unat (rb_pcount r')]" by (simp add: peeked_def r'(1))
  show ?thesis
  proof (cases "?avail = 0")
    case True
    then have "peeked c w = []" "rs_data (tw_br w) (ch_rbuf (chan w c)) = []"
      using r'(3) rs_inv_bytes(1) [OF inv] by (simp_all add: segs echo_segs_def)
    moreover from this have "rb_list (ch_rbuf (chan w c)) = []" using inv by (intro rs_data_empty) (simp_all add: rs_inv_def)
    ultimately show ?thesis using True h by (intro exI [of _ w]) (simp add: tcp_echo_def echo_on_read_def)
  next
    case False
    have "list_all id oks \<Longrightarrow> length oks = length (peeked c w) \<Longrightarrow>
        concat (accepted oks (peeked c w)) = rs_data (tw_br w) (ch_rbuf (chan w c))" for oks
      using accepted_all [of oks "peeked c w"] r'(2) by (simp add: segs)
    then show ?thesis using echo_run [OF c inv h op False r'(1) r'(4) segs, of api] r'(2) segs by auto
  qed
qed

text \<open>A connection that has received the bytes 2, 3, 4, 5 in two buffers.\<close>

definition sample_echo :: "unit tcp_worker" where
  "sample_echo = sample_worker\<lparr>tw_chans := [sample_conn\<lparr>ch_rbuf := sample_rs\<rparr>]\<rparr>"

theorem tcp_echo_exact_witness:
  "\<exists>w'. on_read (tcp_echo sample_tcp_api) 0 sample_echo = Some w' \<and>
     sp_out (to_send 0 w') @ sp_pending (to_send 0 w') = [2, 3, 4, 5] \<and> rb_list (ch_rbuf (chan w' 0)) = []"
proof -
  have "append_results (peeked 0 sample_echo) sample_ws sample_pool \<noteq> None \<and>
      list_all id (fst (the (append_results (peeked 0 sample_echo) sample_ws sample_pool)))"
    "sp_out (to_send 0 sample_echo) @ sp_pending (to_send 0 sample_echo) = []"
    by code_simp+
  moreover have "0 < length (tw_chans sample_echo)" "ch_rbuf (chan sample_echo 0) = sample_rs" "tw_br sample_echo = sample_br"
      "tw_pool sample_echo = sample_pool" "ch_wbuf (chan sample_echo 0) = sample_ws" "\<not> is_closing (chan sample_echo 0)"
    by (simp_all add: sample_echo_def sample_worker_def sample_conn_def chan_def tcp_channel_new_def sample_bufs_def is_closing_def)
  moreover have "rb_head sample_rs \<le> rb_tail sample_rs" by (simp add: sample_rs_def)
  ultimately show ?thesis
    using tcp_echo_exact [of 0 sample_echo "[]" sample_tcp_api] sample_rs_inv(1) sample_rs_data sample_ws_holds by auto
qed

end
