(* ===== verification/Tcp_Handover.thy ===== *)
theory Tcp_Handover
  imports Echo_Exact
begin

text \<open>
  What a channel takes with it from one connection to the next. The in-flight count of a channel goes down with every completion
  of its multishot receive, also while \<^verbatim>\<open>IORING_CQE_F_MORE\<close> says that the receive goes on. A closed channel is therefore
  released while one of its operations is still with the kernel, and \<^verbatim>\<open>assign\<close> resets neither of its buffers.
\<close>

section \<open>Closing while a write is in flight\<close>

text \<open>The channel is closed; its last reply \<open>d\<close> is with the kernel, its receive is armed, and the count says one.\<close>

definition closed_sending :: "u32 list \<Rightarrow> byte list \<Rightarrow> nat \<Rightarrow> 'r tcp_worker \<Rightarrow> bool" where
  "closed_sending rest d c w \<longleftrightarrow> c < length (tw_chans w) \<and> ch_fd (chan w c) = - 1 \<and> ch_in_flight (chan w c) = 1 \<and>
     nt_closed (ch_notify (chan w c)) \<and> nt_handle (ch_notify (chan w c)) = None \<and>
     tk_handle (ch_wtok (chan w c)) = Some () \<and> tk_handle (ch_rtok (chan w c)) = Some () \<and>
     ws_holds rest (tw_pool w) (ch_wbuf (chan w c)) \<and> ws_out (tw_pool w) (ch_wbuf (chan w c)) = d \<and>
     unat (ch_submitted (chan w c)) = length d \<and> rs_inv (tw_br w) (ch_rbuf (chan w c))"

text \<open>A completion with data on an idle connection: the receive stays armed, and the count goes from one to zero.\<close>

lemma recv_more_idle:
  assumes c: "c < length (tw_chans w)" and idle: "conn_idle (chan w c)" and n: "ch_in_flight (chan w c) = 1"
    and rb: "rs_inv (tw_br w) (ch_rbuf (chan w c))" "length (rb_list (ch_rbuf (chan w c))) < length (rb_queue (ch_rbuf (chan w c)))"
    and i: "cqe_buffer_id flag \<in> br_blocks (tw_br w)" "cqe_buffer_id flag \<notin> set (rb_list (ch_rbuf (chan w c)))"
    and res: "0 < sint res" "unat res \<le> unat (br_bsize (tw_br w))" and more: "has_more flag"
  shows "\<exists>w'. tcp_complete api srv (Recv_Tok c) res flag w = Some w' \<and> conn_idle (chan w' c) \<and> ch_in_flight (chan w' c) = 0 \<and>
    ch_fd (chan w' c) = ch_fd (chan w c) \<and> ch_wbuf (chan w' c) = ch_wbuf (chan w c) \<and> tw_pool w' = tw_pool w \<and>
    same_pool w w' \<and> tw_closed w' = tw_closed w \<and> length (tw_chans w') = length (tw_chans w) \<and>
    rs_inv (tw_br w') (ch_rbuf (chan w' c)) \<and>
    rs_data (tw_br w') (ch_rbuf (chan w' c)) = rs_data (tw_br w) (ch_rbuf (chan w c)) @
      seg (br_buf_addr (tw_br w) (cqe_buffer_id flag)) (unat res) (br_bufs (tw_br w))"
proof -
  let ?i = "cqe_buffer_id flag" and ?b = "br_set_data_size (cqe_buffer_id flag) res (tw_br w)"
  have "0 < unat res" using res(1) by (cases "res = 0") (simp_all add: unat_gt_0)
  then obtain r' where r': "rb_push_buf ?i ?b (ch_rbuf (chan w c)) = (True, r')" "rs_inv ?b r'"
      "rs_data ?b r' = rs_data (tw_br w) (ch_rbuf (chan w c)) @ seg (br_buf_addr (tw_br w) ?i) (unat res) (br_bufs (tw_br w))"
    using rs_receive_ok [OF rb(1) i, of res] rb(2) res(2) by auto
  have len: "unat ?i < length (br_dsize (tw_br w))"
    using i rb(1) by (simp add: br_blocks_def rs_inv_def rb_filled_def br_shape_def word_less_nat_alt)
  show ?thesis
    using c idle n res(1) more len r'
    by (simp add: conn_idle_def token_complete_def read_resume_def Let_def in_flight_dec_open is_closing_def recv_store_def
        recv_await_def mark_pending_read_def token_await_suspend_def same_pool_def chan_upd_commute)
qed

text \<open>The application replies: the write coroutine hands the reply to the kernel.\<close>

lemma reply_sent:
  assumes c: "c < length (tw_chans w)" and idle: "conn_idle (chan w c)" and n: "ch_in_flight (chan w c) = 0"
    and h: "ws_holds rest (tw_pool w) (ch_wbuf (chan w c))" and d: "length d = unat sz" "d \<noteq> []"
    and app: "tcp_append c d sz w = Some (True, w1)" and sub: "tcp_submit api c w1 = Some (True, w2)"
    and sqe: "\<And>r. fst (u_get_sqe api r)"
  shows "length (tw_chans w2) = length (tw_chans w)" and "same_pool w w2" and "tw_closed w2 = tw_closed w" and "tw_br w2 = tw_br w"
    and "ch_rbuf (chan w2 c) = ch_rbuf (chan w c)" and "ch_rtok (chan w2 c) = ch_rtok (chan w c)"
    and "ch_fd (chan w2 c) = ch_fd (chan w c)" and "ch_in_flight (chan w2 c) = 1"
    and "nt_handle (ch_notify (chan w2 c)) = None" and "\<not> nt_closed (ch_notify (chan w2 c))"
    and "tk_handle (ch_wtok (chan w2 c)) = Some ()" and "unat (ch_submitted (chan w2 c)) = length d"
    and "ws_holds rest (tw_pool w2) (ch_wbuf (chan w2 c))" and "ws_out (tw_pool w2) (ch_wbuf (chan w2 c)) = d"
proof -
  obtain ok b p where a: "tcp_append c d sz w = Some (ok, chan_upd c (\<lambda>ch. ch\<lparr>ch_wbuf := b\<rparr>) (w\<lparr>tw_pool := p\<rparr>))"
      "step_refines (Append d) rest (tw_pool w) (ch_wbuf (chan w c)) ok p b"
    using tcp_append_ok [OF h d(1)] by blast
  then have w1: "w1 = chan_upd c (\<lambda>ch. ch\<lparr>ch_wbuf := b\<rparr>) (w\<lparr>tw_pool := p\<rparr>)" and ok using app by auto
  have "wb_plist (ch_wbuf (chan w c)) = []" "wb_slist (ch_wbuf (chan w c)) = []"
    using idle wb_plist_empty [of "ch_wbuf (chan w c)"] wb_slist_empty [of "ch_wbuf (chan w c)"]
    by (auto simp: conn_idle_def ws_has_send_data_def)
  then have ab: "ws_holds rest p b" "ws_abs p b = \<lparr>sp_pending = d, sp_out = []\<rparr>"
    using a(2) \<open>ok\<close> by (simp_all add: step_refines_def ws_abs_def ws_out_def bp_bytes_def)
  obtain b' where b': "ws_submit b = (True, b')"
    using sub c unfolding w1 by (cases "ws_submit b") (auto simp: tcp_submit_def Let_def split: if_splits)
  have r: "ws_holds rest p b'" "ws_abs p b' = \<lparr>sp_pending = [], sp_out = d\<rparr>"
    using refines_submit [OF ab(1) b'] ab(2) by (simp_all add: step_refines_def)
  then have out: "ws_out p b' = d" by (simp add: ws_abs_def)
  then have "wb_slist b' \<noteq> []" using d(2) by (auto simp: ws_out_def bp_bytes_def)
  from ws_peek_iovec_ok [OF ws_holdsD(1,4) [OF r(1)] this] obtain count bytes iov where
    pk: "ws_peek_iovec b' p = Some (True, count, bytes, b'\<lparr>ws_iovec := iov\<rparr>)" "sint count = int (length (wb_slist b'))"
      "unat bytes = length d" "length iov = length (ws_iovec b')"
    unfolding out by blast
  have "count \<noteq> 0" using pk(2) \<open>wb_slist b' \<noteq> []\<close> by auto
  moreover have "sqe_free api v" for v :: "'a tcp_worker" using sqe by (simp add: sqe_free_def)
  ultimately have w2: "w2 = chan_upd c (\<lambda>ch. ch\<lparr>ch_notify := \<lparr>nt_pending = False, nt_closed = False, nt_handle = None\<rparr>, ch_wbuf := b'\<lparr>ws_iovec := iov\<rparr>,
      ch_in_flight := ch_in_flight ch + 1, ch_submitted := bytes, ch_wtok := token_await_suspend () (ch_wtok ch), ch_wco := At_Token\<rparr>)
      (w\<lparr>tw_pool := p, it_ring := ring_after_sqe api (it_ring w), it_sqes := it_sqes w @ [set_data (Tok (Send_Tok c))
         (prep_writev (ch_fd (chan w c)) (Some (Chan_Iov c)) count 0 fresh_sqe)]\<rparr>)"
    using sub c idle b' pk(1) unfolding w1
    by (simp add: conn_idle_def tcp_submit_def Let_def tcp_notify_def nt_notify_def write_wake_def write_send_def is_closing_def
        put_sqe_eq in_flight_inc_def chan_upd_commute)
  note iov = ws_iovec_scratch [OF pk(4)]
  show "length (tw_chans w2) = length (tw_chans w)" "same_pool w w2" "tw_closed w2 = tw_closed w" "tw_br w2 = tw_br w"
      "ch_rbuf (chan w2 c) = ch_rbuf (chan w c)" "ch_rtok (chan w2 c) = ch_rtok (chan w c)" "ch_fd (chan w2 c) = ch_fd (chan w c)"
      "ch_in_flight (chan w2 c) = 1" "nt_handle (ch_notify (chan w2 c)) = None" "\<not> nt_closed (ch_notify (chan w2 c))"
      "tk_handle (ch_wtok (chan w2 c)) = Some ()" "unat (ch_submitted (chan w2 c)) = length d"
      "ws_holds rest (tw_pool w2) (ch_wbuf (chan w2 c))" "ws_out (tw_pool w2) (ch_wbuf (chan w2 c)) = d"
    unfolding w2 using c idle n pk(3) r(1) out iov
    by (simp_all add: same_pool_def conn_idle_def token_await_suspend_def)
qed

text \<open>It closes the connection.\<close>

lemma close_sending:
  assumes c: "c < length (tw_chans w)" and h: "nt_handle (ch_notify (chan w c)) = None"
  shows "tcp_close api c w = Some (chan_upd c (\<lambda>ch. ch\<lparr>ch_notify := (ch_notify ch)\<lparr>nt_closed := True, nt_pending := True\<rparr>,
    ch_fd := - 1\<rparr>) (w\<lparr>tw_closed := tw_closed w @ [ch_fd (chan w c)]\<rparr>))"
  using assms by (simp add: tcp_close_def tcp_notify_close_def nt_notify_close_def Let_def chan_upd_commute)
    (simp add: chan_upd_def chan_def)

lemma closed_sending_reached:
  assumes c: "c < length (tw_chans w)" and idle: "conn_idle (chan w c)" and n: "ch_in_flight (chan w c) = 0"
    and h: "ws_holds rest (tw_pool w) (ch_wbuf (chan w c))" and d: "length d = unat sz" "d \<noteq> []"
    and app: "tcp_append c d sz w = Some (True, w1)" and sub: "tcp_submit api c w1 = Some (True, w2)"
    and sqe: "\<And>r. fst (u_get_sqe api r)" and rb: "rs_inv (tw_br w) (ch_rbuf (chan w c))"
  shows "\<exists>w3. tcp_close api c w2 = Some w3 \<and> closed_sending rest d c w3 \<and> same_pool w w3 \<and> tw_br w3 = tw_br w \<and>
    ch_rbuf (chan w3 c) = ch_rbuf (chan w c) \<and> tw_closed w3 = tw_closed w @ [ch_fd (chan w c)]"
proof -
  note r = reply_sent [OF c idle n h d app sub sqe]
  have "c < length (tw_chans w2)" "tk_handle (ch_rtok (chan w c)) = Some ()" using c r(1) idle by (simp_all add: conn_idle_def)
  then show ?thesis
    using close_sending [of c w2 api] r rb by (simp add: closed_sending_def same_pool_def)
qed

section \<open>The last completion that is counted\<close>

text \<open>The write completes: the channel is released, although its receive is armed.\<close>

lemma write_loop_ends:
  assumes c: "c < length (tw_chans w)" and n: "ch_in_flight (chan w c) = 0"
    and nt: "nt_closed (ch_notify (chan w c))" "nt_pending (ch_notify (chan w c))"
    and h: "ws_holds rest (tw_pool w) (ch_wbuf (chan w c))"
  shows "\<exists>w'. write_loop api c w = Some w' \<and> \<not> ws_has_send_data (ch_wbuf (chan w' c)) \<and>
    wb_pending_head (ch_wbuf (chan w' c)) = wb_pending_tail (ch_wbuf (chan w' c)) \<and> ch_in_flight (chan w' c) = 0 \<and>
    ch_fd (chan w' c) = ch_fd (chan w c) \<and> ch_rbuf (chan w' c) = ch_rbuf (chan w c) \<and> tw_br w' = tw_br w \<and> same_pool w w' \<and>
    tw_closed w' = tw_closed w \<and> length (tw_chans w') = length (tw_chans w)"
proof -
  obtain b p where r: "ws_reset (ch_wbuf (chan w c)) (tw_pool w) = Some (b, p)" using refines_reset [OF h] by blast
  then have b: "\<not> ws_has_send_data b" "wb_pending_head b = wb_pending_tail b"
    by (auto simp: ws_reset_def ws_has_send_data_def split: bind_splits)
  show ?thesis
  proof (cases "ws_has_send_data (ch_wbuf (chan w c))")
    case True
    then show ?thesis using c n nt r b
      by (subst write_loop.simps) (simp add: write_send_def is_closing_def has_in_flight_def write_finish_def same_pool_def)
  next
    case False
    then show ?thesis using c n nt r b
      by (subst write_loop.simps) (simp add: nt_co_await_def nt_await_ready_def write_send_def is_closing_def has_in_flight_def
          write_finish_def same_pool_def)
  qed
qed

lemma write_done_releases:
  assumes cs: "closed_sending rest d c w" and res: "0 < sint res" "unat res \<le> length d"
    and srv: "\<And>c res w. on_write srv c res w = Some w"
  shows "\<exists>w'. tcp_complete api srv (Send_Tok c) res flag w = Some w' \<and> same_pool (freed c w) w' \<and>
    \<not> ws_has_send_data (ch_wbuf (chan w' c)) \<and> wb_pending_head (ch_wbuf (chan w' c)) = wb_pending_tail (ch_wbuf (chan w' c)) \<and>
    ch_in_flight (chan w' c) = 0 \<and> ch_rbuf (chan w' c) = ch_rbuf (chan w c) \<and> tw_br w' = tw_br w \<and>
    tw_closed w' = tw_closed w \<and> length (tw_chans w') = length (tw_chans w)"
proof -
  have s: "c < length (tw_chans w)" "ch_fd (chan w c) = - 1" "ch_in_flight (chan w c) = 1" "nt_closed (ch_notify (chan w c))"
      "nt_handle (ch_notify (chan w c)) = None" "tk_handle (ch_wtok (chan w c)) = Some ()"
      "ws_holds rest (tw_pool w) (ch_wbuf (chan w c))" "ws_out (tw_pool w) (ch_wbuf (chan w c)) = d"
      "unat (ch_submitted (chan w c)) = length d"
    using cs by (simp_all add: closed_sending_def)
  let ?w = "chan_upd c (\<lambda>ch. ch\<lparr>ch_wtok := (ch_wtok (chan w c))\<lparr>tk_res := res, tk_flag := flag, tk_handle := None\<rparr>,
      ch_wco := Running\<rparr>) w"
  define w1 where "w1 = freed c (chan_upd c (\<lambda>ch. ch\<lparr>ch_in_flight := ch_in_flight ch - 1,
      ch_notify := (ch_notify (chan ?w c))\<lparr>nt_pending := True\<rparr>\<rparr>) ?w)"
  have dec: "in_flight_dec api c ?w = Some w1"
    unfolding w1_def by (rule last_completion_again) (use s in simp_all)
  obtain b p where b: "ws_consume_written res (ch_wbuf (chan w c)) (tw_pool w) = Some (b, p)" "ws_holds rest p b"
    using refines_written [OF s(7), of res] s(8) res(2) by (auto simp: step_refines_def)
  let ?w2 = "chan_upd c (\<lambda>ch. ch\<lparr>ch_wbuf := b\<rparr>) (w1\<lparr>tw_pool := p\<rparr>)"
  have "res \<le> ch_submitted (chan w c)" using res(2) s(9) by (simp add: word_le_nat_alt)
  moreover have "ch_wbuf (chan w1 c) = ch_wbuf (chan w c)" "tw_pool w1 = tw_pool w" "ch_submitted (chan w1 c) = ch_submitted (chan w c)"
    using s(1) by (simp_all add: w1_def) (simp add: freed_def)
  ultimately have call: "tcp_complete api srv (Send_Tok c) res flag w = write_loop api c ?w2"
    using s(1,6) dec res(1) b(1) srv by (simp add: token_complete_def send_resume_def Let_def not_le)
  have f: "c < length (tw_chans ?w2)" "ch_in_flight (chan ?w2 c) = 0" "nt_closed (ch_notify (chan ?w2 c))"
      "nt_pending (ch_notify (chan ?w2 c))" "ws_holds rest (tw_pool ?w2) (ch_wbuf (chan ?w2 c))"
    using s b(2) by (simp_all add: w1_def)
  have "same_pool (freed c w) ?w2" "ch_rbuf (chan ?w2 c) = ch_rbuf (chan w c)" "tw_br ?w2 = tw_br w" "tw_closed ?w2 = tw_closed w"
      "length (tw_chans ?w2) = length (tw_chans w)"
    using s(1) by (simp_all add: w1_def same_pool_def) (simp_all add: freed_def)
  then show ?thesis unfolding call using write_loop_ends [OF f, of api] by (auto simp: same_pool_def)
qed

text \<open>The receive ends: the channel is released, although its write is with the kernel.\<close>

lemma receive_end_releases:
  assumes cs: "closed_sending rest d c w" and res: "sint res \<le> 0" and srv: "\<And>c res w. on_close srv c res w = Some w"
  shows "\<exists>w'. tcp_complete api srv (Recv_Tok c) res flag w = Some w' \<and> same_pool (freed c w) w' \<and>
    ch_wbuf (chan w' c) = ch_wbuf (chan w c) \<and> tw_pool w' = tw_pool w \<and> ch_in_flight (chan w' c) = 0 \<and>
    it_sqes w' = it_sqes w \<and> tw_closed w' = tw_closed w \<and> length (tw_chans w') = length (tw_chans w)"
proof -
  have s: "c < length (tw_chans w)" "ch_fd (chan w c) = - 1" "ch_in_flight (chan w c) = 1" "nt_closed (ch_notify (chan w c))"
      "nt_handle (ch_notify (chan w c)) = None" "tk_handle (ch_rtok (chan w c)) = Some ()" "rs_inv (tw_br w) (ch_rbuf (chan w c))"
    using cs by (simp_all add: closed_sending_def)
  let ?w = "chan_upd c (\<lambda>ch. ch\<lparr>ch_rtok := (ch_rtok (chan w c))\<lparr>tk_res := res, tk_flag := flag, tk_handle := None\<rparr>,
      ch_rco := Running\<rparr>) w"
  have dec: "in_flight_dec api c ?w = Some (freed c (chan_upd c
      (\<lambda>ch. ch\<lparr>ch_in_flight := ch_in_flight ch - 1, ch_notify := (ch_notify (chan ?w c))\<lparr>nt_pending := True\<rparr>\<rparr>) ?w))"
    by (rule last_completion_again) (use s in simp_all)
  obtain r' b' where "rs_reset (ch_rbuf (chan w c)) (tw_br w) = Some (r', b')"
    using rs_reset_ok [OF s(7)] by blast
  then show ?thesis
    using s dec res
    by (simp add: token_complete_def read_resume_def Let_def srv is_closing_def read_finish_def same_pool_def freed_def
        chan_upd_commute)
qed

section \<open>The next connection\<close>

lemma acquire_only:
  assumes "pool_free w = [c]" and "c < length (tw_chans w)"
  shows "tcp_pool_acquire api srv fd w = map_option (Pair (Some c)) (tcp_assign api srv fd c (w\<lparr>tw_head := tw_head w + 1\<rparr>))"
proof -
  have ht: "tw_head w \<noteq> tw_tail w" using assms(1) by (auto simp: pool_free_def ring_list_def)
  have "unat (tw_freeq w ! ring_slot (tw_mask w) (tw_head w)) = c"
    using assms(1) unfolding pool_free_def ring_list_pop [OF ht] by simp
  then show ?thesis using ht assms(2) by (simp add: tcp_pool_acquire_def Let_def)
qed

text \<open>\<^verbatim>\<open>assign\<close> on a channel with a reply \<open>d\<close> in its send queue.\<close>

lemma tcp_assign_sends:
  assumes c: "c < length (tw_chans w)" and n: "ch_in_flight (chan w c) = 0" and sqe: "\<And>r. fst (u_get_sqe api r)"
    and h: "ws_holds rest (tw_pool w) (ch_wbuf (chan w c))" and d: "ws_out (tw_pool w) (ch_wbuf (chan w c)) = d" "d \<noteq> []"
    and srv: "\<And>c w. on_accept srv c w = Some w"
  shows "\<exists>w' q count. tcp_assign api srv fd c w = Some w' \<and> ch_fd (chan w' c) = fd \<and> ch_in_flight (chan w' c) = 2 \<and>
    it_sqes w' = it_sqes w @ [q, set_data (Tok (Send_Tok c)) (prep_writev fd (Some (Chan_Iov c)) count 0 fresh_sqe)] \<and>
    iov_bytes (tw_pool w') count (ch_wbuf (chan w' c)) = d \<and> tw_closed w' = tw_closed w"
proof -
  let ?b = "ch_wbuf (chan w c)"
  have ne: "wb_slist ?b \<noteq> []" using d by (auto simp: ws_out_def bp_bytes_def)
  then have send: "ws_has_send_data ?b" using wb_slist_empty [of ?b] by (auto simp: ws_has_send_data_def)
  obtain count bytes iov where
    pk: "ws_peek_iovec ?b (tw_pool w) = Some (True, count, bytes, ?b\<lparr>ws_iovec := iov\<rparr>)" "sint count = int (length (wb_slist ?b))"
    using ws_peek_iovec_ok [OF ws_holdsD(1,4) [OF h] ne] by blast
  have "count \<noteq> 0" using pk(2) ne by auto
  moreover have s: "sqe_free api v" for v :: "'a tcp_worker" using sqe by (simp add: sqe_free_def)
  moreover have "iov_bytes (tw_pool w) count (?b\<lparr>ws_iovec := iov\<rparr>) = d" using ws_peek_holds(3) [OF h pk(1)] d(1) by simp
  ultimately show ?thesis
    using c n send pk(1)
    by (simp add: tcp_assign_def read_start_def recv_arm_def put_sqe_eq recv_await_def write_start_def srv notify_token_new_def
        in_flight_inc_def chan_upd_commute)
      (subst write_loop.simps, simp add: write_send_def is_closing_def put_sqe_eq in_flight_inc_def chan_upd_commute srv,
        rule exI [of _ count], simp)
qed

text \<open>
  Channel \<open>c\<close> serves an open connection with nothing to send, all other channels are in use, and there is room for one more
  received buffer.
\<close>

definition serving :: "u32 list \<Rightarrow> nat \<Rightarrow> 'r tcp_worker \<Rightarrow> bool" where
  "serving rest c w \<longleftrightarrow> c < length (tw_chans w) \<and> c < 2 ^ 32 \<and> conn_idle (chan w c) \<and> ch_in_flight (chan w c) = 1 \<and>
     rs_inv (tw_br w) (ch_rbuf (chan w c)) \<and> length (rb_list (ch_rbuf (chan w c))) < length (rb_queue (ch_rbuf (chan w c))) \<and>
     ws_holds rest (tw_pool w) (ch_wbuf (chan w c)) \<and> pool_ring_ok w \<and> pool_free w = [] \<and> tw_freeq w \<noteq> []"

text \<open>What the kernel may report: \<open>res\<close> bytes in a buffer that is not waiting to be read, and the receive goes on.\<close>

definition more_data :: "nat \<Rightarrow> i32 \<Rightarrow> i32 \<Rightarrow> 'r tcp_worker \<Rightarrow> bool" where
  "more_data c res flag w \<longleftrightarrow> 0 < sint res \<and> unat res \<le> unat (br_bsize (tw_br w)) \<and> has_more flag \<and>
     cqe_buffer_id flag \<in> br_blocks (tw_br w) \<and> cqe_buffer_id flag \<notin> set (rb_list (ch_rbuf (chan w c)))"

definition received :: "i32 \<Rightarrow> i32 \<Rightarrow> 'r tcp_worker \<Rightarrow> byte list" where
  "received res flag w = seg (br_buf_addr (tw_br w) (cqe_buffer_id flag)) (unat res) (br_bufs (tw_br w))"

lemma serving_closed:
  assumes srvg: "serving rest c w" and md: "more_data c res flag w"
    and got: "tcp_complete api srv (Recv_Tok c) res flag w = Some w1"
    and d: "length d = unat sz" "d \<noteq> []"
    and app: "tcp_append c d sz w1 = Some (True, w2)" and sub: "tcp_submit api c w2 = Some (True, w3)"
    and sqe: "\<And>r. fst (u_get_sqe api r)"
  shows "\<exists>w4. tcp_close api c w3 = Some w4 \<and> closed_sending rest d c w4 \<and> same_pool w w4 \<and>
    rs_data (tw_br w4) (ch_rbuf (chan w4 c)) = rs_data (tw_br w) (ch_rbuf (chan w c)) @ received res flag w \<and>
    tw_closed w4 = tw_closed w @ [ch_fd (chan w c)]"
proof -
  have s: "c < length (tw_chans w)" "conn_idle (chan w c)" "ch_in_flight (chan w c) = 1" "rs_inv (tw_br w) (ch_rbuf (chan w c))"
      "length (rb_list (ch_rbuf (chan w c))) < length (rb_queue (ch_rbuf (chan w c)))"
      "ws_holds rest (tw_pool w) (ch_wbuf (chan w c))"
    using srvg by (simp_all add: serving_def)
  have m: "cqe_buffer_id flag \<in> br_blocks (tw_br w)" "cqe_buffer_id flag \<notin> set (rb_list (ch_rbuf (chan w c)))" "0 < sint res"
      "unat res \<le> unat (br_bsize (tw_br w))" "has_more flag"
    using md by (simp_all add: more_data_def)
  from recv_more_idle [OF s(1-5) m, of api srv] got
  have g: "conn_idle (chan w1 c)" "ch_in_flight (chan w1 c) = 0" "ch_fd (chan w1 c) = ch_fd (chan w c)"
      "ws_holds rest (tw_pool w1) (ch_wbuf (chan w1 c))" "same_pool w w1" "tw_closed w1 = tw_closed w" "c < length (tw_chans w1)"
      "rs_inv (tw_br w1) (ch_rbuf (chan w1 c))"
      "rs_data (tw_br w1) (ch_rbuf (chan w1 c)) = rs_data (tw_br w) (ch_rbuf (chan w c)) @ received res flag w"
    using s(1,6) by (auto simp: received_def)
  from closed_sending_reached [OF g(7,1,2,4) d app sub sqe g(8)] show ?thesis
    using g by (auto simp: same_pool_def)
qed

text \<open>The channel is released, so it is the one the next connection gets.\<close>

lemma released_only:
  assumes "serving rest c w" and "same_pool w w4" and "same_pool (freed c w4) w5" and "length (tw_chans w5) = length (tw_chans w4)"
    and "closed_sending rest d c w4"
  shows "pool_free w5 = [c]" and "c < length (tw_chans w5)"
proof -
  have "pool_ring_ok w4" "pool_free w4 = []" "0 < length (tw_freeq w4)" "c < 2 ^ 32"
    using assms(1) same_pool_free [OF assms(2)] same_pool_ok [OF assms(2)] assms(2) by (auto simp: serving_def same_pool_def)
  then show "pool_free w5 = [c]" using freed_pool(1) [of w4 c] same_pool_free [OF assms(3)] by simp
  show "c < length (tw_chans w5)" using assms(4,5) by (simp add: closed_sending_def)
qed



section \<open>An example\<close>

text \<open>
  The connection of \<^const>\<open>sample_busy\<close> on descriptor 7 has received three bytes, and the application has replied with one.
\<close>

lemma sample_serving: "serving [] 0 sample_busy" and sample_more_data: "more_data 0 3 cqe_f_more sample_busy"
proof -
  have "rb_queue (ch_rbuf sample_conn) \<noteq> []"
    using sample_conn_idle(2) by (auto simp: rs_inv_def rb_shape_def)
  moreover have "ws_holds [] (tw_pool sample_busy) (ch_wbuf (chan sample_busy 0))"
    using sample_ws_holds
    by (simp add: sample_busy_chan sample_conn_def tcp_channel_new_def sample_bufs_def) (simp add: sample_busy_def sample_worker_def)
  moreover have "ch_in_flight sample_conn = 1" "0 < length (tw_chans sample_busy)" "tw_freeq sample_busy \<noteq> []"
    by (simp_all add: sample_conn_def sample_busy_def)
  ultimately show "serving [] 0 sample_busy"
    using sample_conn_idle sample_busy_pool by (simp add: serving_def sample_busy_chan)
  show "more_data 0 3 cqe_f_more sample_busy"
    using sample_conn_idle(3)
    by (simp add: more_data_def sample_busy_chan has_more_def cqe_f_more_def cqe_buffer_id_def cqe_buffer_shift_def br_blocks_def
        sample_br_def)
qed

lemma sample_replied:
  "\<exists>w1 w2 w3. tcp_complete sample_tcp_api default_srv (Recv_Tok 0) 3 cqe_f_more sample_busy = Some w1 \<and>
     tcp_append 0 [99] 1 w1 = Some (True, w2) \<and> tcp_submit sample_tcp_api 0 w2 = Some (True, w3)"
proof -
  have "(do { w1 \<leftarrow> tcp_complete sample_tcp_api default_srv (Recv_Tok 0) 3 cqe_f_more sample_busy;
      (a, w2) \<leftarrow> tcp_append 0 [99] 1 w1; (b, w3) \<leftarrow> tcp_submit sample_tcp_api 0 w2; Some (a \<and> b) }) = Some True"
    by code_simp
  then show ?thesis by (auto simp: bind_eq_Some_conv)
qed



end
