(* ===== verification/Tcp_Leak.thy ===== *)
theory Tcp_Leak
  imports Echo_Server
begin

text \<open>
  When a channel returns to the pool. \<^verbatim>\<open>TcpChannelPool::release\<close> is called by \<^verbatim>\<open>on_drained\<close> alone, and only for a channel that is
  already closing when its in-flight count reaches zero. \<^verbatim>\<open>tcp_read_loop\<close> counts the completion that ends a connection before it
  closes the channel, so a connection that has nothing else in flight at its end never gets there.
\<close>

section \<open>What leaves the pool alone\<close>

definition pool_view :: "'r tcp_worker \<Rightarrow> i32 list \<times> i32 \<times> i32 \<times> i32" where
  "pool_view w = (tw_freeq w, tw_mask w, tw_head w, tw_tail w)"

lemma pool_view_fields [simp]:
  "pool_view (chan_upd c f w) = pool_view w" "pool_view (w\<lparr>tw_pool := p\<rparr>) = pool_view w" "pool_view (w\<lparr>it_ring := r\<rparr>) = pool_view w"
  "pool_view (w\<lparr>it_sqes := q\<rparr>) = pool_view w" "pool_view (w\<lparr>tw_br := b\<rparr>) = pool_view w" "pool_view (w\<lparr>tw_closed := l\<rparr>) = pool_view w"
  "pool_view (w\<lparr>tw_pending := m\<rparr>) = pool_view w"
  by (simp_all add: pool_view_def)

lemma pool_free_view: "pool_view w' = pool_view w \<Longrightarrow> pool_free w' = pool_free w"
  by (simp add: pool_free_def pool_view_def)

lemma put_sqe_pool: "put_sqe api fill w = (t, w') \<Longrightarrow> pool_view w' = pool_view w"
  by (auto simp: put_sqe_def split: prod.splits sum.splits)

lemma write_finish_pool: "write_finish c w = Some w' \<Longrightarrow> pool_view w' = pool_view w"
  by (auto simp: write_finish_def split: Option.bind_splits)

lemma write_send_pool:
  assumes "write_send api c w = Some (again, w')"
  shows "pool_view w' = pool_view w"
proof (cases "is_closing (chan w c) \<and> \<not> has_in_flight (chan w c)")
  case True
  then show ?thesis using assms by (auto simp: write_send_def dest: write_finish_pool)
next
  case False
  then show ?thesis
    using assms
    by (auto simp: write_send_def Let_def split: Option.bind_splits prod.splits if_splits bool.splits dest!: put_sqe_pool)
qed

lemma write_loop_pool:
  assumes "write_loop api c w = Some w'"
  shows "pool_view w' = pool_view w"
proof (rule write_loop.raw_induct [where P = "\<lambda>api c w w'. pool_view w' = pool_view w", OF _ assms])
  fix loop api c w w'
  assume IH: "\<And>api c w w'. loop api c w = Some w' \<Longrightarrow> pool_view w' = pool_view w"
    and body: "(if ws_has_send_data (ch_wbuf (chan w c))
      then Option.bind (write_send api c w) (\<lambda>x. if fst x then loop api c (snd x) else Some (snd x))
      else let (ready, t) = nt_co_await () (ch_notify (chan w c))
        in if ready
           then Option.bind (write_send api c (chan_upd c (\<lambda>ch. ch\<lparr>ch_notify := t\<rparr>) w))
                  (\<lambda>x. if fst x then loop api c (snd x) else Some (snd x))
           else Some (chan_upd c (\<lambda>ch. ch\<lparr>ch_notify := t, ch_wco := At_Notify\<rparr>) w)) = Some w'"
  have step: "pool_view w' = pool_view u"
    if "Option.bind (write_send api c u) (\<lambda>x. if fst x then loop api c (snd x) else Some (snd x)) = Some w'" for u
    using that IH by (auto split: Option.bind_splits if_splits dest!: write_send_pool)
  show "pool_view w' = pool_view w"
    using body by (auto simp: Let_def split: if_splits prod.splits dest!: step)
qed

lemma write_wake_pool: "write_wake api c w = Some w' \<Longrightarrow> pool_view w' = pool_view w"
  by (auto simp: write_wake_def split: Option.bind_splits if_splits dest!: write_send_pool write_loop_pool)

lemma tcp_submit_pool: "tcp_submit api c w = Some (ok, w') \<Longrightarrow> pool_view w' = pool_view w"
  by (auto simp: tcp_submit_def tcp_notify_def Let_def split: prod.splits if_splits dest!: write_wake_pool)

lemma tcp_close_pool: "tcp_close api c w = Some w' \<Longrightarrow> pool_view w' = pool_view w"
  by (auto simp: tcp_close_def tcp_notify_close_def Let_def split: Option.bind_splits prod.splits if_splits dest!: write_wake_pool)

lemma recv_arm_pool: "recv_arm api c w = (t, w') \<Longrightarrow> pool_view w' = pool_view w"
  by (auto simp: recv_arm_def split: prod.splits bool.splits dest!: put_sqe_pool)

lemma read_start_pool: "pool_view (read_start api c w) = pool_view w"
  by (auto simp: read_start_def recv_throw_def recv_await_def split: prod.splits bool.splits dest!: recv_arm_pool)

lemma write_start_pool: "write_start api c w = Some w' \<Longrightarrow> pool_view w' = pool_view w"
  by (auto simp: write_start_def dest!: write_loop_pool)

lemma recv_store_pool: "recv_store c i sz w = Some w' \<Longrightarrow> pool_view w' = pool_view w"
  by (auto simp: recv_store_def mark_pending_read_def Let_def split: if_splits)

lemma read_finish_pool: "read_finish c w = Some w' \<Longrightarrow> pool_view w' = pool_view w"
  by (auto simp: read_finish_def split: Option.bind_splits)

lemma tcp_api_pool:
  "tcp_append c data sz w = Some (ok, w') \<Longrightarrow> pool_view w' = pool_view w"
  "tcp_prepend c data sz w = Some (ok, w') \<Longrightarrow> pool_view w' = pool_view w"
  "tcp_peek c sz w = Some (ok, w') \<Longrightarrow> pool_view w' = pool_view w"
  "tcp_consume c sz w = Some (ok, w') \<Longrightarrow> pool_view w' = pool_view w"
  by (auto simp: tcp_append_def tcp_prepend_def tcp_peek_def tcp_consume_def)

section \<open>Runs without a completion on a closing channel\<close>

text \<open>
  \<open>quiet_run api srv w0 w acc\<close>: from \<open>w0\<close> the worker has come to \<open>w\<close> by accepting connections, which were given the channels \<open>acc\<close> in
  this order, by completions of receives and writes on channels that were not closing, with any result, by callbacks for the
  received data, and by the kernel's stores into the receive buffers.
\<close>

inductive quiet_run ::
  "('r, 'q) tcp_api \<Rightarrow> 'r tcp_worker tcp_server \<Rightarrow> 'r tcp_worker \<Rightarrow> 'r tcp_worker \<Rightarrow> nat list \<Rightarrow> bool" for api srv w0 where
  quiet_start: "quiet_run api srv w0 w0 []"
| quiet_accept: "quiet_run api srv w0 w acc \<Longrightarrow> tcp_pool_acquire api srv fd w = Some (Some c, w') \<Longrightarrow>
    quiet_run api srv w0 w' (acc @ [c])"
| quiet_refuse: "quiet_run api srv w0 w acc \<Longrightarrow> tcp_pool_acquire api srv fd w = Some (None, w') \<Longrightarrow>
    quiet_run api srv w0 w' acc"
| quiet_recv: "quiet_run api srv w0 w acc \<Longrightarrow> c < length (tw_chans w) \<Longrightarrow> \<not> is_closing (chan w c) \<Longrightarrow>
    tcp_complete api srv (Recv_Tok c) res flag w = Some w' \<Longrightarrow> quiet_run api srv w0 w' acc"
| quiet_send: "quiet_run api srv w0 w acc \<Longrightarrow> c < length (tw_chans w) \<Longrightarrow> \<not> is_closing (chan w c) \<Longrightarrow>
    tcp_complete api srv (Send_Tok c) res flag w = Some w' \<Longrightarrow> quiet_run api srv w0 w' acc"
| quiet_batch: "quiet_run api srv w0 w acc \<Longrightarrow> tcp_on_batch_done srv w = Some w' \<Longrightarrow> quiet_run api srv w0 w' acc"
| quiet_store: "quiet_run api srv w0 w acc \<Longrightarrow> quiet_run api srv w0 (w\<lparr>tw_br := kernel_fill i bytes (tw_br w)\<rparr>) acc"

text \<open>An application that reaches the pool of channels only through the worker.\<close>

locale pool_user =
  fixes srv :: "'r tcp_worker tcp_server"
  assumes on_read_pool: "on_read srv c w = Some w' \<Longrightarrow> pool_view w' = pool_view w"
    and on_write_pool: "on_write srv c n w = Some w' \<Longrightarrow> pool_view w' = pool_view w"
    and on_accept_pool: "on_accept srv c w = Some w' \<Longrightarrow> pool_view w' = pool_view w"
    and on_close_pool: "on_close srv c n w = Some w' \<Longrightarrow> pool_view w' = pool_view w"
begin

lemma recv_open_pool:
  assumes c: "c < length (tw_chans w)" "\<not> is_closing (chan w c)" and r: "tcp_complete api srv (Recv_Tok c) res flag w = Some w'"
  shows "pool_view w' = pool_view w"
proof -
  have "\<not> is_closing (chan (chan_upd c (\<lambda>ch. ch\<lparr>ch_rtok := t, ch_rco := Running\<rparr>) w) c)" for t
    using c by (simp add: is_closing_def)
  then show ?thesis
    using r c(1)
    by (auto simp: token_complete_def read_resume_def in_flight_dec_open Let_def recv_throw_def recv_await_def
        split: if_splits Option.bind_splits prod.splits bool.splits
        dest!: on_close_pool tcp_close_pool read_finish_pool recv_arm_pool recv_store_pool)
qed

lemma send_open_pool:
  assumes c: "c < length (tw_chans w)" "\<not> is_closing (chan w c)" and r: "tcp_complete api srv (Send_Tok c) res flag w = Some w'"
  shows "pool_view w' = pool_view w"
proof -
  have "\<not> is_closing (chan (chan_upd c (\<lambda>ch. ch\<lparr>ch_wtok := t, ch_wco := Running\<rparr>) w) c)" for t
    using c by (simp add: is_closing_def)
  then show ?thesis
    using r c(1)
    by (auto simp: token_complete_def send_resume_def in_flight_dec_open Let_def
        split: if_splits Option.bind_splits prod.splits
        dest!: on_write_pool tcp_close_pool write_finish_pool write_loop_pool)
qed

lemma read_callbacks_pool: "read_callbacks srv cs w = Some w' \<Longrightarrow> pool_view w' = pool_view w"
proof (induction cs arbitrary: w)
  case (Cons c cs)
  then show ?case by (auto split: Option.bind_splits dest!: on_read_pool Cons.IH)
qed simp

lemma tcp_assign_pool: "tcp_assign api srv fd c w = Some w' \<Longrightarrow> pool_view w' = pool_view w"
  by (auto simp: tcp_assign_def read_start_pool split: Option.bind_splits dest!: write_start_pool on_accept_pool)

text \<open>An accepted connection takes the first free channel; nothing gives one back.\<close>

lemma quiet_run_free:
  assumes "quiet_run api srv w0 w acc"
  shows "pool_free w0 = acc @ pool_free w"
  using assms
proof induction
  case (quiet_accept w acc fd c w')
  then have ht: "tw_head w \<noteq> tw_tail w" by (auto simp: tcp_pool_acquire_def)
  then have "unat (tw_freeq w ! ring_slot (tw_mask w) (tw_head w)) = c"
      "tcp_assign api srv fd c (w\<lparr>tw_head := tw_head w + 1\<rparr>) = Some w'"
    using quiet_accept.hyps(2) by (auto simp: tcp_pool_acquire_def Let_def split: if_splits)
  then have "pool_free w = c # pool_free w'"
    using tcp_assign_pool [of api fd c "w\<lparr>tw_head := tw_head w + 1\<rparr>" w'] ring_list_pop [OF ht, of "tw_freeq w" "tw_mask w"]
    by (simp add: pool_free_def pool_view_def)
  then show ?case using quiet_accept.IH by simp
next
  case (quiet_refuse w acc fd w')
  then have "w' = w" by (auto simp: tcp_pool_acquire_def Let_def split: if_splits)
  then show ?case using quiet_refuse.IH by simp
next
  case (quiet_recv w acc c res flag w')
  then show ?case using pool_free_view [OF recv_open_pool [OF quiet_recv.hyps(2-4)]] by simp
next
  case (quiet_send w acc c res flag w')
  then show ?case using pool_free_view [OF send_open_pool [OF quiet_send.hyps(2-4)]] by simp
next
  case (quiet_batch w acc w')
  then have "pool_view w' = pool_view w" by (auto simp: tcp_on_batch_done_def dest: read_callbacks_pool)
  then show ?case using quiet_batch.IH pool_free_view by metis
next
  case (quiet_store w acc i bytes)
  then show ?case by (simp add: pool_free_def)
qed simp

end

interpretation echo_pool: pool_user "tcp_echo api" for api :: "('r, 'q) tcp_api"
proof
  have app: "pool_view w' = pool_view w" if "echo_append_all c is w = Some w'" for c "is" and w w' :: "'r tcp_worker"
    using that
  proof (induction "is" arbitrary: w)
    case (Cons i "is")
    then show ?case by (auto simp: Let_def split: if_splits Option.bind_splits dest!: tcp_api_pool(1) Cons.IH)
  qed simp
  show "pool_view w' = pool_view w" if "on_read (tcp_echo api) c w = Some w'" for c and w w' :: "'r tcp_worker"
    using that
    by (auto simp: tcp_echo_def echo_on_read_def Let_def split: if_splits Option.bind_splits
        dest!: app tcp_api_pool tcp_submit_pool)
qed (simp_all add: tcp_echo_def)

section \<open>A worker that serves a fixed number of connections\<close>

lemma tcp_pool_new_free:
  assumes pow: "is_power_of_two n" and len: "length freeq = unat n" and new: "tcp_pool_new bufs freeq n w = Some w0"
  shows "pool_free w0 = [0..<unat n]"
proof -
  obtain k where k: "k < 31" "n = 2 ^ k" "unat n = 2 ^ k" using pow by (rule is_power_of_twoE)
  let ?u = "w\<lparr>tw_chans := [], tw_freeq := freeq, tw_head := 0, tw_tail := 0, tw_psize := n, tw_mask := n - 1\<rparr>"
  have w0: "w0 = fold (pool_add bufs) [0..<unat n] ?u"
    using new pow by (simp add: tcp_pool_new_def pool_add_def [abs_def])
  have "n - 1 = mask k" using k(2) by (simp add: mask_eq_exp_minus_1)
  then have "ring_ok (tw_freeq ?u) (tw_mask ?u) (tw_head ?u) (tw_tail ?u)"
    using len k by (auto simp: ring_ok_def)
  from pool_add_fold [OF this, of "unat n" bufs] len
  have "ring_list (tw_freeq w0) (tw_mask w0) (tw_head w0) (tw_tail w0) = map of_nat [0..<unat n]" by (simp add: w0)
  moreover have "map unat (map of_nat [0..<unat n] :: i32 list) = [0..<unat n]"
    by (intro nth_equalityI) (simp_all add: unat_of_nat_le [of _ n] less_imp_le)
  ultimately show ?thesis by (simp only: pool_free_def)
qed

text \<open>
  C17: channels that never return. Take any run of a worker with a new pool of \<open>n\<close> channels in which no operation of a connection
  completes after the connection was closed: peers that close when nothing is being sent to them, after any exchange of data, are
  such runs, for the completion that ends the connection arrives while the channel is open. The connections are then given the
  channels 0, 1, 2 and so on, each of them once; no channel is ever given back, whether its connection is over or not. So the worker
  serves at most \<open>n\<close> connections, and once it has accepted \<open>n\<close>, every further one is refused. The application may be any whose
  callbacks leave the list of free channels to the worker.
\<close>

theorem tcp_pool_exhausted:
  assumes "is_power_of_two n" and "length freeq = unat n" and "tcp_pool_new bufs freeq n w = Some w0"
    and "pool_user srv" and "quiet_run api srv w0 w' acc"
  shows "acc = [0..<length acc] \<and> length acc \<le> unat n \<and> pool_free w' = [length acc..<unat n] \<and>
    (length acc = unat n \<longrightarrow> (\<forall>fd. tcp_pool_acquire api srv fd w' = Some (None, w')))"
proof -
  have run: "[0..<unat n] = acc @ pool_free w'"
    using pool_user.quiet_run_free [OF assms(4,5)] tcp_pool_new_free [OF assms(1-3)] by simp
  have len: "length acc \<le> unat n" using arg_cong [OF run, of length] by simp
  have acc: "acc = [0..<length acc]" "pool_free w' = [length acc..<unat n]"
    using arg_cong [OF run, of "take (length acc)"] arg_cong [OF run, of "drop (length acc)"] len by (simp_all add: min_def)
  have "tw_head w' = tw_tail w'" if "length acc = unat n"
    using acc(2) that by (simp add: pool_free_def ring_list_Nil_iff)
  then show ?thesis using acc len by (simp add: tcp_pool_acquire_def)
qed

text \<open>
  A worker with one channel runs the echo server. It accepts a connection, receives three bytes, echoes them, and the peer closes once
  the write has completed: the channel is gone.
\<close>

definition sample_life :: "(unit tcp_worker \<times> unit tcp_worker \<times> unit tcp_worker \<times> unit tcp_worker \<times> unit tcp_worker \<times>
  unit tcp_worker) option" where
  "sample_life = do {
     w0 \<leftarrow> tcp_pool_new sample_bufs [0] 1 sample_worker;
     (ch, w1) \<leftarrow> tcp_pool_acquire sample_tcp_api (tcp_echo sample_tcp_api) 7 w0;
     w2 \<leftarrow> tcp_complete sample_tcp_api (tcp_echo sample_tcp_api) (Recv_Tok 0) 3 cqe_f_more
       (w1\<lparr>tw_br := kernel_fill 0 [11, 12, 13] (tw_br w1)\<rparr>);
     w3 \<leftarrow> tcp_on_batch_done (tcp_echo sample_tcp_api) w2;
     w4 \<leftarrow> tcp_complete sample_tcp_api (tcp_echo sample_tcp_api) (Send_Tok 0) 3 0 w3;
     w5 \<leftarrow> tcp_complete sample_tcp_api (tcp_echo sample_tcp_api) (Recv_Tok 0) 0 0 w4;
     if ch = Some 0 then Some (w0, w1, w2, w3, w4, w5) else None }"

definition sample_open :: "unit tcp_worker \<Rightarrow> bool" where
  "sample_open w \<longleftrightarrow> 0 < length (tw_chans w) \<and> \<not> is_closing (chan w 0)"

lemma sample_life_open:
  "(case sample_life of
      None \<Rightarrow> False
    | Some (w0, w1, w2, w3, w4, w5) \<Rightarrow> sample_open w1 \<and> sample_open w3 \<and> sample_open w4 \<and> tw_closed w5 = [7])"
  by code_simp

theorem tcp_pool_exhausted_witness:
  "\<exists>w0 w. tcp_pool_new sample_bufs [0] 1 sample_worker = Some w0 \<and>
     quiet_run sample_tcp_api (tcp_echo sample_tcp_api) w0 w [0] \<and> tw_closed w = [7] \<and>
     (\<forall>fd. tcp_pool_acquire sample_tcp_api (tcp_echo sample_tcp_api) fd w = Some (None, w))"
proof -
  let ?run = "quiet_run sample_tcp_api (tcp_echo sample_tcp_api)"
  obtain w0 w1 w2 w3 w4 w5 where l: "sample_life = Some (w0, w1, w2, w3, w4, w5)"
    and o: "sample_open w1" "sample_open w3" "sample_open w4" "tw_closed w5 = [7]"
    using sample_life_open by (auto split: option.splits)
  from l have s: "tcp_pool_new sample_bufs [0] 1 sample_worker = Some w0"
      "tcp_pool_acquire sample_tcp_api (tcp_echo sample_tcp_api) 7 w0 = Some (Some 0, w1)"
      "tcp_complete sample_tcp_api (tcp_echo sample_tcp_api) (Recv_Tok 0) 3 cqe_f_more
        (w1\<lparr>tw_br := kernel_fill 0 [11, 12, 13] (tw_br w1)\<rparr>) = Some w2"
      "tcp_on_batch_done (tcp_echo sample_tcp_api) w2 = Some w3"
      "tcp_complete sample_tcp_api (tcp_echo sample_tcp_api) (Send_Tok 0) 3 0 w3 = Some w4"
      "tcp_complete sample_tcp_api (tcp_echo sample_tcp_api) (Recv_Tok 0) 0 0 w4 = Some w5"
    by (auto simp: sample_life_def bind_eq_Some_conv split: if_splits simp del: tcp_complete.simps)
  have "?run w0 w1 ([] @ [0])" by (rule quiet_accept [OF quiet_start s(2)])
  then have "?run w0 (w1\<lparr>tw_br := kernel_fill 0 [11, 12, 13] (tw_br w1)\<rparr>) [0]" using quiet_store by fastforce
  from quiet_recv [OF this _ _ s(3)] have "?run w0 w2 [0]" using o(1) by (simp add: sample_open_def)
  from quiet_batch [OF this s(4)] have "?run w0 w3 [0]" .
  from quiet_send [OF this _ _ s(5)] have "?run w0 w4 [0]" using o(2) by (simp add: sample_open_def)
  from quiet_recv [OF this _ _ s(6)] have run: "?run w0 w5 [0]" using o(3) by (simp add: sample_open_def)
  then show ?thesis
    using tcp_pool_exhausted [OF _ _ s(1) echo_pool.pool_user_axioms run] s(1) o(4) by (auto simp: is_power_of_two_def)
qed

end
