(* ===== verification/Tcp_Faults.thy ===== *)
theory Tcp_Faults
  imports Tcp_Application
begin

text \<open>
  Behaviours of the TCP worker on its error paths: a receive that cannot be armed again, and stopping a worker that is
  bound to a CPU.
\<close>

section \<open>A full submission queue\<close>

lemma dec_open_channel:
  assumes "c < length (tw_chans w)" and "\<not> is_closing (chan w c)"
  shows "in_flight_dec api c w = Some (chan_upd c (\<lambda>ch. ch\<lparr>ch_in_flight := ch_in_flight ch - 1\<rparr>) w)"
  using assms by (simp add: in_flight_dec_def on_drained_def is_closing_def Let_def)

text \<open>
  C37: a TCP connection is stranded when its receive cannot be armed again. A completion carries data but not
  \<^verbatim>\<open>IORING_CQE_F_MORE\<close>, and the submission queue is full: \<^verbatim>\<open>get_sqe\<close> throws, \<^verbatim>\<open>unhandled_exception\<close> does nothing, and
  \<^verbatim>\<open>tcp_read_loop\<close> is over. The received buffer is neither queued nor given back to the kernel, the application is not told, and
  the connection stays open; whatever completes on its token from then on is dropped.
\<close>

theorem tcp_rearm_strands:
  assumes c: "c < length (tw_chans w)" and wait: "tk_handle (ch_rtok (chan w c)) = Some ()" and op: "\<not> is_closing (chan w c)"
    and data: "0 < sint res" "\<not> has_more flag" and full: "\<not> sqe_free api w"
  shows "\<exists>w'. tcp_complete api srv (Recv_Tok c) res flag w = Some w' \<and> ch_rco (chan w' c) = Finished \<and>
    ch_rbuf (chan w' c) = ch_rbuf (chan w c) \<and> tw_br w' = tw_br w \<and> tw_pending w' = tw_pending w \<and>
    ch_fd (chan w' c) = ch_fd (chan w c) \<and> tw_closed w' = tw_closed w \<and> \<not> is_closing (chan w' c) \<and>
    (\<forall>res' flag'. \<exists>t. tcp_complete api srv (Recv_Tok c) res' flag' w' = Some (chan_upd c (\<lambda>ch. ch\<lparr>ch_rtok := t\<rparr>) w'))"
proof -
  have s: "\<not> sqe_free api (chan_upd c f w)" for f using full by (simp add: sqe_free_def)
  have "tcp_complete api srv (Recv_Tok c) res flag w =
      Some (recv_throw c (chan_upd c (\<lambda>ch. ch\<lparr>ch_rtok := (ch_rtok (chan w c))\<lparr>tk_res := res, tk_flag := flag, tk_handle := None\<rparr>,
        ch_rco := Running, ch_in_flight := ch_in_flight ch - 1\<rparr>) (w\<lparr>it_ring := ring_after_sqe api (it_ring w)\<rparr>)))"
    using c wait op data
    by (simp add: token_complete_def read_resume_def Let_def dec_open_channel is_closing_def recv_arm_def put_sqe_eq s
        chan_upd_commute)
  then show ?thesis
    using c op by (auto simp: recv_throw_def token_complete_def is_closing_def intro!: exI)
qed

text \<open>A ring without a free entry.\<close>

definition full_tcp_api :: "(unit, unit) tcp_api" where
  "full_tcp_api = sample_tcp_api\<lparr>u_get_sqe := \<lambda>_. (False, ())\<rparr>"

theorem tcp_rearm_strands_witness:
  "\<exists>w'. tcp_complete full_tcp_api default_srv (Recv_Tok 0) 3 0 sample_busy = Some w' \<and> ch_rco (chan w' 0) = Finished \<and>
     tw_closed w' = []"
proof -
  have "0 < length (tw_chans sample_busy)" "tk_handle (ch_rtok (chan sample_busy 0)) = Some ()" "\<not> is_closing (chan sample_busy 0)"
      "\<not> has_more 0" "\<not> sqe_free full_tcp_api sample_busy" "tw_closed sample_busy = []"
    by (simp_all add: sample_busy_def sample_worker_def sample_conn_def chan_def is_closing_def has_more_def sqe_free_def full_tcp_api_def)
  then show ?thesis using tcp_rearm_strands [of 0 sample_busy 3 0 full_tcp_api default_srv] by auto
qed

section \<open>Stopping a pinned worker\<close>

text \<open>The first \<open>n\<close> passes of the loop of \<^verbatim>\<open>on_stop\<close>.\<close>

primrec stop_turns ::
  "('r, 'q) tcp_api \<Rightarrow> 'r tcp_worker tcp_server \<Rightarrow> nat \<Rightarrow> 'r tcp_worker \<Rightarrow> (bool \<times> 'r tcp_worker) option" where
  "stop_turns api srv 0 w = Some (False, w)"
| "stop_turns api srv (Suc n) w =
     Option.bind (stop_turns api srv n w) (\<lambda>x. if fst x then Some x else stop_turn api srv (snd x))"

text \<open>A ring in a state \<open>q\<close> has no completion, and gets none from what the loop of a pinned worker calls.\<close>

definition quiet_ring :: "('r, 'q, 't) uring \<Rightarrow> ('r \<Rightarrow> bool) \<Rightarrow> bool" where
  "quiet_ring api q \<longleftrightarrow> (\<forall>r. q r \<longrightarrow> q (snd (u_get_sqe api r)) \<and> q (u_cq_advance api 0 r) \<and>
     (\<forall>n. fst (u_peek_batch_cqe api n r) = 0 \<and> q (snd (snd (u_peek_batch_cqe api n r)))))"

lemma quiet_turn:
  assumes "quiet_ring api q" and "q (ir_ring (it_ring w))" and "it_cpu w \<noteq> - 1"
  shows "\<exists>w'. stop_turn api srv w = Some (False, w') \<and> q (ir_ring (it_ring w')) \<and> it_cpu w' \<noteq> - 1"
proof -
  obtain n cs r where p: "u_peek_batch_cqe api (ir_queue_depth (it_ring w)) (ir_ring (it_ring w)) = (n, cs, r)"
    by (rule prod_cases3)
  have "n = 0" "q r" using assms(1,2) p unfolding quiet_ring_def by (metis fst_conv snd_conv)+
  moreover have "q (u_cq_advance api 0 r)" using assms(1) \<open>q r\<close> by (simp add: quiet_ring_def)
  ultimately show ?thesis using assms(3) p by (simp add: stop_turn_def peek_batch_cqe_def cqe_advance_def)
qed

lemma quiet_turns:
  assumes "quiet_ring api q" and "q (ir_ring (it_ring w))" and "it_cpu w \<noteq> - 1"
  shows "\<exists>w'. stop_turns api srv n w = Some (False, w') \<and> q (ir_ring (it_ring w')) \<and> it_cpu w' \<noteq> - 1"
proof (induction n)
  case (Suc n)
  then obtain w' where w': "stop_turns api srv n w = Some (False, w')" "q (ir_ring (it_ring w'))" "it_cpu w' \<noteq> - 1" by blast
  from quiet_turn [OF assms(1) w'(2,3)] show ?case by (simp add: w'(1))
qed (use assms in simp)

lemma quiet_loop:
  assumes "quiet_ring api q" and "q (ir_ring (it_ring w))" and "it_cpu w \<noteq> - 1"
  shows "stop_loop api srv w = None"
proof (rule ccontr)
  assume "stop_loop api srv w \<noteq> None"
  then obtain w' where w': "stop_loop api srv w = Some w'" by blast
  have "quiet_ring api q \<longrightarrow> q (ir_ring (it_ring w)) \<longrightarrow> it_cpu w \<noteq> - 1 \<longrightarrow> False"
  proof (rule stop_loop.raw_induct [where P = "\<lambda>api srv w w'. quiet_ring api q \<longrightarrow> q (ir_ring (it_ring w)) \<longrightarrow> it_cpu w \<noteq> - 1 \<longrightarrow> False", OF _ w'])
    fix loop api srv w and w' :: "'a tcp_worker"
    assume IH: "\<And>api srv w w'. loop api srv w = Some w' \<Longrightarrow> quiet_ring api q \<longrightarrow> q (ir_ring (it_ring w)) \<longrightarrow> it_cpu w \<noteq> - 1 \<longrightarrow> False"
      and body: "Option.bind (stop_turn api srv w) (\<lambda>x. if fst x then Some (snd x) else loop api srv (snd x)) = Some w'"
    show "quiet_ring api q \<longrightarrow> q (ir_ring (it_ring w)) \<longrightarrow> it_cpu w \<noteq> - 1 \<longrightarrow> False"
    proof (intro impI)
      assume "quiet_ring api q" "q (ir_ring (it_ring w))" "it_cpu w \<noteq> - 1"
      from quiet_turn [OF this, of srv] \<open>quiet_ring api q\<close> show False using body IH by auto
    qed
  qed
  then show False using assms by blast
qed

text \<open>
  C38: \<^verbatim>\<open>TcpThread::on_stop\<close> of a worker bound to a CPU does not return. It prepares the cancellation of all
  operations, but only an unpinned worker submits, and the kernel sees a prepared entry only after a submit. On a
  ring without completions that produces none from \<^verbatim>\<open>get_sqe\<close>, \<^verbatim>\<open>peek_batch_cqe\<close> and \<^verbatim>\<open>cq_advance\<close> alone, every pass of
  its loop finds nothing to do and leads to the next, so the thread is never joined.
\<close>

theorem tcp_stop_pinned_spins:
  assumes quiet: "quiet_ring api q" "q (ir_ring (it_ring w))" and cpu: "it_cpu w \<noteq> - 1" and sqe: "sqe_free api w"
  shows "\<exists>w1. put_sqe api (\<lambda>e. set_data Null_Data (prep_cancel_all e)) w = (False, w1) \<and>
    (\<forall>n. \<exists>w2. stop_turns api srv n w1 = Some (False, w2)) \<and> tcp_on_stop api srv w = None"
proof -
  obtain w1 where w1: "put_sqe api (\<lambda>e. set_data Null_Data (prep_cancel_all e)) w = (False, w1)"
      "ir_ring (it_ring w1) = snd (u_get_sqe api (ir_ring (it_ring w)))" "it_cpu w1 = it_cpu w"
    using sqe by (simp add: put_sqe_eq ring_after_sqe_def)
  then have q1: "q (ir_ring (it_ring w1))" "it_cpu w1 \<noteq> - 1" using quiet cpu by (simp_all add: quiet_ring_def)
  have "\<exists>w2. stop_turns api srv n w1 = Some (False, w2)" for n using quiet_turns [OF quiet(1) q1] by metis
  moreover have "tcp_on_stop api srv w = None" by (simp add: tcp_on_stop_def w1(1) quiet_loop [OF quiet(1) q1])
  ultimately show ?thesis using w1(1) by blast
qed

text \<open>A ring that counts the entries prepared and those submitted, and completes the latter at once.\<close>

definition lazy_tcp_api :: "(nat \<times> nat, unit) tcp_api" where
  "lazy_tcp_api = \<lparr>u_queue_init = \<lambda>_ _. (0, (0, 0)), u_queue_init_params = \<lambda>_ _. (0, (0, 0)), u_get_sqe = \<lambda>(p, s). (True, (p + 1, s)),
     u_wait_cqe = \<lambda>r. (0, None, r), u_peek_cqe = \<lambda>r. (0, None, r),
     u_peek_batch_cqe = \<lambda>_ (p, s). (if s = 0 then (0, [], (p, s)) else (1, [\<lparr>cqe_res = 0, cqe_flags = 0, cqe_data = Null_Data\<rparr>], (p, s))),
     u_submit = \<lambda>(p, s). (of_nat p, (0, s + p)), u_submit_and_wait = \<lambda>_ (p, s). (of_nat p, (0, s + p)),
     u_register_files = \<lambda>_ r. (0, r), u_cqe_seen = \<lambda>_ r. r, u_cq_advance = \<lambda>n (p, s). (p, s - unat n), u_ring_fd = \<lambda>_. 0\<rparr>"

definition lazy_worker :: "i32 \<Rightarrow> (nat \<times> nat) tcp_worker" where
  "lazy_worker cpu = \<lparr>it_cpu = cpu, it_ring = \<lparr>ir_ring = (0, 0), ir_queue_depth = 8\<rparr>, it_sqes = [], it_wakeup_fd = None,
     tw_br = sample_br, tw_pool = sample_pool, tw_chans = [], tw_freeq = [], tw_head = 0, tw_tail = 0, tw_psize = 0,
     tw_mask = 0, tw_pending = [], tw_closed = [], tw_listen = 3, tw_atok = token_new, tw_aco = No_Frame\<rparr>"

text \<open>On CPU 2 it spins; unpinned, on the same ring, it returns.\<close>

theorem tcp_stop_pinned_spins_witness:
  "tcp_on_stop lazy_tcp_api default_srv (lazy_worker 2) = None \<and>
   tcp_on_stop lazy_tcp_api default_srv (lazy_worker (- 1)) \<noteq> None"
proof
  have "quiet_ring lazy_tcp_api (\<lambda>(p, s). s = 0)" by (auto simp: quiet_ring_def lazy_tcp_api_def)
  moreover have "it_cpu (lazy_worker 2) \<noteq> - 1" "ir_ring (it_ring (lazy_worker 2)) = (0, 0)" "sqe_free lazy_tcp_api (lazy_worker 2)"
    by (simp_all add: lazy_worker_def sqe_free_def lazy_tcp_api_def)
  ultimately show "tcp_on_stop lazy_tcp_api default_srv (lazy_worker 2) = None"
    using tcp_stop_pinned_spins [of lazy_tcp_api "\<lambda>(p, s). s = 0" "lazy_worker 2" default_srv] by auto
  show "tcp_on_stop lazy_tcp_api default_srv (lazy_worker (- 1)) \<noteq> None" by code_simp
qed

end
