(* ===== verification/Coroutine.thy ===== *)
theory Coroutine
  imports Prelude
begin

text \<open>
  The owners of coroutine frames: \<^verbatim>\<open>ChannelHandler\<close> (\<^verbatim>\<open>include/net/handler.hpp\<close>), \<^verbatim>\<open>Acceptor\<close> (\<^verbatim>\<open>include/net/acceptor.hpp\<close>,
  \<^verbatim>\<open>src/net/acceptor.cpp\<close>) and the destructor of \<^verbatim>\<open>Channel\<close> (\<^verbatim>\<open>include/net/channel.hpp\<close>). A \<^verbatim>\<open>coroutine_handle\<close> that may be
  empty is a \<open>'f option\<close>. Destroying a frame that is not there, or a failed assertion, is \<^term>\<open>None\<close>.
\<close>

section \<open>Frames\<close>

text \<open>The frames that exist, and those of them that are at their final suspend point.\<close>

record 'f frames =
  fr_live :: "'f set"
  fr_done :: "'f set"

definition co_destroy :: "'f \<Rightarrow> 'f frames \<Rightarrow> 'f frames option" where
  "co_destroy h s = (if h \<in> fr_live s then Some (s\<lparr>fr_live := fr_live s - {h}, fr_done := fr_done s - {h}\<rparr>) else None)"

text \<open>
  A coroutine is constructed in the buffer \<open>f\<close> and runs up to its first suspension. A frame that was there is overwritten, as
  it is in \<open>Tcp_Channel.tcp_assign\<close>: its locals are not destroyed, and its state is gone.
\<close>

definition co_create :: "'f \<Rightarrow> 'f frames \<Rightarrow> 'f frames" where
  "co_create f s = s\<lparr>fr_live := insert f (fr_live s), fr_done := fr_done s - {f}\<rparr>"

text \<open>\<^verbatim>\<open>CORO_FRAME_SIZE\<close>, and \<^verbatim>\<open>promise_type::operator new\<close>: the frame is a member of the channel and must fit.\<close>

definition coro_frame_size :: nat where
  "coro_frame_size = 256"

definition promise_new :: "nat \<Rightarrow> 'f \<Rightarrow> 'f option" where
  "promise_new sz frame = (if sz \<le> coro_frame_size then Some frame else None)"

section \<open>ChannelHandler\<close>

text \<open>The handles of the new object and of the one moved from.\<close>

definition handler_move :: "'f option \<Rightarrow> 'f option \<times> 'f option" where
  "handler_move other = (other, None)"

text \<open>\<^verbatim>\<open>operator=\<close>: both handles and the frames afterwards.\<close>

definition handler_assign :: "'f option \<Rightarrow> 'f option \<Rightarrow> 'f frames \<Rightarrow> ('f option \<times> 'f option \<times> 'f frames) option" where
  "handler_assign handle other s = do {
     s' \<leftarrow> (case handle of Some h \<Rightarrow> if h \<in> fr_done s then co_destroy h s else Some s | None \<Rightarrow> Some s);
     Some (other, None, s') }"

text \<open>The handle returned and the one kept; \<^verbatim>\<open>Acceptor\<close> has the same member.\<close>

definition handler_release :: "'f option \<Rightarrow> 'f option \<times> 'f option" where
  "handler_release handle = (handle, None)"

section \<open>Acceptor and Channel\<close>

definition handle_destroy :: "'f option \<Rightarrow> 'f frames \<Rightarrow> 'f frames option" where
  "handle_destroy handle s = (case handle of Some h \<Rightarrow> co_destroy h s | None \<Rightarrow> Some s)"

text \<open>\<^verbatim>\<open>~Acceptor\<close>, and the frame \<^verbatim>\<open>Acceptor::resume\<close> resumes, if any.\<close>

definition acceptor_destroy :: "'f option \<Rightarrow> 'f frames \<Rightarrow> 'f frames option" where
  "acceptor_destroy handle s = handle_destroy handle s"

definition acceptor_resume :: "'f option \<Rightarrow> 'f frames \<Rightarrow> 'f option" where
  "acceptor_resume handle s = (case handle of Some h \<Rightarrow> if h \<notin> fr_done s then Some h else None | None \<Rightarrow> None)"

text \<open>\<^verbatim>\<open>~Channel\<close>.\<close>

definition channel_destroy :: "'f option \<Rightarrow> 'f option \<Rightarrow> 'f frames \<Rightarrow> 'f frames option" where
  "channel_destroy read_handle write_handle s = do {
     s' \<leftarrow> handle_destroy read_handle s;
     handle_destroy write_handle s' }"

text \<open>
  What \<^verbatim>\<open>TcpChannel::assign\<close> does with one of its handles: a finished coroutine is destroyed, then the new one is created; its
  frame, the buffer \<open>frame\<close> in the channel, is the same every time.
\<close>

definition assign_handle :: "'f \<Rightarrow> 'f option \<Rightarrow> 'f frames \<Rightarrow> ('f option \<times> 'f frames) option" where
  "assign_handle frame handle s = do {
     s1 \<leftarrow> (case handle of Some h \<Rightarrow> if h \<in> fr_done s then co_destroy h s else Some s | None \<Rightarrow> Some s);
     Some (Some frame, co_create frame s1) }"

section \<open>One owner per frame\<close>

text \<open>\<open>hs\<close> are the handles of all owners: no frame has two, and every one exists.\<close>

definition owners :: "'f option list \<Rightarrow> 'f list" where
  "owners hs = concat (map (\<lambda>h. case h of Some f \<Rightarrow> [f] | None \<Rightarrow> []) hs)"

lemma owners_simps [simp]:
  "owners [] = []" "owners (None # hs) = owners hs" "owners (Some f # hs) = f # owners hs"
  by (simp_all add: owners_def)

definition co_owned :: "'f option list \<Rightarrow> 'f frames \<Rightarrow> bool" where
  "co_owned hs s \<longleftrightarrow> distinct (owners hs) \<and> set (owners hs) \<subseteq> fr_live s"

text \<open>Moving, releasing and destroying keep it, and destroy no frame twice.\<close>

lemma handler_move_owned:
  "co_owned (other # hs) s \<Longrightarrow> handler_move other = (new, other') \<Longrightarrow> co_owned (new # other' # hs) s"
  by (cases other) (auto simp: handler_move_def co_owned_def)

lemma handle_destroy_owned:
  assumes "co_owned (h # hs) s"
  shows "\<exists>s'. handle_destroy h s = Some s' \<and> co_owned hs s' \<and> set_option h \<inter> fr_live s' = {} \<and>
    (\<forall>f. f \<notin> set_option h \<longrightarrow> (f \<in> fr_live s' \<longleftrightarrow> f \<in> fr_live s))"
  using assms by (cases h) (auto simp: handle_destroy_def co_destroy_def co_owned_def)

lemma channel_destroy_owned:
  assumes "co_owned (r # w # hs) s"
  shows "\<exists>s'. channel_destroy r w s = Some s' \<and> co_owned hs s' \<and> (set_option r \<union> set_option w) \<inter> fr_live s' = {}"
proof -
  from handle_destroy_owned [OF assms] obtain s1 where s1: "handle_destroy r s = Some s1" "co_owned (w # hs) s1"
      "set_option r \<inter> fr_live s1 = {}" by blast
  from handle_destroy_owned [OF s1(2)] obtain s2 where s2: "handle_destroy w s1 = Some s2" "co_owned hs s2"
      "set_option w \<inter> fr_live s2 = {}" "\<And>f. f \<in> fr_live s2 \<Longrightarrow> f \<in> fr_live s1" by blast
  then show ?thesis using s1 by (auto simp: channel_destroy_def)
qed

lemma handler_assign_owned:
  assumes "co_owned (handle # other # hs) s"
  shows "\<exists>s'. handler_assign handle other s = Some (other, None, s') \<and> co_owned (other # None # hs) s'"
  using assms by (cases handle; cases other) (auto simp: handler_assign_def co_destroy_def co_owned_def)

text \<open>But assigning to a handler whose coroutine is suspended leaves a frame without an owner.\<close>

lemma handler_assign_leaks:
  assumes "co_owned (Some f # other # hs) s" and "f \<notin> fr_done s"
  shows "\<exists>s'. handler_assign (Some f) other s = Some (other, None, s') \<and> f \<in> fr_live s' \<and> f \<notin> set (owners (other # None # hs))"
  using assms by (cases other) (auto simp: handler_assign_def co_owned_def)

text \<open>
  A channel that is assigned again has the one frame of its buffer. A coroutine that has finished is destroyed first; one
  that is still suspended, as after the early releases shown in \<open>Tcp_Faults\<close>, is not: the new frame is put over it as if the
  channel had never had one.
\<close>

lemma assign_handle_owned:
  assumes "co_owned (Some f # hs) s"
  shows "\<exists>s'. assign_handle f (Some f) s = Some (Some f, s') \<and> co_owned (Some f # hs) s' \<and> f \<notin> fr_done s'"
  using assms by (auto simp: assign_handle_def co_destroy_def co_create_def co_owned_def)

lemma assign_handle_overwrites:
  assumes "f \<notin> fr_done s"
  shows "assign_handle f (Some f) s = assign_handle f None s"
  using assms by (simp add: assign_handle_def)

end
