(* ===== verification/Logger.thy ===== *)
theory Logger
  imports Io_Ring "HOL-Library.Char_ord"
begin

text \<open>
  \<^verbatim>\<open>Logger\<close> (\<^verbatim>\<open>include/util/log.hpp\<close>, \<^verbatim>\<open>src/util/log.cpp\<close>): every thread fills one of two buffers of its own and hands
  a full one to the backend thread, which writes it to the file of the day. The flush queue is a list of at most
  \<open>128\<close> buffers (\<open>Mpsc_Queue\<close> shows that the lock-free queue is one), a buffer is named by its thread and its index.
  What the system calls return (times, descriptors, file sizes) are arguments. \<^term>\<open>None\<close> is a write outside an array, a
  failed assertion, or an exception that leaves the backend thread and so ends the process; an operation that
  blocks is \<^term>\<open>None\<close> until it can go on.
\<close>

section \<open>Levels and lines\<close>

datatype log_level = DEBUG | INFO | WARNING | ERROR

fun level_rank :: "log_level \<Rightarrow> nat" where
  "level_rank DEBUG = 0"
| "level_rank INFO = 1"
| "level_rank WARNING = 2"
| "level_rank ERROR = 3"

instantiation log_level :: linorder
begin

definition less_eq_log_level :: "log_level \<Rightarrow> log_level \<Rightarrow> bool" where
  "less_eq_log_level a b \<longleftrightarrow> level_rank a \<le> level_rank b"

definition less_log_level :: "log_level \<Rightarrow> log_level \<Rightarrow> bool" where
  "less_log_level a b \<longleftrightarrow> level_rank a < level_rank b"

instance
proof
  fix a b :: log_level
  show "a \<le> b \<Longrightarrow> b \<le> a \<Longrightarrow> a = b" by (cases a; cases b) (simp_all add: less_eq_log_level_def)
qed (auto simp: less_eq_log_level_def less_log_level_def)

end

fun level_str :: "log_level \<Rightarrow> string" where
  "level_str DEBUG = ''[DEBUG]''"
| "level_str INFO = ''[INFO]''"
| "level_str WARNING = ''[WARNING]''"
| "level_str ERROR = ''[ERROR]''"

text \<open>\<^verbatim>\<open>%s\<close> and \<^verbatim>\<open>%.*s\<close> stop at a null character.\<close>

definition c_str :: "string \<Rightarrow> string" where
  "c_str s = takeWhile (\<lambda>c. c \<noteq> CHR 0x00) s"

definition line_size :: nat where
  "line_size = 320"

text \<open>
  The text the format string describes, and \<^verbatim>\<open>snprintf\<close>: its result is the length of the whole text, and what it
  stores is cut to one character less than the array has and ends with a null character; the characters of the array
  after that one stay undefined. A message is shorter than 2 GiB, so that the length is an \<^verbatim>\<open>int\<close>.
\<close>

definition format_line :: "string \<Rightarrow> log_level \<Rightarrow> string \<Rightarrow> string" where
  "format_line ts_buf level message = c_str ts_buf @ '' '' @ level_str level @ '' '' @ c_str message @ [CHR 0x0A]"

definition snprintf :: "nat \<Rightarrow> string \<Rightarrow> nat \<times> string" where
  "snprintf sz full = (length full, take (sz - 1) full @ [CHR 0x00])"

text \<open>The characters of \<^verbatim>\<open>line\<close> that are handed to \<^verbatim>\<open>append\<close>; \<^term>\<open>None\<close> is a read of one that was never stored.\<close>

definition log_line :: "nat \<Rightarrow> string \<Rightarrow> string option" where
  "log_line n line =
     (let sz = (if n < line_size then n else line_size - 1) in if sz \<le> length line then Some (take sz line) else None)"

section \<open>State\<close>

definition buffer_size :: nat where
  "buffer_size = 1024 * 1024 * 32"

definition flush_queue_capacity :: nat where
  "flush_queue_capacity = 128"

text \<open>\<open>lb_text\<close> is the used part of \<^verbatim>\<open>buffer_\<close>, so \<^verbatim>\<open>current_size_\<close> is its length.\<close>

record log_buf =
  lb_text :: string
  lb_in_flight :: bool

record log_thread =
  lt_buf :: "bool \<Rightarrow> log_buf"
  lt_write :: bool
  lt_flush :: int

type_synonym buf_ref = "nat \<times> bool"

record 'r logger =
  lg_level :: log_level
  lg_threads :: "nat \<Rightarrow> log_thread option"
  lg_queue :: "buf_ref list"
  lg_sem :: nat
  lg_today :: string
  lg_fd :: i32
  lg_offset :: u64
  lg_in_flight :: u32
  lg_ring :: "'r io_ring"
  lg_sqes :: "((buf_ref, buf_ref) sqe \<times> string) list"

type_synonym ('r, 'q) log_api = "('r, 'q, buf_ref) uring"

definition log_thread_new :: "int \<Rightarrow> log_thread" where
  "log_thread_new now = \<lparr>lt_buf = \<lambda>_. \<lparr>lb_text = [], lb_in_flight = False\<rparr>, lt_write = False, lt_flush = now\<rparr>"

text \<open>The constructor: \<^verbatim>\<open>ring_(64)\<close>, which throws if the ring cannot be set up.\<close>

definition logger_new :: "('r, 'q) log_api \<Rightarrow> ring_error + 'r logger" where
  "logger_new api =
     (case io_ring_flags api 64 0 of
        Inl e \<Rightarrow> Inl e
      | Inr ring \<Rightarrow> Inr \<lparr>lg_level = DEBUG, lg_threads = \<lambda>_. None, lg_queue = [], lg_sem = 0, lg_today = [], lg_fd = - 1,
          lg_offset = 0, lg_in_flight = 0, lg_ring = ring, lg_sqes = []\<rparr>)"

definition lb_append :: "string \<Rightarrow> log_buf \<Rightarrow> log_buf option" where
  "lb_append data b =
     (if length (lb_text b) + length data \<le> buffer_size then Some (b\<lparr>lb_text := lb_text b @ data\<rparr>) else None)"

definition queue_put :: "buf_ref \<Rightarrow> buf_ref list \<Rightarrow> bool \<times> buf_ref list" where
  "queue_put x q = (if length q < flush_queue_capacity then (True, q @ [x]) else (False, q))"

definition put_buf :: "bool \<Rightarrow> log_buf \<Rightarrow> log_thread \<Rightarrow> log_thread" where
  "put_buf i b t = t\<lparr>lt_buf := (lt_buf t)(i := b)\<rparr>"

definition set_flight :: "bool \<Rightarrow> bool \<Rightarrow> log_thread \<Rightarrow> log_thread" where
  "set_flight i f t = put_buf i ((lt_buf t i)\<lparr>lb_in_flight := f\<rparr>) t"

section \<open>The logging threads\<close>

text \<open>
  \<^verbatim>\<open>Logger::append\<close> by thread \<open>i\<close>; \<open>born\<close> and \<open>now\<close> are readings of the steady clock in nanoseconds. The two buffers are
  \<^term>\<open>False\<close> and \<^term>\<open>True\<close>, so \<^verbatim>\<open>1 - write_idx\<close> is the negation. The Boolean of the result says whether the text was kept.
\<close>

definition append_kept :: "string \<Rightarrow> log_thread \<Rightarrow> log_thread option" where
  "append_kept data t = map_option (\<lambda>b. put_buf (lt_write t) b t) (lb_append data (lt_buf t (lt_write t)))"

definition log_append :: "nat \<Rightarrow> string \<Rightarrow> int \<Rightarrow> int \<Rightarrow> 'r logger \<Rightarrow> (bool \<times> 'r logger) option" where
  "log_append i data born now lg =
     (let t = (case lg_threads lg i of Some t \<Rightarrow> t | None \<Rightarrow> log_thread_new born);
          front = lt_buf t (lt_write t);
          is_full = buffer_size < length (lb_text front) + length data;
          timed_out = \<not> is_full \<and> lb_text front \<noteq> [] \<and> 1000000000 \<le> now - lt_flush t;
          keep = (\<lambda>t lg. map_option (\<lambda>t'. (True, lg\<lparr>lg_threads := (lg_threads lg)(i \<mapsto> t')\<rparr>)) (append_kept data t));
          drop_it = Some (False, lg\<lparr>lg_threads := (lg_threads lg)(i \<mapsto> t)\<rparr>)
      in if is_full \<or> timed_out then
           if \<not> lb_in_flight (lt_buf t (\<not> lt_write t)) then
             (case queue_put (i, lt_write t) (lg_queue lg) of
                (False, _) \<Rightarrow> if is_full then drop_it else keep t lg
              | (True, q) \<Rightarrow> keep ((set_flight (lt_write t) True t)\<lparr>lt_write := \<not> lt_write t, lt_flush := now\<rparr>)
                    (lg\<lparr>lg_queue := q, lg_sem := lg_sem lg + 1\<rparr>))
           else if is_full then drop_it else keep t lg
         else keep t lg)"

text \<open>\<^verbatim>\<open>Logger::log\<close>; \<open>ts_buf\<close> is the text \<^verbatim>\<open>get_datetime\<close> gave.\<close>

definition log_message :: "nat \<Rightarrow> log_level \<Rightarrow> string \<Rightarrow> string \<Rightarrow> int \<Rightarrow> int \<Rightarrow> 'r logger \<Rightarrow> (bool \<times> 'r logger) option" where
  "log_message i level ts_buf message born now lg =
     (if level < lg_level lg then Some (False, lg)
      else case snprintf line_size (format_line ts_buf level message) of
        (n, line) \<Rightarrow>
          if 0 < n then do { data \<leftarrow> log_line n line; log_append i data born now lg } else Some (False, lg))"

text \<open>The four wrappers, and the macros, which format the message only if the level lets it pass.\<close>

definition log_error :: "nat \<Rightarrow> string \<Rightarrow> string \<Rightarrow> int \<Rightarrow> int \<Rightarrow> 'r logger \<Rightarrow> (bool \<times> 'r logger) option" where
  "log_error i = log_message i ERROR"

definition log_warning :: "nat \<Rightarrow> string \<Rightarrow> string \<Rightarrow> int \<Rightarrow> int \<Rightarrow> 'r logger \<Rightarrow> (bool \<times> 'r logger) option" where
  "log_warning i = log_message i WARNING"

definition log_info :: "nat \<Rightarrow> string \<Rightarrow> string \<Rightarrow> int \<Rightarrow> int \<Rightarrow> 'r logger \<Rightarrow> (bool \<times> 'r logger) option" where
  "log_info i = log_message i INFO"

definition log_debug :: "nat \<Rightarrow> string \<Rightarrow> string \<Rightarrow> int \<Rightarrow> int \<Rightarrow> 'r logger \<Rightarrow> (bool \<times> 'r logger) option" where
  "log_debug i = log_message i DEBUG"

definition LOG_ERROR :: "nat \<Rightarrow> string \<Rightarrow> (unit \<Rightarrow> string) \<Rightarrow> int \<Rightarrow> int \<Rightarrow> 'r logger \<Rightarrow> (bool \<times> 'r logger) option" where
  "LOG_ERROR i ts_buf format born now lg =
     (if lg_level lg \<le> ERROR then log_message i ERROR ts_buf (format ()) born now lg else Some (False, lg))"

definition LOG_WARNING :: "nat \<Rightarrow> string \<Rightarrow> (unit \<Rightarrow> string) \<Rightarrow> int \<Rightarrow> int \<Rightarrow> 'r logger \<Rightarrow> (bool \<times> 'r logger) option" where
  "LOG_WARNING i ts_buf format born now lg =
     (if lg_level lg \<le> WARNING then log_message i WARNING ts_buf (format ()) born now lg else Some (False, lg))"

definition LOG_INFO :: "nat \<Rightarrow> string \<Rightarrow> (unit \<Rightarrow> string) \<Rightarrow> int \<Rightarrow> int \<Rightarrow> 'r logger \<Rightarrow> (bool \<times> 'r logger) option" where
  "LOG_INFO i ts_buf format born now lg =
     (if lg_level lg \<le> INFO then log_message i INFO ts_buf (format ()) born now lg else Some (False, lg))"

definition LOG_DEBUG :: "nat \<Rightarrow> string \<Rightarrow> (unit \<Rightarrow> string) \<Rightarrow> int \<Rightarrow> int \<Rightarrow> 'r logger \<Rightarrow> (bool \<times> 'r logger) option" where
  "LOG_DEBUG i ts_buf format born now lg =
     (if lg_level lg \<le> DEBUG then log_message i DEBUG ts_buf (format ()) born now lg else Some (False, lg))"

definition set_log_level :: "log_level \<Rightarrow> 'r logger \<Rightarrow> 'r logger" where
  "set_log_level level lg = lg\<lparr>lg_level := level\<rparr>"

text \<open>
  \<^verbatim>\<open>~ThreadFlushGuard\<close> at the end of a thread, up to the wait: what is left is handed over unless the other buffer is
  still in flight or the queue is full.
\<close>

definition thread_exit_flush :: "nat \<Rightarrow> 'r logger \<Rightarrow> 'r logger" where
  "thread_exit_flush i lg = (case lg_threads lg i of
     None \<Rightarrow> lg
   | Some t \<Rightarrow>
       if lb_text (lt_buf t (lt_write t)) \<noteq> [] \<and> \<not> lb_in_flight (lt_buf t (\<not> lt_write t))
       then (case queue_put (i, lt_write t) (lg_queue lg) of
           (True, q) \<Rightarrow> lg\<lparr>lg_threads := (lg_threads lg)(i \<mapsto> set_flight (lt_write t) True t), lg_queue := q, lg_sem := lg_sem lg + 1\<rparr>
         | (False, _) \<Rightarrow> lg)
       else lg)"

text \<open>The wait for both buffers, and the deletion.\<close>

definition thread_exit_done :: "nat \<Rightarrow> 'r logger \<Rightarrow> 'r logger option" where
  "thread_exit_done i lg = (case lg_threads lg i of
     None \<Rightarrow> Some lg
   | Some t \<Rightarrow> if lb_in_flight (lt_buf t False) \<or> lb_in_flight (lt_buf t True) then None
       else Some (lg\<lparr>lg_threads := (lg_threads lg)(i := None)\<rparr>))"

text \<open>
  \<^verbatim>\<open>~Logger\<close> on the thread that ends the process, up to \<^verbatim>\<open>request_stop\<close>: it waits for the other buffer and for room in the
  queue.
\<close>

definition logger_exit_flush :: "nat \<Rightarrow> 'r logger \<Rightarrow> 'r logger option" where
  "logger_exit_flush i lg = (case lg_threads lg i of
     None \<Rightarrow> Some lg
   | Some t \<Rightarrow>
       if lb_text (lt_buf t (lt_write t)) = [] then Some lg
       else if lb_in_flight (lt_buf t (\<not> lt_write t)) then None
       else (case queue_put (i, lt_write t) (lg_queue lg) of
           (True, q) \<Rightarrow> Some (lg\<lparr>lg_threads := (lg_threads lg)(i \<mapsto> set_flight (lt_write t) True t), lg_queue := q, lg_sem := lg_sem lg + 1\<rparr>)
         | (False, _) \<Rightarrow> None))"

section \<open>The backend\<close>

definition buf_done :: "buf_ref \<Rightarrow> 'r logger \<Rightarrow> 'r logger option" where
  "buf_done r lg = (case lg_threads lg (fst r) of
     None \<Rightarrow> None
   | Some t \<Rightarrow> Some (lg\<lparr>lg_threads := (lg_threads lg)(fst r \<mapsto> put_buf (snd r) \<lparr>lb_text = [], lb_in_flight = False\<rparr> t)\<rparr>))"

text \<open>\<^verbatim>\<open>submit_buf\<close>. The text the entry points to is logged with it; a deleted thread state is \<^term>\<open>None\<close>.\<close>

definition submit_buf :: "('r, 'q) log_api \<Rightarrow> buf_ref \<Rightarrow> 'r logger \<Rightarrow> 'r logger option" where
  "submit_buf api r lg =
     (if sint (lg_fd lg) < 0 then buf_done r lg
      else case lg_threads lg (fst r) of
        None \<Rightarrow> None
      | Some t \<Rightarrow>
          let text = lb_text (lt_buf t (snd r)) in
          (case get_sqe api (lg_ring lg) of
             (Inl _, _) \<Rightarrow> None
           | (Inr sqe, ring) \<Rightarrow> Some (lg\<lparr>lg_ring := ring,
               lg_sqes := lg_sqes lg @ [(set_data (Tok r) (prep_write (lg_fd lg) (Some r) (of_nat (length text)) (lg_offset lg) sqe), text)],
               lg_offset := lg_offset lg + of_nat (length text), lg_in_flight := lg_in_flight lg + 1\<rparr>)))"

definition handle_cqe :: "('r, 'q) log_api \<Rightarrow> buf_ref cqe option \<Rightarrow> 'r logger \<Rightarrow> 'r logger option" where
  "handle_cqe api c lg = (case cqe_get_data c of
     Some (Tok r) \<Rightarrow> map_option (\<lambda>lg'. lg'\<lparr>lg_ring := cqe_seen api c (lg_ring lg'), lg_in_flight := lg_in_flight lg' - 1\<rparr>)
         (buf_done r lg)
   | _ \<Rightarrow> None)"

text \<open>\<^verbatim>\<open>while (flush_queue_.dequeue(buf)) submit_buf(buf)\<close>, on what is queued.\<close>

fun submit_all :: "('r, 'q) log_api \<Rightarrow> buf_ref list \<Rightarrow> 'r logger \<Rightarrow> 'r logger option" where
  "submit_all api [] lg = Some lg"
| "submit_all api (r # rs) lg = Option.bind (submit_buf api r lg) (submit_all api rs)"

definition drain_queue :: "('r, 'q) log_api \<Rightarrow> 'r logger \<Rightarrow> 'r logger option" where
  "drain_queue api lg = submit_all api (lg_queue lg) (lg\<lparr>lg_queue := []\<rparr>)"

definition log_submit :: "('r, 'q) log_api \<Rightarrow> 'r logger \<Rightarrow> 'r logger option" where
  "log_submit api lg = (case ring_submit api (lg_ring lg) of
     (Inl _, _) \<Rightarrow> None | (Inr _, ring) \<Rightarrow> Some (lg\<lparr>lg_ring := ring\<rparr>))"

text \<open>The loop over the completions that are there.\<close>

partial_function (option) collect :: "('r, 'q) log_api \<Rightarrow> 'r logger \<Rightarrow> 'r logger option" where
  "collect api lg = (case peek_cqe api (lg_ring lg) of
     (Inl _, _) \<Rightarrow> None
   | (Inr c, ring) \<Rightarrow>
       if cqe_empty c then Some (lg\<lparr>lg_ring := ring\<rparr>)
       else Option.bind (handle_cqe api c (lg\<lparr>lg_ring := ring\<rparr>)) (collect api))"

declare collect.simps [code]

text \<open>\<^verbatim>\<open>while (in_flight_ > 0)\<close>: an empty completion here fails the assertion of \<^verbatim>\<open>get_data\<close>.\<close>

partial_function (option) await_all :: "('r, 'q) log_api \<Rightarrow> 'r logger \<Rightarrow> 'r logger option" where
  "await_all api lg =
     (if lg_in_flight lg = 0 then Some lg
      else case peek_cqe api (lg_ring lg) of
        (Inl _, _) \<Rightarrow> None
      | (Inr c, ring) \<Rightarrow> Option.bind (handle_cqe api c (lg\<lparr>lg_ring := ring\<rparr>)) (await_all api))"

declare await_all.simps [code]

definition submit_and_await :: "('r, 'q) log_api \<Rightarrow> 'r logger \<Rightarrow> 'r logger option" where
  "submit_and_await api lg =
     (case ring_submit_and_wait api (lg_in_flight lg) (lg_ring lg) of
        (Inl _, _) \<Rightarrow> None
      | (Inr _, ring) \<Rightarrow> await_all api (lg\<lparr>lg_ring := ring\<rparr>))"

text \<open>
  \<^verbatim>\<open>switch_log_file_date\<close>: \<open>fd\<close> is what \<^verbatim>\<open>open\<close> returns and \<open>fsize\<close> the size \<^verbatim>\<open>fstat\<close> reports, if it succeeds.
\<close>

definition switch_log_file_date :: "i32 \<Rightarrow> u64 option \<Rightarrow> 'r logger \<Rightarrow> bool \<times> 'r logger" where
  "switch_log_file_date fd fsize lg =
     (if 0 \<le> sint fd then (True, lg\<lparr>lg_fd := fd, lg_offset := (case fsize of Some n \<Rightarrow> n | None \<Rightarrow> lg_offset lg)\<rparr>)
      else (False, lg\<lparr>lg_fd := fd\<rparr>))"

text \<open>The test of the date at the head of the loop.\<close>

definition check_date ::
  "('r, 'q) log_api \<Rightarrow> string \<Rightarrow> i32 \<Rightarrow> u64 option \<Rightarrow> 'r logger \<Rightarrow> 'r logger option" where
  "check_date api new_date fd fsize lg =
     (if lg_today lg = new_date then Some lg
      else do {
        lg1 \<leftarrow> (if lg_in_flight lg = 0 then Some (lg\<lparr>lg_today := new_date\<rparr>)
                else submit_and_await api (lg\<lparr>lg_today := new_date\<rparr>));
        Some (snd (switch_log_file_date fd fsize lg1)) })"

text \<open>Before the loop: the first file is opened.\<close>

definition backend_start :: "string \<Rightarrow> i32 \<Rightarrow> u64 option \<Rightarrow> 'r logger \<Rightarrow> 'r logger" where
  "backend_start date_buf fd fsize lg = snd (switch_log_file_date fd fsize (lg\<lparr>lg_today := date_buf\<rparr>))"

text \<open>One pass of the loop before a stop is requested; \<^verbatim>\<open>acquire\<close> blocks while the semaphore is zero.\<close>

definition backend_turn ::
  "('r, 'q) log_api \<Rightarrow> string \<Rightarrow> i32 \<Rightarrow> u64 option \<Rightarrow> 'r logger \<Rightarrow> 'r logger option" where
  "backend_turn api new_date fd fsize lg = do {
     lg1 \<leftarrow> check_date api new_date fd fsize lg;
     lg2 \<leftarrow> (if lg_sem lg1 = 0 then None else Some (lg1\<lparr>lg_sem := lg_sem lg1 - 1\<rparr>));
     lg3 \<leftarrow> drain_queue api lg2;
     lg4 \<leftarrow> log_submit api lg3;
     collect api lg4 }"

text \<open>The last pass, after \<^verbatim>\<open>stop_requested()\<close> has become true.\<close>

definition backend_stop :: "('r, 'q) log_api \<Rightarrow> 'r logger \<Rightarrow> 'r logger option" where
  "backend_stop api lg = do {
     lg1 \<leftarrow> drain_queue api lg;
     lg2 \<leftarrow> log_submit api lg1;
     lg3 \<leftarrow> collect api lg2;
     lg4 \<leftarrow> drain_queue api lg3;
     lg5 \<leftarrow> log_submit api lg4;
     if lg_in_flight lg5 = 0 then Some lg5 else submit_and_await api lg5 }"

text \<open>
  \<^verbatim>\<open>~Logger\<close> as a whole, with the backend waiting in \<^verbatim>\<open>acquire\<close> when the stop is requested.
\<close>

definition logger_close :: "nat \<Rightarrow> 'r logger \<Rightarrow> 'r logger" where
  "logger_close i lg = lg\<lparr>lg_threads := (lg_threads lg)(i := None), lg_fd := (if 0 \<le> sint (lg_fd lg) then - 1 else lg_fd lg)\<rparr>"

definition logger_exit :: "('r, 'q) log_api \<Rightarrow> nat \<Rightarrow> 'r logger \<Rightarrow> 'r logger option" where
  "logger_exit api i lg = do {
     lg1 \<leftarrow> logger_exit_flush i lg;
     lg2 \<leftarrow> backend_stop api lg1;
     Some (logger_close i lg2) }"

end
