(* ===== verification/Logger_Spec.thy ===== *)
theory Logger_Spec
  imports Logger
begin

text \<open>
  What the logger promises: lines fit their buffer, a text is dropped only when it has to be, and the texts of each
  thread reach the file in order, each once, at places of their own.
\<close>

section \<open>Lines\<close>

text \<open>What \<^verbatim>\<open>log\<close> appends, once the level has let the message pass.\<close>

lemma log_message_cut:
  assumes "\<not> level < lg_level lg"
  shows "log_message i level ts_buf message born now lg =
    log_append i (take 319 (format_line ts_buf level message)) born now lg"
proof -
  define full where "full = format_line ts_buf level message"
  have "0 < length full" by (simp add: full_def format_line_def)
  moreover have "log_line (length full) (take 319 full @ [CHR 0x00]) = Some (take 319 full)"
    by (simp add: log_line_def line_size_def Let_def)
  ultimately show ?thesis
    using assms by (simp add: log_message_def snprintf_def line_size_def full_def [symmetric])
qed

lemma newline_kept:
  assumes "CHR 0x0A \<notin> set (c_str ts_buf)" and "CHR 0x0A \<notin> set (c_str message)"
  shows "CHR 0x0A \<in> set (take 319 (format_line ts_buf level message)) \<longleftrightarrow>
    length (format_line ts_buf level message) < 320"
proof -
  let ?body = "c_str ts_buf @ '' '' @ level_str level @ '' '' @ c_str message"
  have f: "format_line ts_buf level message = ?body @ [CHR 0x0A]" by (simp add: format_line_def)
  have "CHR 0x0A \<notin> set (level_str level)" by (cases level) simp_all
  then show ?thesis using assms unfolding f by (auto simp: take_Cons' dest: in_set_takeD)
qed

section \<open>Appending\<close>

definition other :: "log_thread \<Rightarrow> log_buf" where
  "other t = lt_buf t (\<not> lt_write t)"

definition front :: "log_thread \<Rightarrow> log_buf" where
  "front t = lt_buf t (lt_write t)"

definition thread_of :: "nat \<Rightarrow> int \<Rightarrow> 'r logger \<Rightarrow> log_thread" where
  "thread_of i born lg = (case lg_threads lg i of Some t \<Rightarrow> t | None \<Rightarrow> log_thread_new born)"

text \<open>The shape of a thread's buffers: the front one is its own, and the other one is empty unless it is in flight.\<close>

definition thread_shape :: "log_thread \<Rightarrow> bool" where
  "thread_shape t \<longleftrightarrow> \<not> lb_in_flight (front t) \<and> length (lb_text (front t)) \<le> buffer_size \<and>
     length (lb_text (other t)) \<le> buffer_size \<and> (\<not> lb_in_flight (other t) \<longrightarrow> lb_text (other t) = [])"

text \<open>The three outcomes of \<^verbatim>\<open>append\<close>.\<close>

definition append_stay :: "nat \<Rightarrow> string \<Rightarrow> log_thread \<Rightarrow> 'r logger \<Rightarrow> 'r logger" where
  "append_stay i data t lg = lg\<lparr>lg_threads := (lg_threads lg)(i \<mapsto>
     put_buf (lt_write t) ((front t)\<lparr>lb_text := lb_text (front t) @ data\<rparr>) t)\<rparr>"

definition append_switch :: "nat \<Rightarrow> string \<Rightarrow> int \<Rightarrow> log_thread \<Rightarrow> 'r logger \<Rightarrow> 'r logger" where
  "append_switch i data now t lg = lg\<lparr>lg_queue := lg_queue lg @ [(i, lt_write t)], lg_sem := lg_sem lg + 1,
     lg_threads := (lg_threads lg)(i \<mapsto> \<lparr>lt_buf = (\<lambda>_. undefined)(lt_write t := (front t)\<lparr>lb_in_flight := True\<rparr>,
       (\<not> lt_write t) := (other t)\<lparr>lb_text := data\<rparr>), lt_write = \<not> lt_write t, lt_flush = now\<rparr>)\<rparr>"

lemma bool_fun_upd: "(\<lambda>_. undefined)(b := x, (\<not> b) := y) = (f :: bool \<Rightarrow> 'a)(b := x, (\<not> b) := y)"
  by (rule ext) (case_tac xa; cases b; simp)

lemma log_append_outcome:
  assumes sh: "thread_shape (thread_of i born lg)" and len: "length data \<le> buffer_size"
  defines "t \<equiv> thread_of i born lg"
  shows "log_append i data born now lg = Some (True, append_stay i data t lg) \<and> length (lb_text (front t)) + length data \<le> buffer_size \<or>
    log_append i data born now lg = Some (True, append_switch i data now t lg) \<and> \<not> lb_in_flight (other t) \<and>
      length (lg_queue lg) < flush_queue_capacity \<or>
    log_append i data born now lg = Some (False, lg\<lparr>lg_threads := (lg_threads lg)(i \<mapsto> t)\<rparr>) \<and>
      buffer_size < length (lb_text (front t)) + length data \<and>
      (lb_in_flight (other t) \<or> flush_queue_capacity \<le> length (lg_queue lg))"
proof -
  let ?full = "buffer_size < length (lb_text (front t)) + length data"
  have t: "(case lg_threads lg i of Some t \<Rightarrow> t | None \<Rightarrow> log_thread_new born) = t" by (simp add: t_def thread_of_def)
  have stay: "\<not> ?full \<Longrightarrow> append_kept data t = Some (put_buf (lt_write t) ((front t)\<lparr>lb_text := lb_text (front t) @ data\<rparr>) t)"
    by (simp add: append_kept_def lb_append_def front_def)
  have switch: "append_kept data ((set_flight (lt_write t) True t)\<lparr>lt_write := \<not> lt_write t, lt_flush := now\<rparr>) =
      Some \<lparr>lt_buf = (\<lambda>_. undefined)(lt_write t := (front t)\<lparr>lb_in_flight := True\<rparr>,
       (\<not> lt_write t) := (other t)\<lparr>lb_text := data\<rparr>), lt_write = \<not> lt_write t, lt_flush = now\<rparr>" if "\<not> lb_in_flight (other t)"
  proof -
    have "lb_text (other t) = []" using sh that by (simp add: t_def thread_shape_def)
    then show ?thesis
      using len unfolding append_kept_def lb_append_def set_flight_def put_buf_def other_def front_def bool_fun_upd [of _ _ _ "lt_buf t"]
      by (cases t) simp
  qed
  show ?thesis
    using stay switch
    by (auto simp: log_append_def t Let_def front_def [symmetric] other_def [symmetric] queue_put_def append_stay_def append_switch_def)
qed

section \<open>From the threads to the file\<close>

text \<open>
  The runs of the logger on an open file: threads append texts of at most a line, the backend submits the buffer at
  the head of the queue, a write that was submitted completes. \<open>kept\<close> is all text of a thread that \<^verbatim>\<open>append\<close> accepted,
  \<open>out\<close> the buffers being written, \<open>off\<close> the end of the file when it was opened.
\<close>

inductive log_reach ::
  "('r, 'q) log_api \<Rightarrow> u64 \<Rightarrow> 'r logger \<Rightarrow> (nat \<Rightarrow> string) \<Rightarrow> buf_ref list \<Rightarrow> bool" for api off where
  log_open: "logger_new api = Inr lg \<Longrightarrow> switch_log_file_date fd (Some off) lg = (True, lg') \<Longrightarrow>
    log_reach api off lg' (\<lambda>_. []) []"
| log_text: "log_reach api off lg kept out \<Longrightarrow> length data \<le> line_size \<Longrightarrow>
    log_append i data born now lg = Some (ok, lg') \<Longrightarrow>
    log_reach api off lg' (if ok then kept(i := kept i @ data) else kept) out"
| log_flush: "log_reach api off lg kept out \<Longrightarrow> lg_queue lg = r # rs \<Longrightarrow>
    submit_buf api r (lg\<lparr>lg_queue := rs\<rparr>) = Some lg' \<Longrightarrow> log_reach api off lg' kept (out @ [r])"
| log_done: "log_reach api off lg kept (out1 @ r # out2) \<Longrightarrow> cqe_data c = Tok r \<Longrightarrow>
    handle_cqe api (Some c) lg = Some lg' \<Longrightarrow> log_reach api off lg' kept (out1 @ out2)"

text \<open>The texts submitted for a thread, in order; those queued; and where they go in the file.\<close>

definition submitted :: "nat \<Rightarrow> ((buf_ref, buf_ref) sqe \<times> string) list \<Rightarrow> string" where
  "submitted i ss = concat (map snd (filter (\<lambda>(q, _). \<exists>b. sqe_data q = Tok (i, b)) ss))"

definition queued :: "nat \<Rightarrow> 'r logger \<Rightarrow> string" where
  "queued i lg = concat (map (\<lambda>(j, b). lb_text (lt_buf (the (lg_threads lg j)) b)) (filter (\<lambda>r. fst r = i) (lg_queue lg)))"

definition held :: "nat \<Rightarrow> 'r logger \<Rightarrow> string" where
  "held i lg = (case lg_threads lg i of None \<Rightarrow> [] | Some t \<Rightarrow> lb_text (front t))"

fun contiguous :: "i32 \<Rightarrow> u64 \<Rightarrow> ((buf_ref, buf_ref) sqe \<times> string) list \<Rightarrow> bool" where
  "contiguous fd off [] = True"
| "contiguous fd off ((q, text) # ss) \<longleftrightarrow>
     (\<exists>r. sqe_op q = Some (Op_Write fd (Some r) (of_nat (length text)) off) \<and> sqe_data q = Tok r) \<and>
     contiguous fd (off + of_nat (length text)) ss"

lemma contiguous_append:
  "contiguous fd off (ss @ ts) \<longleftrightarrow> contiguous fd off ss \<and> contiguous fd (off + of_nat (length (concat (map snd ss)))) ts"
  by (induction ss arbitrary: off) (auto simp: add.assoc)

text \<open>A buffer in flight is queued or being written, exactly one of the two, and once.\<close>

definition flight_ok :: "'r logger \<Rightarrow> buf_ref list \<Rightarrow> bool" where
  "flight_ok lg out \<longleftrightarrow> distinct (lg_queue lg @ out) \<and>
     (\<forall>i b. (i, b) \<in> set (lg_queue lg @ out) \<longleftrightarrow> (\<exists>t. lg_threads lg i = Some t \<and> lb_in_flight (lt_buf t b)))"

definition log_inv :: "u64 \<Rightarrow> 'r logger \<Rightarrow> (nat \<Rightarrow> string) \<Rightarrow> buf_ref list \<Rightarrow> bool" where
  "log_inv off lg kept out \<longleftrightarrow> flight_ok lg out \<and>
     (\<forall>i t. lg_threads lg i = Some t \<longrightarrow> thread_shape t) \<and>
     0 \<le> sint (lg_fd lg) \<and> contiguous (lg_fd lg) off (lg_sqes lg) \<and>
     lg_offset lg = off + of_nat (length (concat (map snd (lg_sqes lg)))) \<and>
     (\<forall>i. kept i = submitted i (lg_sqes lg) @ queued i lg @ held i lg)"

lemma flight_okD:
  assumes "flight_ok lg out"
  shows "distinct (lg_queue lg)" "distinct out" "\<And>r. r \<in> set (lg_queue lg) \<Longrightarrow> r \<notin> set out"
    "\<And>i b. (i, b) \<in> set (lg_queue lg) \<or> (i, b) \<in> set out \<longleftrightarrow> (\<exists>t. lg_threads lg i = Some t \<and> lb_in_flight (lt_buf t b))"
  using assms by (auto simp: flight_ok_def)

lemma flight_other:
  assumes "flight_ok lg out" and "lg_threads lg i = Some t" and "thread_shape t"
    and "(i, b) \<in> set (lg_queue lg) \<or> (i, b) \<in> set out"
  shows "b = (\<not> lt_write t)"
proof -
  have "lb_in_flight (lt_buf t b)" using flight_okD(4) [OF assms(1), of i b] assms(2,4) by auto
  then show ?thesis using assms(3) by (cases "b = lt_write t") (auto simp: thread_shape_def front_def)
qed

text \<open>At most one buffer of a thread is queued.\<close>

lemma queued_other:
  assumes fl: "flight_ok lg out" and t: "lg_threads lg i = Some t" "thread_shape t"
  shows "queued i lg = (if (i, \<not> lt_write t) \<in> set (lg_queue lg) then lb_text (other t) else [])"
proof -
  have mem: "b = (\<not> lt_write t)" if "(i, b) \<in> set (lg_queue lg)" for b
    using flight_other [OF fl t] that by simp
  have "filter (\<lambda>r. fst r = i) (lg_queue lg) = filter (\<lambda>r. r = (i, \<not> lt_write t)) (lg_queue lg)"
  proof (rule filter_cong [OF refl])
    fix r assume r: "r \<in> set (lg_queue lg)"
    obtain j b where "r = (j, b)" by fastforce
    then show "fst r = i \<longleftrightarrow> r = (i, \<not> lt_write t)" using mem [of b] r by auto
  qed
  moreover have "filter (\<lambda>r. r = x) xs = (if x \<in> set xs then [x] else [])" if "distinct xs" for x and xs :: "buf_ref list"
    using that by (induction xs) (auto simp: filter_empty_conv)
  from this [OF flight_okD(1) [OF fl]] have "filter (\<lambda>r. r = x) (lg_queue lg) = (if x \<in> set (lg_queue lg) then [x] else [])" for x .
  ultimately show ?thesis using t(1) by (simp add: queued_def other_def)
qed

lemma queued_none:
  assumes "flight_ok lg out" and "lg_threads lg i = None"
  shows "queued i lg = []"
proof -
  have "(i, b) \<notin> set (lg_queue lg)" for b using flight_okD(4) [OF assms(1), of i b] assms(2) by auto
  then have "filter (\<lambda>r. fst r = i) (lg_queue lg) = []" by (auto simp: filter_empty_conv)
  then show ?thesis by (simp add: queued_def)
qed

section \<open>Every step keeps the invariant\<close>

lemma log_invD:
  assumes "log_inv off lg kept out"
  shows "flight_ok lg out" "\<And>i t. lg_threads lg i = Some t \<Longrightarrow> thread_shape t" "0 \<le> sint (lg_fd lg)"
    "contiguous (lg_fd lg) off (lg_sqes lg)" "lg_offset lg = off + of_nat (length (concat (map snd (lg_sqes lg))))"
    "\<And>i. kept i = submitted i (lg_sqes lg) @ queued i lg @ held i lg"
  using assms unfolding log_inv_def by blast+

lemma log_invI:
  assumes "flight_ok lg out" "\<And>i t. lg_threads lg i = Some t \<Longrightarrow> thread_shape t" "0 \<le> sint (lg_fd lg)"
    "contiguous (lg_fd lg) off (lg_sqes lg)" "lg_offset lg = off + of_nat (length (concat (map snd (lg_sqes lg))))"
    "\<And>i. kept i = submitted i (lg_sqes lg) @ queued i lg @ held i lg"
  shows "log_inv off lg kept out"
  using assms unfolding log_inv_def by blast

lemma queued_cong:
  assumes "lg_queue lg' = lg_queue lg" and "\<And>b. (i, b) \<in> set (lg_queue lg) \<Longrightarrow> lg_threads lg' i = lg_threads lg i"
  shows "queued i lg' = queued i lg"
proof -
  have "map (\<lambda>(j, b). lb_text (lt_buf (the (lg_threads lg' j)) b)) (filter (\<lambda>r. fst r = i) (lg_queue lg)) =
      map (\<lambda>(j, b). lb_text (lt_buf (the (lg_threads lg j)) b)) (filter (\<lambda>r. fst r = i) (lg_queue lg))"
    using assms(2) by (intro map_cong) auto
  then show ?thesis by (simp only: queued_def assms(1))
qed

lemma thread_shape_new: "thread_shape (log_thread_new born)"
  by (simp add: thread_shape_def log_thread_new_def front_def other_def)

lemma inv_thread_of: "log_inv off lg kept out \<Longrightarrow> thread_shape (thread_of i born lg)"
  using log_invD(2) thread_shape_new by (auto simp: thread_of_def split: option.split)

lemma held_thread_of: "held i lg = lb_text (front (thread_of i born lg))"
  by (simp add: held_def thread_of_def log_thread_new_def front_def split: option.split)

text \<open>Creating the thread state, and adding text to the front buffer.\<close>

lemma inv_stay:
  assumes inv: "log_inv off lg kept out" and sz: "length (lb_text (front (thread_of i born lg))) + length data \<le> buffer_size"
  shows "log_inv off (append_stay i data (thread_of i born lg) lg) (kept(i := kept i @ data)) out" (is "log_inv off ?lg _ _")
proof -
  let ?t = "thread_of i born lg" and ?t' = "put_buf (lt_write (thread_of i born lg))
    ((front (thread_of i born lg))\<lparr>lb_text := lb_text (front (thread_of i born lg)) @ data\<rparr>) (thread_of i born lg)"
  note I = log_invD [OF inv]
  have same: "lg_queue ?lg = lg_queue lg" "lg_sqes ?lg = lg_sqes lg" "lg_fd ?lg = lg_fd lg" "lg_offset ?lg = lg_offset lg"
      "lg_threads ?lg = (lg_threads lg)(i \<mapsto> ?t')"
    by (simp_all add: append_stay_def)
  have sh: "thread_shape ?t" by (rule inv_thread_of [OF inv])
  have t': "front ?t' = (front ?t)\<lparr>lb_text := lb_text (front ?t) @ data\<rparr>" "other ?t' = other ?t"
      "lb_in_flight (lt_buf ?t' b) = lb_in_flight (lt_buf ?t b)" for b
    by (simp_all add: put_buf_def front_def other_def)
  have fl: "lb_in_flight (lt_buf ?t b) \<Longrightarrow> lg_threads lg i = Some ?t" for b
    by (auto simp: thread_of_def log_thread_new_def split: option.splits)
  have flight: "flight_ok ?lg out"
    using flight_okD [OF I(1)] fl t'(3) unfolding flight_ok_def same by (auto simp: thread_of_def split: option.splits)
  have sh': "thread_shape ?t'" using sh sz t' by (simp add: thread_shape_def)
  have lw: "lt_write ?t' = lt_write ?t" by (simp add: put_buf_def)
  have qi: "queued i ?lg = (if (i, \<not> lt_write ?t) \<in> set (lg_queue lg) then lb_text (other ?t) else [])"
    using queued_other [OF flight _ sh', of i] unfolding same lw t'(2) by simp
  have q: "queued j ?lg = queued j lg" for j
  proof (cases "j = i")
    case True
    show ?thesis
    proof (cases "lg_threads lg i")
      case None
      then show ?thesis
        using True qi flight_okD(4) [OF I(1), of i "\<not> lt_write ?t"] queued_none [OF I(1) None]
        by auto
    next
      case (Some u)
      then have "?t = u" by (simp add: thread_of_def)
      then show ?thesis
        using True qi queued_other [OF I(1) Some] sh by simp
    qed
  next
    case False
    then show ?thesis by (intro queued_cong) (simp_all add: same)
  qed
  have h: "held j ?lg = (if j = i then held i lg @ data else held j lg)" for j
  proof (cases "j = i")
    case True
    have "held i ?lg = lb_text (front ?t) @ data" unfolding held_def same by (simp add: t'(1))
    then show ?thesis using True held_thread_of [of i lg born] by simp
  qed (simp add: held_def same)
  show ?thesis
    using I sh' flight q h by (intro log_invI) (auto simp: same split: if_splits)
qed

lemma inv_drop:
  assumes inv: "log_inv off lg kept out"
  shows "log_inv off (lg\<lparr>lg_threads := (lg_threads lg)(i \<mapsto> thread_of i born lg)\<rparr>) kept out"
proof -
  have "length (lb_text (front (thread_of i born lg))) + length [] \<le> buffer_size"
    using inv_thread_of [OF inv, of i born] by (simp add: thread_shape_def)
  from inv_stay [OF inv this] show ?thesis by (simp add: append_stay_def put_buf_def front_def)
qed

text \<open>Handing the front buffer over and going on in the other.\<close>

lemma inv_switch:
  assumes inv: "log_inv off lg kept out" and o: "\<not> lb_in_flight (other (thread_of i born lg))" and len: "length data \<le> buffer_size"
  shows "log_inv off (append_switch i data now (thread_of i born lg) lg) (kept(i := kept i @ data)) out" (is "log_inv off ?lg _ _")
proof -
  define t where "t = thread_of i born lg"
  define t' where "t' = \<lparr>lt_buf = (\<lambda>_. undefined)(lt_write t := (front t)\<lparr>lb_in_flight := True\<rparr>,
       (\<not> lt_write t) := (other t)\<lparr>lb_text := data\<rparr>), lt_write = \<not> lt_write t, lt_flush = now\<rparr>"
  note I = log_invD [OF inv]
  have same: "lg_queue ?lg = lg_queue lg @ [(i, lt_write t)]" "lg_sqes ?lg = lg_sqes lg" "lg_fd ?lg = lg_fd lg"
      "lg_offset ?lg = lg_offset lg" "lg_threads ?lg = (lg_threads lg)(i \<mapsto> t')"
    by (simp_all add: append_switch_def t_def t'_def)
  have sh: "thread_shape t" unfolding t_def by (rule inv_thread_of [OF inv])
  have o': "\<not> lb_in_flight (other t)" "lb_text (other t) = []" using o sh by (simp_all add: t_def thread_shape_def)
  have t': "front t' = (other t)\<lparr>lb_text := data\<rparr>" "other t' = (front t)\<lparr>lb_in_flight := True\<rparr>" "lt_write t' = (\<not> lt_write t)"
    by (simp_all add: t'_def front_def other_def)
  have sh': "thread_shape t'" using sh o' len by (simp add: thread_shape_def t')
  have no: "(i, b) \<notin> set (lg_queue lg)" "(i, b) \<notin> set out" for b
  proof -
    have "\<not> lb_in_flight (lt_buf t b)" using sh o'(1) by (cases "b = lt_write t") (auto simp: thread_shape_def front_def other_def)
    then show "(i, b) \<notin> set (lg_queue lg)" "(i, b) \<notin> set out"
      using flight_okD(4) [OF I(1), of i b] by (auto simp: t_def thread_of_def)
  qed
  have "lb_in_flight (lt_buf t' b) \<longleftrightarrow> b = lt_write t" for b
    using o'(1) by (cases "b = lt_write t") (auto simp: t'_def)
  then have "(j, c) \<in> set (lg_queue ?lg @ out) \<longleftrightarrow> (\<exists>u. lg_threads ?lg j = Some u \<and> lb_in_flight (lt_buf u c))" for j c
    using no flight_okD(4) [OF I(1), of j c] by (cases "j = i") (auto simp: same)
  moreover have "distinct (lg_queue ?lg @ out)" using flight_okD(1-3) [OF I(1)] no by (auto simp: same)
  ultimately have flight: "flight_ok ?lg out" unfolding flight_ok_def by blast
  have "queued i ?lg = lb_text (front t)"
    using queued_other [OF flight _ sh', of i] by (simp add: same t')
  moreover have "queued i lg = []" using no by (auto simp: queued_def filter_empty_conv)
  moreover have "held i lg = lb_text (front t)" by (simp add: held_thread_of [of i lg born] t_def)
  moreover have "queued j ?lg = queued j lg" if "j \<noteq> i" for j
  proof -
    have "queued j ?lg = queued j (lg\<lparr>lg_threads := (lg_threads lg)(i \<mapsto> t')\<rparr>)"
      using that by (simp add: queued_def same)
    also have "\<dots> = queued j lg" using that by (intro queued_cong) simp_all
    finally show ?thesis .
  qed
  moreover have "held j ?lg = (if j = i then data else held j lg)" for j
    using t' by (simp add: held_def same)
  ultimately show ?thesis
    using I(2-6) sh' flight by (intro log_invI) (auto simp: same split: if_splits)
qed

lemma inv_append:
  assumes inv: "log_inv off lg kept out" and len: "length data \<le> buffer_size"
    and step: "log_append i data born now lg = Some (ok, lg')"
  shows "log_inv off lg' (if ok then kept(i := kept i @ data) else kept) out"
  using log_append_outcome [OF inv_thread_of [OF inv, of i born] len, of now] step inv_stay [OF inv, of i born data]
    inv_switch [OF inv _ len, of i born now] inv_drop [OF inv, of i born] by auto

text \<open>The backend takes the head of the queue.\<close>

lemma submitted_append: "submitted i (ss @ ts) = submitted i ss @ submitted i ts"
  by (simp add: submitted_def)

lemma queued_Cons:
  "lg_queue lg = (j, b) # rs \<Longrightarrow> queued i lg = (if j = i then lb_text (lt_buf (the (lg_threads lg j)) b) else []) @ queued i (lg\<lparr>lg_queue := rs\<rparr>)"
  by (simp add: queued_def)

lemma inv_flush:
  assumes inv: "log_inv off lg kept out" and q: "lg_queue lg = r # rs"
    and step: "submit_buf api r (lg\<lparr>lg_queue := rs\<rparr>) = Some lg'"
  shows "log_inv off lg' kept (out @ [r])"
proof -
  note I = log_invD [OF inv]
  obtain j b where r: "r = (j, b)" by fastforce
  from step I(3) obtain t sqe ring where t: "lg_threads lg j = Some t"
    and lg': "lg' = lg\<lparr>lg_queue := rs, lg_ring := ring,
      lg_sqes := lg_sqes lg @ [(set_data (Tok r) (prep_write (lg_fd lg) (Some r) (of_nat (length (lb_text (lt_buf t b)))) (lg_offset lg) sqe),
        lb_text (lt_buf t b))],
      lg_offset := lg_offset lg + of_nat (length (lb_text (lt_buf t b))), lg_in_flight := lg_in_flight lg + 1\<rparr>"
    by (auto simp: submit_buf_def r Let_def split: option.splits prod.splits sum.splits)
  have same: "lg_threads lg' = lg_threads lg" "lg_queue lg' = rs" "lg_fd lg' = lg_fd lg" by (simp_all add: lg')
  have flight: "flight_ok lg' (out @ [r])"
    using I(1) unfolding flight_ok_def same q by auto
  have queued: "queued i lg' = queued i (lg\<lparr>lg_queue := rs\<rparr>)" "held i lg' = held i lg" for i
    by (simp_all add: queued_def held_def same)
  have "submitted i (lg_sqes lg') = submitted i (lg_sqes lg) @ (if j = i then lb_text (lt_buf t b) else [])" for i
    by (simp add: lg' submitted_append) (simp add: submitted_def set_data_def r)
  then have "kept i = submitted i (lg_sqes lg') @ queued i lg' @ held i lg'" for i
    using I(6) [of i] queued_Cons [of lg j b rs i] q t by (cases "j = i") (simp_all add: queued r)
  moreover have "contiguous (lg_fd lg') off (lg_sqes lg')"
    using I(4,5) by (simp add: lg' contiguous_append prep_write_def set_data_def)
  ultimately show ?thesis
    using I(2,3,5) flight by (intro log_invI) (auto simp: lg')
qed

text \<open>A write completes.\<close>

lemma inv_done:
  assumes inv: "log_inv off lg kept (out1 @ r # out2)" and c: "cqe_data c = Tok r"
    and step: "handle_cqe api (Some c) lg = Some lg'"
  shows "log_inv off lg' kept (out1 @ out2)"
proof -
  note I = log_invD [OF inv]
  obtain j b where r: "r = (j, b)" by fastforce
  from step c obtain t where t: "lg_threads lg j = Some t"
    and lg': "lg_threads lg' = (lg_threads lg)(j \<mapsto> put_buf b \<lparr>lb_text = [], lb_in_flight = False\<rparr> t)"
      "lg_queue lg' = lg_queue lg" "lg_fd lg' = lg_fd lg" "lg_offset lg' = lg_offset lg" "lg_sqes lg' = lg_sqes lg"
    by (auto simp: handle_cqe_def buf_done_def cqe_get_data_def r split: option.splits)
  have sh: "thread_shape t" using I(2) t by simp
  have b: "b = (\<not> lt_write t)" by (rule flight_other [OF I(1) t sh]) (simp add: r)
  let ?t = "put_buf b \<lparr>lb_text = [], lb_in_flight = False\<rparr> t"
  have t': "front ?t = front t" "other ?t = \<lparr>lb_text = [], lb_in_flight = False\<rparr>" "lt_write ?t = lt_write t"
    by (simp_all add: b put_buf_def front_def other_def)
  have sh': "thread_shape ?t" using sh unfolding thread_shape_def t' by simp
  have nq: "(j, c) \<notin> set (lg_queue lg)" for c
    using flight_other [OF I(1) t sh, of c] flight_okD(3) [OF I(1), of "(j, c)"] b by (auto simp: r)
  have "(i, c) \<in> set (lg_queue lg' @ out1 @ out2) \<longleftrightarrow> (\<exists>u. lg_threads lg' i = Some u \<and> lb_in_flight (lt_buf u c))" for i c
    using flight_okD(4) [OF I(1), of i c] flight_okD(2) [OF I(1)] nq t
    by (cases "i = j"; cases "c = b") (auto simp: lg' r put_buf_def)
  moreover have "distinct (lg_queue lg' @ out1 @ out2)" using flight_okD(1-3) [OF I(1)] by (auto simp: lg')
  ultimately have flight: "flight_ok lg' (out1 @ out2)" unfolding flight_ok_def by blast
  have "queued i lg' = queued i lg" for i using nq by (intro queued_cong) (auto simp: lg')
  moreover have "held i lg' = held i lg" for i using t t' by (simp add: held_def lg')
  ultimately show ?thesis
    using I(2-6) sh' flight by (intro log_invI) (auto simp: lg' split: if_splits)
qed

lemma log_reach_inv: "log_reach api off lg kept out \<Longrightarrow> log_inv off lg kept out"
proof (induction rule: log_reach.induct)
  case (log_open lg fd lg')
  then show ?case
    by (intro log_invI) (auto simp: logger_new_def switch_log_file_date_def flight_ok_def queued_def submitted_def held_def split: sum.splits if_splits)
next
  case (log_text lg kept out data i born now ok lg')
  from log_text(2) have "length data \<le> buffer_size" by (simp add: line_size_def buffer_size_def)
  then show ?case using inv_append log_text by blast
next
  case (log_flush lg kept out r rs lg')
  then show ?case using inv_flush by blast
next
  case (log_done lg kept out1 r out2 c lg')
  then show ?case using inv_done by blast
qed

definition sample_log_api :: "(unit, unit) log_api" where
  "sample_log_api = \<lparr>u_queue_init = (\<lambda>_ _. (0, ())), u_queue_init_params = (\<lambda>_ _. (0, ())),
     u_get_sqe = (\<lambda>_. (True, ())), u_wait_cqe = (\<lambda>_. (0, None, ())), u_peek_cqe = (\<lambda>_. (0, None, ())),
     u_peek_batch_cqe = (\<lambda>_ _. (0, [], ())), u_submit = (\<lambda>_. (0, ())), u_submit_and_wait = (\<lambda>_ _. (0, ())),
     u_register_files = (\<lambda>_ _. (0, ())), u_cqe_seen = (\<lambda>_ _. ()), u_cq_advance = (\<lambda>_ _. ()),
     u_ring_fd = (\<lambda>_. 3)\<rparr>"

text \<open>
  C9: the log file. In every run, whatever the interleaving of the threads and the backend, the writes submitted are
  laid one after the other from the place where the file ended, without gap or overlap; everything \<^verbatim>\<open>append\<close> accepted
  from a thread is, in order, what was submitted for the thread, then what is queued, then what its front buffer
  holds, so no text is lost, doubled or reordered; and no buffer is queued or written twice at once.
\<close>

theorem log_file_order:
  assumes "log_reach api off lg kept out"
  shows "contiguous (lg_fd lg) off (lg_sqes lg) \<and> lg_offset lg = off + of_nat (length (concat (map snd (lg_sqes lg)))) \<and>
    (\<forall>i. kept i = submitted i (lg_sqes lg) @ queued i lg @ held i lg) \<and> distinct (lg_queue lg @ out)"
  using log_invD [OF log_reach_inv [OF assms]] by (auto simp: flight_ok_def)

definition sample_logger :: "unit logger" where
  "sample_logger = \<lparr>lg_level = DEBUG, lg_threads = \<lambda>_. None, lg_queue = [], lg_sem = 0, lg_today = [], lg_fd = 5,
     lg_offset = 100, lg_in_flight = 0, lg_ring = \<lparr>ir_ring = (), ir_queue_depth = 64\<rparr>, lg_sqes = []\<rparr>"

lemma sample_logger_reach: "log_reach sample_log_api 100 sample_logger (\<lambda>_. []) []"
  by (rule log_open [of _ "sample_logger\<lparr>lg_fd := - 1, lg_offset := 0\<rparr>" 5])
    (simp_all add: logger_new_def io_ring_flags_def check_ret_def sample_log_api_def sample_logger_def switch_log_file_date_def)

lemmas log_eval = log_append_def append_kept_def lb_append_def log_thread_new_def put_buf_def set_flight_def queue_put_def
  submit_buf_def get_sqe_def buffer_size_def flush_queue_capacity_def line_size_def Let_def sample_log_api_def sample_logger_def

theorem log_file_order_witness:
  "\<exists>lg kept. log_reach sample_log_api 100 lg kept [(7, False)] \<and> contiguous 5 100 (lg_sqes lg) \<and> lg_offset lg = 102 \<and>
     kept 7 = ''abc'' \<and> submitted 7 (lg_sqes lg) = ''ab'' \<and> held 7 lg = ''c''"
proof -
  define lg1 where "lg1 = snd (the (log_append 7 ''ab'' 0 0 sample_logger))"
  define lg2 where "lg2 = snd (the (log_append 7 ''c'' 0 2000000000 lg1))"
  define lg3 where "lg3 = the (submit_buf sample_log_api (7, False) (lg2\<lparr>lg_queue := []\<rparr>))"
  have "log_append 7 ''ab'' 0 0 sample_logger = Some (True, lg1)" by (simp add: lg1_def log_eval)
  from log_text [OF sample_logger_reach _ this] have r1: "log_reach sample_log_api 100 lg1 ((\<lambda>_. [])(7 := ''ab'')) []"
    by (simp add: line_size_def)
  have "log_append 7 ''c'' 0 2000000000 lg1 = Some (True, lg2)" by (simp add: lg2_def lg1_def log_eval)
  from log_text [OF r1 _ this] have r2: "log_reach sample_log_api 100 lg2 ((\<lambda>_. [])(7 := ''abc'')) []"
    by (simp add: line_size_def)
  have "lg_queue lg2 = [(7, False)]" by (simp add: lg2_def lg1_def log_eval)
  moreover have "submit_buf sample_log_api (7, False) (lg2\<lparr>lg_queue := []\<rparr>) = Some lg3"
    by (simp add: lg3_def lg2_def lg1_def log_eval)
  ultimately have r3: "log_reach sample_log_api 100 lg3 ((\<lambda>_. [])(7 := ''abc'')) [(7, False)]"
    using log_flush [OF r2] by fastforce
  have "lg_fd lg3 = 5" "map snd (lg_sqes lg3) = [''ab'']" "held 7 lg3 = ''c''" "submitted 7 (lg_sqes lg3) = ''ab''"
    by (simp_all add: lg3_def lg2_def lg1_def log_eval held_def front_def submitted_def set_data_def exI [of Not False])
  then show ?thesis using r3 log_file_order [OF r3] by (intro exI [of _ lg3] exI [of _ "(\<lambda>_. [])(7 := ''abc'')"]) simp
qed

text \<open>
  C23: \<^verbatim>\<open>append\<close>. On a logger that any run reached, a line never overruns a buffer; it is dropped exactly when the
  front buffer has no room for it and either the other buffer is still in flight or the flush queue is full; and
  dropping it changes nothing that is queued or held.
\<close>

theorem log_append_drops:
  assumes reach: "log_reach api off lg kept out" and len: "length data \<le> line_size"
  shows "\<exists>ok lg'. log_append i data born now lg = Some (ok, lg') \<and>
    (\<not> ok \<longleftrightarrow> buffer_size < length (held i lg) + length data \<and>
       (lb_in_flight (other (thread_of i born lg)) \<or> flush_queue_capacity \<le> length (lg_queue lg))) \<and>
    (\<not> ok \<longrightarrow> lg_queue lg' = lg_queue lg \<and> (\<forall>j. held j lg' = held j lg \<and> queued j lg' = queued j lg))"
proof -
  have inv: "log_inv off lg kept out" by (rule log_reach_inv [OF reach])
  have len': "length data \<le> buffer_size" using len by (simp add: line_size_def buffer_size_def)
  let ?lg = "lg\<lparr>lg_threads := (lg_threads lg)(i \<mapsto> thread_of i born lg)\<rparr>"
  have h: "held j ?lg = held j lg" for j using held_thread_of [of i lg born] by (simp add: held_def)
  have "queued j ?lg = queued j lg" for j
    using log_invD(6) [OF inv_drop [OF inv, of i born], of j] log_invD(6) [OF inv, of j] h [of j] by simp
  with h show ?thesis
    using log_append_outcome [OF inv_thread_of [OF inv, of i born] len', of now] held_thread_of [of i lg born]
    by (elim disjE conjE) (intro exI conjI, assumption, auto)+
qed

theorem log_append_drops_witness:
  "\<exists>ok lg'. log_append 7 ''ab'' 0 0 sample_logger = Some (ok, lg') \<and> ok"
  using log_append_drops [OF sample_logger_reach, of "''ab''" 7 0 0]
  by (auto simp: line_size_def held_def sample_logger_def buffer_size_def)



section \<open>The end of a thread\<close>

text \<open>
  C25: text lost at the end of a thread. If the thread's other buffer is still in flight when \<^verbatim>\<open>~ThreadFlushGuard\<close> runs, its
  front buffer is not handed over; once that write completes the state is deleted, with the text the front buffer
  held neither submitted nor queued.
\<close>

theorem thread_exit_loses:
  assumes t: "lg_threads lg i = Some t" and fl: "lb_in_flight (other t)" "\<not> lb_in_flight (front t)"
    and c: "cqe_data c = Tok (i, \<not> lt_write t)"
  shows "\<exists>lg' lg''. handle_cqe api (Some c) (thread_exit_flush i lg) = Some lg' \<and> thread_exit_done i lg' = Some lg'' \<and>
    lg_threads lg'' i = None \<and> lg_queue lg'' = lg_queue lg \<and> lg_sqes lg'' = lg_sqes lg"
proof -
  have "thread_exit_flush i lg = lg" using t fl by (simp add: thread_exit_flush_def other_def)
  moreover have "handle_cqe api (Some c) lg = Some (lg\<lparr>lg_threads := (lg_threads lg)(i \<mapsto>
      put_buf (\<not> lt_write t) \<lparr>lb_text = [], lb_in_flight = False\<rparr> t), lg_ring := cqe_seen api (Some c) (lg_ring lg),
      lg_in_flight := lg_in_flight lg - 1\<rparr>)"
    using t c by (simp add: handle_cqe_def buf_done_def cqe_get_data_def)
  ultimately show ?thesis
    using fl(2) by (cases "lt_write t") (simp_all add: thread_exit_done_def put_buf_def front_def)
qed

theorem thread_exit_loses_witness:
  "\<exists>lg lg' lg''. held 7 lg = ''c'' \<and>
     handle_cqe sample_log_api (Some \<lparr>cqe_res = 2, cqe_flags = 0, cqe_data = Tok (7, False)\<rparr>) (thread_exit_flush 7 lg) = Some lg' \<and>
     thread_exit_done 7 lg' = Some lg'' \<and> lg_queue lg'' = [] \<and> lg_sqes lg'' = []"
proof -
  define t where "t = \<lparr>lt_buf = (\<lambda>b. if b then \<lparr>lb_text = ''c'', lb_in_flight = False\<rparr> else \<lparr>lb_text = ''ab'', lb_in_flight = True\<rparr>),
    lt_write = True, lt_flush = 0\<rparr>"
  define lg where "lg = sample_logger\<lparr>lg_threads := [7 \<mapsto> t]\<rparr>"
  have "held 7 lg = ''c''" by (simp add: lg_def held_def t_def front_def)
  moreover have "\<exists>lg' lg''. handle_cqe sample_log_api (Some \<lparr>cqe_res = 2, cqe_flags = 0, cqe_data = Tok (7, False)\<rparr>)
      (thread_exit_flush 7 lg) = Some lg' \<and> thread_exit_done 7 lg' = Some lg'' \<and> lg_threads lg'' 7 = None \<and>
      lg_queue lg'' = lg_queue lg \<and> lg_sqes lg'' = lg_sqes lg"
    by (rule thread_exit_loses [of lg 7 t]) (simp_all add: lg_def t_def other_def front_def)
  ultimately show ?thesis by (auto simp: lg_def sample_logger_def)
qed

end
