(* ===== verification/Mpsc_Queue.thy ===== *)
theory Mpsc_Queue
  imports Prelude "HOL-Library.Sublist"
begin

text \<open>
  \<^verbatim>\<open>MPSCQueue\<close> (\<^verbatim>\<open>include/util/mpsc_queue.hpp\<close>): the bounded queue between the logging threads and the log
  writer. Each atomic access of \<^verbatim>\<open>enqueue\<close> and \<^verbatim>\<open>dequeue\<close> is one step, and the steps of any number of producers
  and of the consumer interleave freely. Positions are natural numbers: a \<^verbatim>\<open>size_t\<close> wraps only after \<open>2 ^ 64\<close>
  enqueues. The memory model is sequential consistency; the release/acquire pairs of the code order exactly the
  accesses to \<^verbatim>\<open>sequence\<close> and \<^verbatim>\<open>data\<close> of a slot that the proof relies on.
\<close>

section \<open>State and operations\<close>

record 'a mpsc =
  q_head :: nat
  q_tail :: nat
  q_seq :: "nat list"
  q_data :: "'a list"

definition q_slot :: "nat \<Rightarrow> nat \<Rightarrow> nat" where
  "q_slot capacity pos = pos AND (capacity - 1)"

text \<open>The constructor; \<open>mem\<close> is the uninitialised data.\<close>

definition mpsc_new :: "nat \<Rightarrow> 'a list \<Rightarrow> 'a mpsc" where
  "mpsc_new capacity mem = \<lparr>q_head = 0, q_tail = 0, q_seq = [0..<capacity], q_data = mem\<rparr>"

text \<open>Where a producer stands inside \<^verbatim>\<open>enqueue\<close>; \<open>P_Ret\<close> has left it with that result.\<close>

datatype 'a producer =
    P_Ret bool
  | P_Start 'a
  | P_Pos 'a nat
  | P_Cas 'a nat
  | P_Write 'a nat
  | P_Store 'a nat

text \<open>One atomic step; \<open>spurious\<close> is the failure \<^verbatim>\<open>compare_exchange_weak\<close> may report for no reason.\<close>

fun enq_step :: "nat \<Rightarrow> bool \<Rightarrow> 'a producer \<Rightarrow> 'a mpsc \<Rightarrow> 'a producer \<times> 'a mpsc" where
  "enq_step capacity spurious (P_Ret ok) q = (P_Ret ok, q)"
| "enq_step capacity spurious (P_Start item) q = (P_Pos item (q_tail q), q)"
| "enq_step capacity spurious (P_Pos item pos) q =
     (let diff = int (q_seq q ! q_slot capacity pos) - int pos in
      if diff = 0 then (P_Cas item pos, q)
      else if diff < 0 then (P_Ret False, q)
      else (P_Start item, q))"
| "enq_step capacity spurious (P_Cas item pos) q =
     (if q_tail q = pos \<and> \<not> spurious then (P_Write item pos, q\<lparr>q_tail := pos + 1\<rparr>) else (P_Start item, q))"
| "enq_step capacity spurious (P_Write item pos) q =
     (P_Store item pos, q\<lparr>q_data := (q_data q)[q_slot capacity pos := item]\<rparr>)"
| "enq_step capacity spurious (P_Store item pos) q =
     (P_Ret True, q\<lparr>q_seq := (q_seq q)[q_slot capacity pos := pos + 1]\<rparr>)"

text \<open>Where the consumer stands inside \<^verbatim>\<open>dequeue\<close>.\<close>

datatype 'a consumer = C_Ret "'a option" | C_Start | C_Read | C_Store 'a

text \<open>\<^verbatim>\<open>head_\<close> belongs to the consumer alone, so its increment goes with the store before it.\<close>

fun deq_step :: "nat \<Rightarrow> 'a consumer \<Rightarrow> 'a mpsc \<Rightarrow> 'a consumer \<times> 'a mpsc" where
  "deq_step capacity (C_Ret r) q = (C_Ret r, q)"
| "deq_step capacity C_Start q =
     (if int (q_seq q ! q_slot capacity (q_head q)) - int (q_head q + 1) = 0 then (C_Read, q) else (C_Ret None, q))"
| "deq_step capacity C_Read q = (C_Store (q_data q ! q_slot capacity (q_head q)), q)"
| "deq_step capacity (C_Store item) q =
     (C_Ret (Some item), q\<lparr>q_seq := (q_seq q)[q_slot capacity (q_head q) := q_head q + capacity], q_head := q_head q + 1\<rparr>)"

section \<open>All interleavings\<close>

text \<open>
  \<open>claimed\<close> lists the items in the order their producers advanced \<^verbatim>\<open>tail_\<close>, \<open>got\<close> those \<^verbatim>\<open>dequeue\<close> has returned.
\<close>

record 'a mpsc_run =
  mr_q :: "'a mpsc"
  mr_prod :: "nat \<Rightarrow> 'a producer"
  mr_cons :: "'a consumer"
  mr_claimed :: "'a list"
  mr_got :: "'a list"

definition claims :: "'a producer \<Rightarrow> 'a producer \<Rightarrow> 'a list" where
  "claims p p' = (case (p, p') of (P_Cas item _, P_Write _ _) \<Rightarrow> [item] | _ \<Rightarrow> [])"

definition gets :: "'a consumer \<Rightarrow> 'a consumer \<Rightarrow> 'a list" where
  "gets c c' = (case (c, c') of (C_Store _, C_Ret (Some item)) \<Rightarrow> [item] | _ \<Rightarrow> [])"

inductive mpsc_reach :: "nat \<Rightarrow> 'a list \<Rightarrow> 'a mpsc_run \<Rightarrow> bool" for capacity mem where
  start: "mpsc_reach capacity mem
    \<lparr>mr_q = mpsc_new capacity mem, mr_prod = \<lambda>_. P_Ret False, mr_cons = C_Ret None, mr_claimed = [], mr_got = []\<rparr>"
| enq_call: "mpsc_reach capacity mem s \<Longrightarrow> mr_prod s i = P_Ret ok \<Longrightarrow>
    mpsc_reach capacity mem (s\<lparr>mr_prod := (mr_prod s)(i := P_Start item)\<rparr>)"
| enq_run: "mpsc_reach capacity mem s \<Longrightarrow> enq_step capacity spurious (mr_prod s i) (mr_q s) = (p', q') \<Longrightarrow>
    mpsc_reach capacity mem (s\<lparr>mr_q := q', mr_prod := (mr_prod s)(i := p'),
      mr_claimed := mr_claimed s @ claims (mr_prod s i) p'\<rparr>)"
| deq_call: "mpsc_reach capacity mem s \<Longrightarrow> mr_cons s = C_Ret r \<Longrightarrow> mpsc_reach capacity mem (s\<lparr>mr_cons := C_Start\<rparr>)"
| deq_run: "mpsc_reach capacity mem s \<Longrightarrow> deq_step capacity (mr_cons s) (mr_q s) = (c', q') \<Longrightarrow>
    mpsc_reach capacity mem (s\<lparr>mr_q := q', mr_cons := c', mr_got := mr_got s @ gets (mr_cons s) c'\<rparr>)"

section \<open>Invariant\<close>

text \<open>The position a producer has taken and not yet published.\<close>

definition holds_pos :: "'a producer \<Rightarrow> nat \<Rightarrow> bool" where
  "holds_pos p pos = (case p of P_Write _ n \<Rightarrow> n = pos | P_Store _ n \<Rightarrow> n = pos | _ \<Rightarrow> False)"

definition cap_ok :: "nat \<Rightarrow> bool" where
  "cap_ok capacity \<longleftrightarrow> (\<exists>k. capacity = 2 ^ k \<and> 0 < k)"

text \<open>What the producers know.\<close>

definition prod_ok :: "nat \<Rightarrow> 'a mpsc \<Rightarrow> 'a list \<Rightarrow> 'a producer \<Rightarrow> bool" where
  "prod_ok capacity q claimed p = (case p of
     P_Ret _ \<Rightarrow> True
   | P_Start _ \<Rightarrow> True
   | P_Pos _ pos \<Rightarrow> pos \<le> q_tail q
   | P_Cas _ pos \<Rightarrow> pos \<le> q_tail q \<and> (pos = q_tail q \<longrightarrow> pos < q_head q + capacity)
   | P_Write item pos \<Rightarrow> q_head q \<le> pos \<and> pos < q_tail q \<and> claimed ! pos = item
   | P_Store item pos \<Rightarrow> q_head q \<le> pos \<and> pos < q_tail q \<and> claimed ! pos = item \<and> q_data q ! (pos mod capacity) = item)"

text \<open>A taken position: still with its producer, or published with its item.\<close>

definition slot_ok :: "nat \<Rightarrow> 'a mpsc_run \<Rightarrow> nat \<Rightarrow> bool" where
  "slot_ok capacity s pos \<longleftrightarrow>
     (if \<exists>i. holds_pos (mr_prod s i) pos then q_seq (mr_q s) ! (pos mod capacity) = pos
      else q_seq (mr_q s) ! (pos mod capacity) = pos + 1 \<and> q_data (mr_q s) ! (pos mod capacity) = mr_claimed s ! pos)"

definition cons_ok :: "nat \<Rightarrow> 'a mpsc_run \<Rightarrow> bool" where
  "cons_ok capacity s = (case mr_cons s of
     C_Ret _ \<Rightarrow> True
   | C_Start \<Rightarrow> True
   | C_Read \<Rightarrow> q_head (mr_q s) < q_tail (mr_q s) \<and> (\<forall>i. \<not> holds_pos (mr_prod s i) (q_head (mr_q s)))
   | C_Store item \<Rightarrow> q_head (mr_q s) < q_tail (mr_q s) \<and> (\<forall>i. \<not> holds_pos (mr_prod s i) (q_head (mr_q s))) \<and>
       mr_claimed s ! q_head (mr_q s) = item)"

definition mpsc_inv :: "nat \<Rightarrow> 'a mpsc_run \<Rightarrow> bool" where
  "mpsc_inv capacity s \<longleftrightarrow> (let q = mr_q s in
     length (q_seq q) = capacity \<and> length (q_data q) = capacity \<and>
     length (mr_claimed s) = q_tail q \<and> q_head q \<le> q_tail q \<and> q_tail q \<le> q_head q + capacity \<and>
     mr_got s = take (q_head q) (mr_claimed s) \<and>
     (\<forall>i. prod_ok capacity q (mr_claimed s) (mr_prod s i)) \<and>
     (\<forall>i j pos. holds_pos (mr_prod s i) pos \<longrightarrow> holds_pos (mr_prod s j) pos \<longrightarrow> i = j) \<and>
     (\<forall>pos. q_head q \<le> pos \<longrightarrow> pos < q_tail q \<longrightarrow> slot_ok capacity s pos) \<and>
     (\<forall>pos. q_tail q \<le> pos \<longrightarrow> pos < q_head q + capacity \<longrightarrow> q_seq q ! (pos mod capacity) = pos) \<and>
     cons_ok capacity s)"

lemma q_slot_mod:
  assumes "cap_ok capacity"
  shows "q_slot capacity pos = pos mod capacity"
proof -
  obtain k where k: "capacity = 2 ^ k" using assms by (auto simp: cap_ok_def)
  have "pos AND mask k = pos mod 2 ^ k" by (simp only: take_bit_eq_mask [symmetric] take_bit_eq_mod)
  then show ?thesis by (simp only: q_slot_def k mask_eq_exp_minus_1)
qed

lemma cap_ok_ge2: "cap_ok capacity \<Longrightarrow> 2 \<le> capacity"
  by (auto simp: cap_ok_def) (metis one_le_numeral power_increasing power_one_right Suc_leI One_nat_def)

lemma window_inj_less:
  fixes x :: nat
  assumes "x < y" and "y < x + n"
  shows "x mod n \<noteq> y mod n"
proof
  assume "x mod n = y mod n"
  then have "n dvd y - x" using assms(1) mod_eq_dvd_iff_nat [of x y n] by simp
  then show False using assms by (auto dest: dvd_imp_le)
qed

text \<open>Two positions within one capacity of each other use different slots.\<close>

lemma window_inj:
  fixes a :: nat
  assumes "a \<le> p" "p < a + n" "a \<le> p'" "p' < a + n" "p \<noteq> p'"
  shows "p mod n \<noteq> p' mod n"
  using assms window_inj_less [of p p' n] window_inj_less [of p' p n] by (cases "p < p'") auto

lemma inv_quiet:
  assumes "mpsc_inv capacity s" and "\<And>pos. \<not> holds_pos (mr_prod s i) pos" and "\<And>pos. \<not> holds_pos p' pos"
    and "prod_ok capacity (mr_q s) (mr_claimed s) p'"
  shows "mpsc_inv capacity (s\<lparr>mr_prod := (mr_prod s)(i := p')\<rparr>)"
proof -
  let ?s = "s\<lparr>mr_prod := (mr_prod s)(i := p')\<rparr>"
  have h: "holds_pos (mr_prod ?s j) pos \<longleftrightarrow> holds_pos (mr_prod s j) pos" for j pos
    using assms(2,3) by simp
  have "slot_ok capacity ?s = slot_ok capacity s" using h by (simp add: slot_ok_def fun_eq_iff)
  moreover have "cons_ok capacity ?s = cons_ok capacity s"
    using h by (simp add: cons_ok_def split: consumer.split)
  ultimately show ?thesis using assms(1,4) h by (simp add: mpsc_inv_def Let_def)
qed

text \<open>The accessors of the invariant.\<close>

lemma mpsc_invD:
  assumes "mpsc_inv capacity s"
  shows "length (q_seq (mr_q s)) = capacity" "length (q_data (mr_q s)) = capacity"
    "length (mr_claimed s) = q_tail (mr_q s)" "q_head (mr_q s) \<le> q_tail (mr_q s)"
    "q_tail (mr_q s) \<le> q_head (mr_q s) + capacity" "mr_got s = take (q_head (mr_q s)) (mr_claimed s)"
    "\<And>i. prod_ok capacity (mr_q s) (mr_claimed s) (mr_prod s i)"
    "\<And>i j pos. holds_pos (mr_prod s i) pos \<Longrightarrow> holds_pos (mr_prod s j) pos \<Longrightarrow> i = j"
    "\<And>pos. q_head (mr_q s) \<le> pos \<Longrightarrow> pos < q_tail (mr_q s) \<Longrightarrow> slot_ok capacity s pos"
    "\<And>pos. q_tail (mr_q s) \<le> pos \<Longrightarrow> pos < q_head (mr_q s) + capacity \<Longrightarrow> q_seq (mr_q s) ! (pos mod capacity) = pos"
    "cons_ok capacity s"
  using assms by (auto simp: mpsc_inv_def Let_def)

lemma mpsc_invI:
  assumes "length (q_seq (mr_q s)) = capacity" "length (q_data (mr_q s)) = capacity"
    "length (mr_claimed s) = q_tail (mr_q s)" "q_head (mr_q s) \<le> q_tail (mr_q s)"
    "q_tail (mr_q s) \<le> q_head (mr_q s) + capacity" "mr_got s = take (q_head (mr_q s)) (mr_claimed s)"
    "\<And>i. prod_ok capacity (mr_q s) (mr_claimed s) (mr_prod s i)"
    "\<And>i j pos. holds_pos (mr_prod s i) pos \<Longrightarrow> holds_pos (mr_prod s j) pos \<Longrightarrow> i = j"
    "\<And>pos. q_head (mr_q s) \<le> pos \<Longrightarrow> pos < q_tail (mr_q s) \<Longrightarrow> slot_ok capacity s pos"
    "\<And>pos. q_tail (mr_q s) \<le> pos \<Longrightarrow> pos < q_head (mr_q s) + capacity \<Longrightarrow> q_seq (mr_q s) ! (pos mod capacity) = pos"
    "cons_ok capacity s"
  shows "mpsc_inv capacity s"
  unfolding mpsc_inv_def Let_def using assms by blast

lemma holds_range:
  assumes "mpsc_inv capacity s" and "holds_pos (mr_prod s i) pos"
  shows "q_head (mr_q s) \<le> pos" and "pos < q_tail (mr_q s)" and "pos < q_head (mr_q s) + capacity"
  using mpsc_invD(5,7) [OF assms(1)] assms(2)
  by (fastforce simp: holds_pos_def prod_ok_def split: producer.splits)+

section \<open>Every step keeps the invariant\<close>

lemma inv_claim:
  assumes inv: "mpsc_inv capacity s" and p: "mr_prod s i = P_Cas item pos" and t: "q_tail (mr_q s) = pos"
  shows "mpsc_inv capacity (s\<lparr>mr_q := (mr_q s)\<lparr>q_tail := pos + 1\<rparr>, mr_prod := (mr_prod s)(i := P_Write item pos),
    mr_claimed := mr_claimed s @ [item]\<rparr>)" (is "mpsc_inv capacity ?s")
proof -
  note I = mpsc_invD [OF inv]
  have lt: "pos < q_head (mr_q s) + capacity" using I(7) [of i] p t by (simp add: prod_ok_def)
  have no: "\<not> holds_pos (mr_prod s j) pos" for j using holds_range(2) [OF inv, of j pos] t by auto
  have h: "holds_pos (mr_prod ?s j) n \<longleftrightarrow> holds_pos (mr_prod s j) n \<or> j = i \<and> n = pos" for j n
    using p by (auto simp: holds_pos_def)
  have old: "slot_ok capacity ?s n" if "q_head (mr_q s) \<le> n" "n < pos" for n
  proof -
    have "(\<exists>j. holds_pos (mr_prod ?s j) n) \<longleftrightarrow> (\<exists>j. holds_pos (mr_prod s j) n)" using h that(2) by auto
    then show ?thesis using I(3) I(9) [OF that(1)] that(2) t by (simp add: slot_ok_def nth_append)
  qed
  have new: "slot_ok capacity ?s pos" using I(10) [of pos] t lt h by (auto simp: slot_ok_def)
  have prods: "prod_ok capacity (mr_q ?s) (mr_claimed ?s) (mr_prod ?s j)" for j
    using I(7) [of j] I(3,4) t lt
    by (auto simp: prod_ok_def nth_append split: producer.splits)
  show ?thesis
  proof (rule mpsc_invI)
    show "slot_ok capacity ?s n" if "q_head (mr_q ?s) \<le> n" "n < q_tail (mr_q ?s)" for n
      using that old [of n] new by (cases "n = pos") simp_all
    show "j = k" if "holds_pos (mr_prod ?s j) n" "holds_pos (mr_prod ?s k) n" for j k n
      using that I(8) no unfolding h by blast
    show "cons_ok capacity ?s"
      using I(11) I(3) t h by (auto simp: cons_ok_def nth_append split: consumer.splits)
    show "q_seq (mr_q ?s) ! (n mod capacity) = n" if "q_tail (mr_q ?s) \<le> n" "n < q_head (mr_q ?s) + capacity" for n
      using that I(10) [of n] t by simp
  qed (use I(1-6) t lt prods in simp_all)
qed

lemma inv_write:
  assumes inv: "mpsc_inv capacity s" and p: "mr_prod s i = P_Write item pos"
  shows "mpsc_inv capacity (s\<lparr>mr_q := (mr_q s)\<lparr>q_data := (q_data (mr_q s))[pos mod capacity := item]\<rparr>,
    mr_prod := (mr_prod s)(i := P_Store item pos)\<rparr>)" (is "mpsc_inv capacity ?s")
proof -
  note I = mpsc_invD [OF inv]
  have pos: "holds_pos (mr_prod s i) pos" using p by (simp add: holds_pos_def)
  note r = holds_range [OF inv pos]
  have h: "holds_pos (mr_prod ?s j) n \<longleftrightarrow> holds_pos (mr_prod s j) n" for j n
    using p by (auto simp: holds_pos_def)
  have other: "pos mod capacity \<noteq> n mod capacity" if "q_head (mr_q s) \<le> n" "n < q_tail (mr_q s)" "n \<noteq> pos" for n
    using that r I(5) by (intro window_inj [of "q_head (mr_q s)"]) auto
  have slots: "slot_ok capacity ?s n" if "q_head (mr_q s) \<le> n" "n < q_tail (mr_q s)" for n
  proof (cases "n = pos")
    case True
    then show ?thesis using I(9) [OF that] pos h by (auto simp: slot_ok_def)
  next
    case False
    then show ?thesis using I(9) [OF that] other [OF that] h by (auto simp: slot_ok_def)
  qed
  have lt: "pos mod capacity < length (q_data (mr_q s))" using I(2) r by (simp add: mod_less_divisor)
  have prods: "prod_ok capacity (mr_q ?s) (mr_claimed ?s) (mr_prod ?s j)" for j
  proof (cases "j = i")
    case True
    then show ?thesis using I(7) [of i] p lt by (simp add: prod_ok_def)
  next
    case False
    then have "\<not> holds_pos (mr_prod s j) pos" using I(8) pos by blast
    then show ?thesis using I(7) [of j] False other by (auto simp: prod_ok_def holds_pos_def split: producer.splits)
  qed
  have "cons_ok capacity ?s" using I(11) h by (auto simp: cons_ok_def split: consumer.splits)
  then show ?thesis using slots prods h I(8) by (intro mpsc_invI) (use I(1-6,10) in simp_all)
qed

lemma inv_publish:
  assumes inv: "mpsc_inv capacity s" and p: "mr_prod s i = P_Store item pos"
  shows "mpsc_inv capacity (s\<lparr>mr_q := (mr_q s)\<lparr>q_seq := (q_seq (mr_q s))[pos mod capacity := pos + 1]\<rparr>,
    mr_prod := (mr_prod s)(i := P_Ret True)\<rparr>)" (is "mpsc_inv capacity ?s")
proof -
  note I = mpsc_invD [OF inv]
  have pos: "holds_pos (mr_prod s i) pos" using p by (simp add: holds_pos_def)
  note r = holds_range [OF inv pos]
  have h: "holds_pos (mr_prod ?s j) n \<longleftrightarrow> holds_pos (mr_prod s j) n \<and> j \<noteq> i" for j n by (simp add: holds_pos_def)
  have only: "holds_pos (mr_prod s i) n \<longleftrightarrow> n = pos" for n using p by (auto simp: holds_pos_def)
  have other: "pos mod capacity \<noteq> n mod capacity" if "q_head (mr_q s) \<le> n" "n < q_head (mr_q s) + capacity" "n \<noteq> pos" for n
    using that r by (intro window_inj [of "q_head (mr_q s)"]) auto
  have lt: "pos mod capacity < length (q_seq (mr_q s))" using I(1) r by simp
  have slots: "slot_ok capacity ?s n" if n: "q_head (mr_q s) \<le> n" "n < q_tail (mr_q s)" for n
  proof (cases "n = pos")
    case True
    then have "\<not> holds_pos (mr_prod ?s j) n" for j using h I(8) pos by blast
    moreover have "q_data (mr_q s) ! (pos mod capacity) = mr_claimed s ! pos"
      using I(7) [of i] p by (simp add: prod_ok_def)
    ultimately show ?thesis using True lt by (simp add: slot_ok_def)
  next
    case False
    then have "(\<exists>j. holds_pos (mr_prod ?s j) n) \<longleftrightarrow> (\<exists>j. holds_pos (mr_prod s j) n)" using h only by metis
    moreover have "q_seq (mr_q ?s) ! (n mod capacity) = q_seq (mr_q s) ! (n mod capacity)"
      using other [OF n(1) _ False] n(2) I(5) by simp
    ultimately show ?thesis using I(9) [OF n] by (simp add: slot_ok_def)
  qed
  show ?thesis
  proof (rule mpsc_invI)
    show "prod_ok capacity (mr_q ?s) (mr_claimed ?s) (mr_prod ?s j)" for j
      using I(7) [of j] by (auto simp: prod_ok_def split: producer.splits)
    show "j = k" if "holds_pos (mr_prod ?s j) n" "holds_pos (mr_prod ?s k) n" for j k n
      using that I(8) unfolding h by blast
    show "cons_ok capacity ?s" using I(11) h by (auto simp: cons_ok_def split: consumer.splits)
    show "q_seq (mr_q ?s) ! (n mod capacity) = n" if "q_tail (mr_q ?s) \<le> n" "n < q_head (mr_q ?s) + capacity" for n
      using that I(4) I(10) [of n] other [of n] r(2) by simp
  qed (use I(1-6) slots in simp_all)
qed

lemma inv_deq_check:
  assumes inv: "mpsc_inv capacity s" and cap: "0 < capacity"
    and seq: "q_seq (mr_q s) ! (q_head (mr_q s) mod capacity) = q_head (mr_q s) + 1"
  shows "q_head (mr_q s) < q_tail (mr_q s)" and "\<not> holds_pos (mr_prod s i) (q_head (mr_q s))"
    and "q_data (mr_q s) ! (q_head (mr_q s) mod capacity) = mr_claimed s ! q_head (mr_q s)"
proof -
  note I = mpsc_invD [OF inv]
  show lt: "q_head (mr_q s) < q_tail (mr_q s)"
  proof (rule ccontr)
    assume "\<not> ?thesis"
    then show False using I(10) [of "q_head (mr_q s)"] cap seq by simp
  qed
  have "slot_ok capacity s (q_head (mr_q s))" using I(9) lt by simp
  then show "\<not> holds_pos (mr_prod s i) (q_head (mr_q s))"
    and "q_data (mr_q s) ! (q_head (mr_q s) mod capacity) = mr_claimed s ! q_head (mr_q s)"
    using seq by (auto simp: slot_ok_def split: if_splits)
qed

lemma inv_consume:
  assumes inv: "mpsc_inv capacity s" and c: "mr_cons s = C_Store item"
  shows "mpsc_inv capacity (s\<lparr>mr_q := (mr_q s)\<lparr>q_seq := (q_seq (mr_q s))[q_head (mr_q s) mod capacity := q_head (mr_q s) + capacity],
      q_head := q_head (mr_q s) + 1\<rparr>, mr_cons := C_Ret (Some item), mr_got := mr_got s @ [item]\<rparr>)" (is "mpsc_inv capacity ?s")
proof -
  note I = mpsc_invD [OF inv]
  let ?h = "q_head (mr_q s)"
  have ht: "?h < q_tail (mr_q s)" and no: "\<And>i. \<not> holds_pos (mr_prod s i) ?h" and it: "mr_claimed s ! ?h = item"
    using I(11) c by (auto simp: cons_ok_def)
  have cap: "0 < capacity" using ht I(5) by linarith
  have other: "?h mod capacity \<noteq> n mod capacity" if "?h < n" "n < ?h + capacity" for n
    using that by (intro window_inj_less) auto
  have h: "holds_pos (mr_prod ?s j) n \<longleftrightarrow> holds_pos (mr_prod s j) n" for j n by simp
  show ?thesis
  proof (rule mpsc_invI)
    show "mr_got ?s = take (q_head (mr_q ?s)) (mr_claimed ?s)"
      using I(3,6) ht it by (simp add: take_Suc_conv_app_nth)
    show "prod_ok capacity (mr_q ?s) (mr_claimed ?s) (mr_prod ?s j)" for j
      using I(7) [of j] no [of j] by (auto simp: prod_ok_def holds_pos_def split: producer.splits)
    show "slot_ok capacity ?s n" if "q_head (mr_q ?s) \<le> n" "n < q_tail (mr_q ?s)" for n
      using that I(5) I(9) [of n] other [of n] by (simp add: slot_ok_def)
    show "q_seq (mr_q ?s) ! (n mod capacity) = n" if n: "q_tail (mr_q ?s) \<le> n" "n < q_head (mr_q ?s) + capacity" for n
    proof (cases "n = ?h + capacity")
      case True
      then show ?thesis using I(1) cap by simp
    next
      case False
      then show ?thesis using n ht I(10) [of n] other [of n] by simp
    qed
    show "cons_ok capacity ?s" by (simp add: cons_ok_def)
  qed (use I ht in simp_all)
qed

text \<open>The test of the sequence number in \<^verbatim>\<open>enqueue\<close>.\<close>

lemma seq_eq_pos:
  assumes inv: "mpsc_inv capacity s" and cap: "2 \<le> capacity" and seq: "q_seq (mr_q s) ! (pos mod capacity) = pos"
    and t: "pos = q_tail (mr_q s)"
  shows "pos < q_head (mr_q s) + capacity"
proof (rule ccontr)
  note I = mpsc_invD [OF inv]
  assume "\<not> ?thesis"
  then have full: "pos = q_head (mr_q s) + capacity" using I(5) t by simp
  then have "slot_ok capacity s (q_head (mr_q s))" using I(9) t cap by simp
  then show False using seq full cap by (auto simp: slot_ok_def split: if_splits)
qed

lemma seq_below_pos:
  assumes inv: "mpsc_inv capacity s" and cap: "0 < capacity" and seq: "q_seq (mr_q s) ! (pos mod capacity) < pos"
    and t: "pos \<le> q_tail (mr_q s)"
  shows "q_tail (mr_q s) = q_head (mr_q s) + capacity"
proof (rule ccontr)
  note I = mpsc_invD [OF inv]
  let ?h = "q_head (mr_q s)"
  assume "\<not> ?thesis"
  then have lt: "q_tail (mr_q s) < ?h + capacity" using I(5) by simp
  define n where "n = ?h + (pos + capacity * ?h - ?h) mod capacity"
  have n: "?h \<le> n" "n < ?h + capacity" using cap by (simp_all add: n_def)
  have "n mod capacity = (?h + (pos + capacity * ?h - ?h)) mod capacity" by (simp add: n_def mod_simps)
  also have "?h + (pos + capacity * ?h - ?h) = pos + capacity * ?h" using cap by (simp add: trans_le_add2)
  finally have mod: "n mod capacity = pos mod capacity" by simp
  have seq_n: "n \<le> q_seq (mr_q s) ! (n mod capacity)"
  proof (cases "n < q_tail (mr_q s)")
    case True
    then show ?thesis using I(9) [OF n(1)] by (auto simp: slot_ok_def split: if_splits)
  next
    case False
    then show ?thesis using I(10) [of n] n(2) by simp
  qed
  then have "n < pos" using mod seq by simp
  moreover have "pos < n + capacity" using t lt n(1) by simp
  ultimately show False using mod window_inj_less [of n pos capacity] by simp
qed

lemma inv_enq:
  assumes inv: "mpsc_inv capacity s" and cap: "cap_ok capacity"
    and step: "enq_step capacity spurious (mr_prod s i) (mr_q s) = (p', q')"
  shows "mpsc_inv capacity (s\<lparr>mr_q := q', mr_prod := (mr_prod s)(i := p'),
      mr_claimed := mr_claimed s @ claims (mr_prod s i) p'\<rparr>)"
proof (cases "mr_prod s i")
  case (P_Ret ok)
  then have "p' = P_Ret ok" "q' = mr_q s" using step by simp_all
  then show ?thesis using inv_quiet [OF inv, of i "P_Ret ok"] P_Ret
    by (simp add: holds_pos_def prod_ok_def claims_def)
next
  case (P_Start item)
  then show ?thesis using step inv_quiet [OF inv, of i "P_Pos item (q_tail (mr_q s))"]
    by (auto simp: holds_pos_def prod_ok_def claims_def)
next
  case (P_Pos item pos)
  have "pos \<le> q_tail (mr_q s)" using mpsc_invD(7) [OF inv, of i] P_Pos by (simp add: prod_ok_def)
  moreover have "p' = P_Cas item pos \<Longrightarrow> pos = q_tail (mr_q s) \<Longrightarrow> pos < q_head (mr_q s) + capacity"
    using step P_Pos seq_eq_pos [OF inv cap_ok_ge2 [OF cap], of pos]
    by (auto simp: q_slot_mod [OF cap] Let_def split: if_splits)
  ultimately show ?thesis
    using step P_Pos inv_quiet [OF inv, of i p']
    by (auto simp: holds_pos_def prod_ok_def claims_def Let_def split: if_splits)
next
  case (P_Cas item pos)
  show ?thesis
  proof (cases "q_tail (mr_q s) = pos \<and> \<not> spurious")
    case True
    then show ?thesis using step P_Cas inv_claim [OF inv P_Cas] by (auto simp: claims_def)
  next
    case False
    then have "p' = P_Start item" "q' = mr_q s" using step P_Cas by (auto split: if_splits)
    then show ?thesis using P_Cas inv_quiet [OF inv, of i "P_Start item"]
      by (simp add: holds_pos_def prod_ok_def claims_def)
  qed
next
  case (P_Write item pos)
  then show ?thesis using step inv_write [OF inv P_Write] by (auto simp: claims_def q_slot_mod [OF cap])
next
  case (P_Store item pos)
  then show ?thesis using step inv_publish [OF inv P_Store] by (auto simp: claims_def q_slot_mod [OF cap])
qed

lemma inv_cons_quiet:
  assumes "mpsc_inv capacity s" and "cons_ok capacity (s\<lparr>mr_cons := c'\<rparr>)"
  shows "mpsc_inv capacity (s\<lparr>mr_cons := c'\<rparr>)"
  using assms by (auto simp: mpsc_inv_def Let_def slot_ok_def)

lemma inv_deq:
  assumes inv: "mpsc_inv capacity s" and cap: "cap_ok capacity"
    and step: "deq_step capacity (mr_cons s) (mr_q s) = (c', q')"
  shows "mpsc_inv capacity (s\<lparr>mr_q := q', mr_cons := c', mr_got := mr_got s @ gets (mr_cons s) c'\<rparr>)"
proof (cases "mr_cons s")
  case (C_Ret r)
  then have "c' = C_Ret r" "q' = mr_q s" using step by simp_all
  then show ?thesis using inv_cons_quiet [OF inv, of "C_Ret r"] C_Ret by (simp add: gets_def cons_ok_def)
next
  case C_Start
  have "0 < capacity" using cap_ok_ge2 [OF cap] by simp
  then show ?thesis
    using step C_Start inv_deq_check [OF inv] inv_cons_quiet [OF inv, of c']
    by (auto simp: gets_def cons_ok_def q_slot_mod [OF cap] split: if_splits)
next
  case C_Read
  let ?h = "q_head (mr_q s)"
  have "slot_ok capacity s ?h" "?h < q_tail (mr_q s)" "\<And>i. \<not> holds_pos (mr_prod s i) ?h"
    using mpsc_invD(9,11) [OF inv] C_Read by (auto simp: cons_ok_def)
  then show ?thesis
    using step C_Read inv_cons_quiet [OF inv, of c']
    by (auto simp: gets_def cons_ok_def slot_ok_def q_slot_mod [OF cap])
next
  case (C_Store item)
  then show ?thesis using step inv_consume [OF inv C_Store] by (auto simp: gets_def q_slot_mod [OF cap])
qed

lemma mpsc_reach_inv:
  assumes "mpsc_reach capacity mem s" and cap: "cap_ok capacity" and "length mem = capacity"
  shows "mpsc_inv capacity s"
  using assms(1)
proof induction
  case start
  then show ?case using assms(3)
    by (intro mpsc_invI) (simp_all add: mpsc_new_def prod_ok_def holds_pos_def cons_ok_def)
next
  case (enq_call s i ok item)
  then show ?case using inv_quiet [OF enq_call.IH, of i "P_Start item"] by (simp add: holds_pos_def prod_ok_def)
next
  case (enq_run s spurious i p' q')
  then show ?case using inv_enq [OF enq_run.IH cap] by simp
next
  case (deq_call s r)
  then show ?case using inv_cons_quiet [OF deq_call.IH, of C_Start] by (simp add: cons_ok_def)
next
  case (deq_run s c' q')
  then show ?case using inv_deq [OF deq_run.IH cap] by simp
qed

section \<open>The promises of the queue\<close>

text \<open>
  C8: \<^verbatim>\<open>MPSCQueue\<close> is a first-in first-out queue for any number of producers. In every interleaving of their atomic
  steps with those of the consumer, the items returned by \<^verbatim>\<open>dequeue\<close> are a prefix of the items in the order their
  producers advanced \<^verbatim>\<open>tail_\<close>: none is lost, duplicated, overtaken or torn. No more than the capacity are ever
  outstanding. \<^verbatim>\<open>enqueue\<close> gives up only when the queue is full, and when no producer is inside \<^verbatim>\<open>enqueue\<close> a call of
  \<^verbatim>\<open>dequeue\<close> gets the next item, unless there is none.
\<close>

theorem mpsc_fifo:
  assumes "mpsc_reach capacity mem s" and "cap_ok capacity" and "length mem = capacity"
  shows "prefix (mr_got s) (mr_claimed s) \<and> length (mr_claimed s) \<le> length (mr_got s) + capacity \<and>
    (\<forall>i item pos spurious q'. mr_prod s i = P_Pos item pos \<longrightarrow>
       enq_step capacity spurious (mr_prod s i) (mr_q s) = (P_Ret False, q') \<longrightarrow>
       length (mr_claimed s) = length (mr_got s) + capacity) \<and>
    ((\<forall>i. \<exists>ok. mr_prod s i = P_Ret ok) \<longrightarrow>
       (fst (deq_step capacity C_Start (mr_q s)) = C_Read \<longleftrightarrow> length (mr_got s) < length (mr_claimed s)) \<and>
       (length (mr_got s) < length (mr_claimed s) \<longrightarrow>
          fst (deq_step capacity C_Read (mr_q s)) = C_Store (mr_claimed s ! length (mr_got s))))"
proof -
  have inv: "mpsc_inv capacity s" by (rule mpsc_reach_inv [OF assms])
  note I = mpsc_invD [OF inv]
  have cap: "0 < capacity" using cap_ok_ge2 [OF assms(2)] by simp
  have got: "length (mr_got s) = q_head (mr_q s)" using I(3,4,6) by simp
  have full: "length (mr_claimed s) = length (mr_got s) + capacity"
    if "mr_prod s i = P_Pos item pos" "enq_step capacity spurious (mr_prod s i) (mr_q s) = (P_Ret False, q')"
    for i item pos spurious q'
  proof -
    have "pos \<le> q_tail (mr_q s)" using I(7) [of i] that(1) by (simp add: prod_ok_def)
    moreover have "q_seq (mr_q s) ! (pos mod capacity) < pos"
      using that by (auto simp: q_slot_mod [OF assms(2)] Let_def split: if_splits)
    ultimately show ?thesis using seq_below_pos [OF inv cap] I(3) got by simp
  qed
  have quiet: "fst (deq_step capacity C_Start (mr_q s)) = C_Read \<longleftrightarrow> q_head (mr_q s) < q_tail (mr_q s)"
    "q_head (mr_q s) < q_tail (mr_q s) \<Longrightarrow> q_data (mr_q s) ! (q_head (mr_q s) mod capacity) = mr_claimed s ! q_head (mr_q s)"
    if "\<forall>i. \<exists>ok. mr_prod s i = P_Ret ok"
  proof -
    have "\<not> holds_pos (mr_prod s i) n" for i n using spec [OF that, of i] by (auto simp: holds_pos_def)
    then have pub: "q_head (mr_q s) < q_tail (mr_q s) \<Longrightarrow>
        q_seq (mr_q s) ! (q_head (mr_q s) mod capacity) = q_head (mr_q s) + 1 \<and>
        q_data (mr_q s) ! (q_head (mr_q s) mod capacity) = mr_claimed s ! q_head (mr_q s)"
      using I(9) [of "q_head (mr_q s)"] by (simp add: slot_ok_def)
    then show "q_head (mr_q s) < q_tail (mr_q s) \<Longrightarrow>
        q_data (mr_q s) ! (q_head (mr_q s) mod capacity) = mr_claimed s ! q_head (mr_q s)" by simp
    show "fst (deq_step capacity C_Start (mr_q s)) = C_Read \<longleftrightarrow> q_head (mr_q s) < q_tail (mr_q s)"
      using pub inv_deq_check(1) [OF inv cap] by (auto simp: q_slot_mod [OF assms(2)])
  qed
  have "prefix (mr_got s) (mr_claimed s)" using I(6) by (simp add: take_is_prefix)
  then show ?thesis using I(3,5) got full quiet by (simp add: q_slot_mod [OF assms(2)])
qed

text \<open>Two slots: one enqueue in full, then a second producer that has only taken its position.\<close>

definition sample_run :: "nat mpsc_run" where
  "sample_run = \<lparr>mr_q = \<lparr>q_head = 0, q_tail = 1, q_seq = [1, 1], q_data = [7, 0]\<rparr>, mr_prod = (\<lambda>_. P_Ret False)(3 := P_Ret True),
     mr_cons = C_Ret None, mr_claimed = [7], mr_got = []\<rparr>"

lemma sample_run_reach: "mpsc_reach 2 [0, 0] sample_run"
proof -
  let ?r = "\<lambda>q p cl. \<lparr>mr_q = q, mr_prod = (\<lambda>_. P_Ret False)(3 := p), mr_cons = C_Ret None, mr_claimed = cl, mr_got = []\<rparr>"
  let ?q = "\<lambda>t s d. \<lparr>q_head = 0, q_tail = t, q_seq = s, q_data = d\<rparr> :: nat mpsc"
  note run = mpsc_reach.enq_run [where i = 3 and spurious = False, of 2 "[0, 0]"]
  have "mpsc_reach 2 [0, 0] (?r (?q 0 [0, 1] [0, 0]) (P_Start 7) [])"
    using mpsc_reach.enq_call [OF mpsc_reach.start [of 2 "[0::nat, 0]"], of 3 False 7]
    by (simp add: mpsc_new_def upt_rec)
  from run [OF this] have "mpsc_reach 2 [0, 0] (?r (?q 0 [0, 1] [0, 0]) (P_Pos 7 0) [])"
    by (simp add: claims_def)
  from run [OF this] have "mpsc_reach 2 [0, 0] (?r (?q 0 [0, 1] [0, 0]) (P_Cas 7 0) [])"
    by (simp add: claims_def q_slot_def Let_def)
  from run [OF this] have "mpsc_reach 2 [0, 0] (?r (?q 1 [0, 1] [0, 0]) (P_Write 7 0) [7])"
    by (simp add: claims_def)
  from run [OF this] have "mpsc_reach 2 [0, 0] (?r (?q 1 [0, 1] [7, 0]) (P_Store 7 0) [7])"
    by (simp add: claims_def q_slot_def)
  from run [OF this] show ?thesis by (simp add: claims_def q_slot_def sample_run_def)
qed

theorem mpsc_fifo_witness:
  "prefix (mr_got sample_run) (mr_claimed sample_run) \<and> fst (deq_step 2 C_Start (mr_q sample_run)) = C_Read \<and>
   fst (deq_step 2 C_Read (mr_q sample_run)) = C_Store 7"
proof -
  have "cap_ok 2" unfolding cap_ok_def by (intro exI [of _ 1]) simp
  from mpsc_fifo [OF sample_run_reach this] show ?thesis by (auto simp: sample_run_def q_slot_def)
qed

end
