(* ===== verification/Timestamp.thy ===== *)
theory Timestamp
  imports Prelude
begin

text \<open>
  \<^verbatim>\<open>TimestampCache\<close> (\<^verbatim>\<open>include/util/timestamp.hpp\<close>, \<^verbatim>\<open>src/util/timestamp.cpp\<close>): the formatted time shared by all logging
  threads, behind a sequence lock. Each atomic access and each byte of a \<^verbatim>\<open>memcpy\<close> is one step; the steps of any number
  of threads interleave. The formatting (\<^verbatim>\<open>localtime_r\<close>, \<^verbatim>\<open>strftime\<close>) is the parameter \<open>fmt\<close>. The sequence number is a
  natural number: the \<^verbatim>\<open>unsigned\<close> wraps after \<open>2 ^ 31\<close> updates, and there is at most one update per second.
\<close>

section \<open>State and operations\<close>

datatype ts_field = Datetime | Date

fun field_size :: "ts_field \<Rightarrow> nat" where
  "field_size Datetime = 24"
| "field_size Date = 12"

record ts_cache =
  tc_second :: int
  tc_seq :: nat
  tc_str :: "ts_field \<Rightarrow> byte list"

definition ts_cache_new :: ts_cache where
  "ts_cache_new = \<lparr>tc_second = 0, tc_seq = 0, tc_str = (\<lambda>f. replicate (field_size f) 0)\<rparr>"

text \<open>
  A thread inside \<^verbatim>\<open>get_datetime\<close> or \<^verbatim>\<open>get_date\<close>: first \<^verbatim>\<open>maybe_update\<close> (up to \<open>T_Inc2\<close>), then the read loop. The first
  argument is the string it was asked for, \<open>t\<close> the value of \<^verbatim>\<open>now\<close>; \<open>T_Done\<close> has returned that string.
\<close>

datatype ts_thread =
    T_Done ts_field "byte list"
  | T_Begin ts_field
  | T_Load ts_field int
  | T_Cas ts_field int int
  | T_Inc1 ts_field int
  | T_Copy ts_field int ts_field nat
  | T_Inc2 ts_field
  | T_Seq ts_field
  | T_Read ts_field nat "byte list"
  | T_Check ts_field nat "byte list"

text \<open>One step; \<open>now\<close> is what \<^verbatim>\<open>::time\<close> returns if the step calls it.\<close>

fun ts_step :: "(ts_field \<Rightarrow> int \<Rightarrow> byte list) \<Rightarrow> int \<Rightarrow> ts_thread \<Rightarrow> ts_cache \<Rightarrow> ts_thread \<times> ts_cache" where
  "ts_step fmt now (T_Done f out) c = (T_Done f out, c)"
| "ts_step fmt now (T_Begin f) c = (T_Load f now, c)"
| "ts_step fmt now (T_Load f t) c = (if t = tc_second c then (T_Seq f, c) else (T_Cas f t (tc_second c), c))"
| "ts_step fmt now (T_Cas f t expected) c =
     (if tc_second c = expected then (T_Inc1 f t, c\<lparr>tc_second := t\<rparr>) else (T_Seq f, c))"
| "ts_step fmt now (T_Inc1 f t) c = (T_Copy f t Datetime 0, c\<lparr>tc_seq := tc_seq c + 1\<rparr>)"
| "ts_step fmt now (T_Copy f t g k) c =
     (if k < field_size g
      then (T_Copy f t g (k + 1), c\<lparr>tc_str := (tc_str c)(g := (tc_str c g)[k := fmt g t ! k])\<rparr>)
      else (if g = Datetime then (T_Copy f t Date 0, c) else (T_Inc2 f, c)))"
| "ts_step fmt now (T_Inc2 f) c = (T_Seq f, c\<lparr>tc_seq := tc_seq c + 1\<rparr>)"
| "ts_step fmt now (T_Seq f) c = (if odd (tc_seq c) then (T_Seq f, c) else (T_Read f (tc_seq c) [], c))"
| "ts_step fmt now (T_Read f s1 out) c =
     (if length out < field_size f then (T_Read f s1 (out @ [tc_str c f ! length out]), c) else (T_Check f s1 out, c))"
| "ts_step fmt now (T_Check f s1 out) c = (if s1 = tc_seq c then (T_Done f out, c) else (T_Seq f, c))"

section \<open>All interleavings\<close>

text \<open>A thread between the two increments of the sequence number, or about to make the first.\<close>

fun updating :: "ts_thread \<Rightarrow> bool" where
  "updating (T_Inc1 f t) = True"
| "updating (T_Copy f t g k) = True"
| "updating (T_Inc2 f) = True"
| "updating _ = False"

record ts_run =
  tr_cache :: ts_cache
  tr_thread :: "nat \<Rightarrow> ts_thread"
  tr_times :: "int list"

text \<open>
  The reachable states. \<open>tr_times\<close> lists the times some thread set out to write. With \<open>excl\<close> only those runs are
  considered in which an update is over before the next begins.
\<close>

inductive ts_reach :: "(ts_field \<Rightarrow> int \<Rightarrow> byte list) \<Rightarrow> bool \<Rightarrow> ts_run \<Rightarrow> bool" for fmt excl where
  ts_start: "ts_reach fmt excl \<lparr>tr_cache = ts_cache_new, tr_thread = \<lambda>_. T_Done Date (replicate 12 0), tr_times = []\<rparr>"
| ts_call: "ts_reach fmt excl s \<Longrightarrow> tr_thread s i = T_Done g out \<Longrightarrow>
    ts_reach fmt excl (s\<lparr>tr_thread := (tr_thread s)(i := T_Begin f)\<rparr>)"
| ts_run: "ts_reach fmt excl s \<Longrightarrow> ts_step fmt now (tr_thread s i) (tr_cache s) = (t', c') \<Longrightarrow>
    (excl \<Longrightarrow> updating t' \<Longrightarrow> \<forall>j. j \<noteq> i \<longrightarrow> \<not> updating (tr_thread s j)) \<Longrightarrow>
    ts_reach fmt excl (s\<lparr>tr_cache := c', tr_thread := (tr_thread s)(i := t'),
      tr_times := (case t' of T_Inc1 _ t \<Rightarrow> tr_times s @ [t] | _ \<Rightarrow> tr_times s)\<rparr>)"

section \<open>One update at a time\<close>

definition whole :: "(ts_field \<Rightarrow> int \<Rightarrow> byte list) \<Rightarrow> int list \<Rightarrow> ts_field \<Rightarrow> byte list \<Rightarrow> bool" where
  "whole fmt ts f out \<longleftrightarrow> out = replicate (field_size f) 0 \<or> (\<exists>t \<in> set ts. out = fmt f t)"

lemma whole_mono: "whole fmt ts f out \<Longrightarrow> whole fmt (ts @ ts') f out"
  by (auto simp: whole_def)

fun writing :: "ts_thread \<Rightarrow> bool" where
  "writing (T_Copy f t g k) = True"
| "writing (T_Inc2 f) = True"
| "writing _ = False"

text \<open>What a thread knows about the cache.\<close>

definition thread_ok :: "(ts_field \<Rightarrow> int \<Rightarrow> byte list) \<Rightarrow> int list \<Rightarrow> ts_cache \<Rightarrow> ts_thread \<Rightarrow> bool" where
  "thread_ok fmt ts c t = (case t of
     T_Done f out \<Rightarrow> whole fmt ts f out
   | T_Inc1 f n \<Rightarrow> n \<in> set ts
   | T_Copy f n g k \<Rightarrow> n \<in> set ts \<and> k \<le> field_size g \<and> take k (tc_str c g) = take k (fmt g n) \<and>
       (g = Date \<longrightarrow> tc_str c Datetime = fmt Datetime n) \<and> (g = Datetime \<longrightarrow> whole fmt ts Date (tc_str c Date))
   | T_Inc2 f \<Rightarrow> \<forall>g. whole fmt ts g (tc_str c g)
   | T_Read f s1 out \<Rightarrow> even s1 \<and> s1 \<le> tc_seq c \<and> length out \<le> field_size f \<and>
       (s1 = tc_seq c \<longrightarrow> out = take (length out) (tc_str c f))
   | T_Check f s1 out \<Rightarrow> even s1 \<and> s1 \<le> tc_seq c \<and> (s1 = tc_seq c \<longrightarrow> out = tc_str c f)
   | _ \<Rightarrow> True)"

definition ts_inv :: "(ts_field \<Rightarrow> int \<Rightarrow> byte list) \<Rightarrow> ts_run \<Rightarrow> bool" where
  "ts_inv fmt s \<longleftrightarrow>
     (\<forall>f. length (tc_str (tr_cache s) f) = field_size f) \<and>
     (\<forall>i. thread_ok fmt (tr_times s) (tr_cache s) (tr_thread s i)) \<and>
     (\<forall>i j. updating (tr_thread s i) \<longrightarrow> updating (tr_thread s j) \<longrightarrow> i = j) \<and>
     (odd (tc_seq (tr_cache s)) \<longleftrightarrow> (\<exists>i. writing (tr_thread s i))) \<and>
     (even (tc_seq (tr_cache s)) \<longrightarrow> (\<forall>f. whole fmt (tr_times s) f (tc_str (tr_cache s) f)))"

lemma ts_invD:
  assumes "ts_inv fmt s"
  shows "\<And>f. length (tc_str (tr_cache s) f) = field_size f"
    "\<And>i. thread_ok fmt (tr_times s) (tr_cache s) (tr_thread s i)"
    "\<And>i j. updating (tr_thread s i) \<Longrightarrow> updating (tr_thread s j) \<Longrightarrow> i = j"
    "odd (tc_seq (tr_cache s)) \<longleftrightarrow> (\<exists>i. writing (tr_thread s i))"
    "\<And>f. even (tc_seq (tr_cache s)) \<Longrightarrow> whole fmt (tr_times s) f (tc_str (tr_cache s) f)"
  using assms unfolding ts_inv_def by blast+

lemma ts_invI:
  assumes "\<And>f. length (tc_str (tr_cache s) f) = field_size f"
    "\<And>i. thread_ok fmt (tr_times s) (tr_cache s) (tr_thread s i)"
    "\<And>i j. updating (tr_thread s i) \<Longrightarrow> updating (tr_thread s j) \<Longrightarrow> i = j"
    "odd (tc_seq (tr_cache s)) \<longleftrightarrow> (\<exists>i. writing (tr_thread s i))"
    "\<And>f. even (tc_seq (tr_cache s)) \<Longrightarrow> whole fmt (tr_times s) f (tc_str (tr_cache s) f)"
  shows "ts_inv fmt s"
  unfolding ts_inv_def using assms by blast

lemma writing_updating: "writing t \<Longrightarrow> updating t"
  by (cases t) auto

text \<open>A step that changes neither the sequence number nor the strings, of a thread that writes neither before nor after.\<close>

lemma ts_inv_quiet:
  assumes inv: "ts_inv fmt s" and w: "\<not> writing (tr_thread s i)" "\<not> writing t'"
    and u: "updating t' \<Longrightarrow> \<forall>j. j \<noteq> i \<longrightarrow> \<not> updating (tr_thread s j)"
    and c: "tc_seq c' = tc_seq (tr_cache s)" "tc_str c' = tc_str (tr_cache s)"
    and ok: "thread_ok fmt (tr_times s @ ts') c' t'"
  shows "ts_inv fmt (s\<lparr>tr_cache := c', tr_thread := (tr_thread s)(i := t'), tr_times := tr_times s @ ts'\<rparr>)" (is "ts_inv fmt ?s")
proof -
  note I = ts_invD [OF inv]
  have others: "thread_ok fmt (tr_times s @ ts') c' (tr_thread s j)" for j
    using I(2) [of j] c by (auto simp: thread_ok_def whole_mono split: ts_thread.splits)
  show ?thesis
  proof (rule ts_invI)
    show "thread_ok fmt (tr_times ?s) (tr_cache ?s) (tr_thread ?s j)" for j using others [of j] ok by simp
    show "j = k" if "updating (tr_thread ?s j)" "updating (tr_thread ?s k)" for j k
      using that I(3) u by (auto split: if_splits)
    have "(\<exists>j. writing (tr_thread ?s j)) \<longleftrightarrow> (\<exists>j. writing (tr_thread s j))" using w by auto
    then show "odd (tc_seq (tr_cache ?s)) \<longleftrightarrow> (\<exists>j. writing (tr_thread ?s j))" using I(4) c(1) by simp
  qed (use I(1) I(5) c in \<open>simp_all add: whole_mono\<close>)
qed

text \<open>A step of the one thread that updates: the others read, at an earlier sequence number.\<close>

lemma ts_inv_update:
  assumes inv: "ts_inv fmt s" and up: "updating (tr_thread s i)"
    and len: "\<And>f. length (tc_str c' f) = field_size f" and t': "updating t' \<longrightarrow> writing t'"
    and seq: "tc_seq (tr_cache s) \<le> tc_seq c'" "odd (tc_seq c') \<longleftrightarrow> writing t'"
    and str: "tc_str c' \<noteq> tc_str (tr_cache s) \<Longrightarrow> odd (tc_seq c')"
    and ok: "thread_ok fmt (tr_times s) c' t'"
    and all: "even (tc_seq c') \<Longrightarrow> \<forall>f. whole fmt (tr_times s) f (tc_str c' f)"
  shows "ts_inv fmt (s\<lparr>tr_cache := c', tr_thread := (tr_thread s)(i := t')\<rparr>)" (is "ts_inv fmt ?s")
proof -
  note I = ts_invD [OF inv]
  have no: "\<not> updating (tr_thread s j)" if "j \<noteq> i" for j using I(3) up that by blast
  have "thread_ok fmt (tr_times s) c' (tr_thread s j)" if "j \<noteq> i" for j
  proof (cases "tr_thread s j")
    case (T_Read f s1 out)
    then have "even s1" "s1 \<le> tc_seq (tr_cache s)" "length out \<le> field_size f"
        "s1 = tc_seq (tr_cache s) \<Longrightarrow> out = take (length out) (tc_str (tr_cache s) f)"
      using I(2) [of j] by (auto simp: thread_ok_def)
    then show ?thesis using seq str T_Read unfolding thread_ok_def by (cases "tc_str c' = tc_str (tr_cache s)") auto
  next
    case (T_Check f s1 out)
    then have "even s1" "s1 \<le> tc_seq (tr_cache s)" "s1 = tc_seq (tr_cache s) \<Longrightarrow> out = tc_str (tr_cache s) f"
      using I(2) [of j] by (auto simp: thread_ok_def)
    then show ?thesis using seq str T_Check unfolding thread_ok_def by (cases "tc_str c' = tc_str (tr_cache s)") auto
  qed (use I(2) [of j] no [OF that] in \<open>auto simp: thread_ok_def\<close>)
  moreover have "(\<exists>j. writing (tr_thread ?s j)) \<longleftrightarrow> writing t'" using no writing_updating by auto
  ultimately show ?thesis using len no seq(2) ok all unfolding ts_inv_def by auto
qed

lemma take_update_nth:
  "k < length xs \<Longrightarrow> k < length ys \<Longrightarrow> take k xs = take k ys \<Longrightarrow> take (Suc k) (xs[k := ys ! k]) = take (Suc k) ys"
  by (simp add: take_Suc_conv_app_nth)

lemma ts_inv_step:
  assumes inv: "ts_inv fmt s" and fmt: "\<And>f t. length (fmt f t) = field_size f"
    and step: "ts_step fmt now (tr_thread s i) (tr_cache s) = (t', c')"
    and excl: "updating t' \<Longrightarrow> \<forall>j. j \<noteq> i \<longrightarrow> \<not> updating (tr_thread s j)"
  shows "ts_inv fmt (s\<lparr>tr_cache := c', tr_thread := (tr_thread s)(i := t'),
      tr_times := (case t' of T_Inc1 _ t \<Rightarrow> tr_times s @ [t] | _ \<Rightarrow> tr_times s)\<rparr>)" (is "ts_inv fmt ?s")
proof -
  note I = ts_invD [OF inv]
  have ok: "thread_ok fmt (tr_times s) (tr_cache s) (tr_thread s i)" by (rule I(2))
  have quiet: ?thesis if "\<not> writing (tr_thread s i)" "\<not> writing t'" "tc_seq c' = tc_seq (tr_cache s)"
      "tc_str c' = tc_str (tr_cache s)" "\<And>f t. t' \<noteq> T_Inc1 f t" "thread_ok fmt (tr_times s) c' t'"
    using ts_inv_quiet [OF inv that(1,2) excl that(3,4), where ts' = "[]"] that(5,6) by (cases t') auto
  have update: ?thesis if "updating (tr_thread s i)" "\<And>f. length (tc_str c' f) = field_size f" "updating t' \<longrightarrow> writing t'"
      "tc_seq (tr_cache s) \<le> tc_seq c'" "odd (tc_seq c') \<longleftrightarrow> writing t'"
      "tc_str c' \<noteq> tc_str (tr_cache s) \<Longrightarrow> odd (tc_seq c')" "thread_ok fmt (tr_times s) c' t'"
      "even (tc_seq c') \<Longrightarrow> \<forall>f. whole fmt (tr_times s) f (tc_str c' f)"
    using ts_inv_update [OF inv that] that(3) by (cases t') auto
  have odd: "odd (tc_seq (tr_cache s))" if "writing (tr_thread s i)" using I(4) that by blast
  have even: "even (tc_seq (tr_cache s))" if "updating (tr_thread s i)" "\<not> writing (tr_thread s i)"
    using I(3,4) that writing_updating by metis
  show ?thesis
  proof (cases "tr_thread s i")
    case (T_Cas f t expected)
    show ?thesis
    proof (cases "tc_second (tr_cache s) = expected")
      case True
      then have t': "t' = T_Inc1 f t" "c' = (tr_cache s)\<lparr>tc_second := t\<rparr>" using step T_Cas by auto
      then show ?thesis using ts_inv_quiet [OF inv _ _ excl, where c' = c' and ts' = "[t]"] T_Cas by (simp add: thread_ok_def)
    qed (use step T_Cas quiet in \<open>auto simp: thread_ok_def\<close>)
  next
    case (T_Inc1 f t)
    then show ?thesis using step ok even I(1) I(5) by (intro update) (auto simp: thread_ok_def)
  next
    case (T_Copy f t g k)
    then have k: "k \<le> field_size g" "take k (tc_str (tr_cache s) g) = take k (fmt g t)" "odd (tc_seq (tr_cache s))"
      using ok odd by (auto simp: thread_ok_def)
    show ?thesis
    proof (cases "k < field_size g")
      case True
      then have "take (Suc k) ((tc_str (tr_cache s) g)[k := fmt g t ! k]) = take (Suc k) (fmt g t)"
        using k I(1) fmt by (intro take_update_nth) simp_all
      then show ?thesis using T_Copy True step ok k I(1) by (intro update) (auto simp: thread_ok_def)
    next
      case False
      then have "tc_str (tr_cache s) g = fmt g t" using k I(1) [of g] fmt [of g t] by simp
      then have g: "tc_str (tr_cache s) g = fmt g t" .
      show ?thesis
      proof (cases g)
        case Datetime
        then show ?thesis using T_Copy False step ok k g I(1) by (intro update) (auto simp: thread_ok_def)
      next
        case Date
        have "whole fmt (tr_times s) h (tc_str (tr_cache s) h)" for h
          using g ok T_Copy Date by (cases h) (auto simp: thread_ok_def whole_def)
        then show ?thesis using T_Copy False step ok k Date I(1) by (intro update) (auto simp: thread_ok_def)
      qed
    qed
  next
    case (T_Inc2 f)
    then show ?thesis using step ok odd I(1) by (intro update) (auto simp: thread_ok_def)
  next
    case (T_Read f s1 out)
    then show ?thesis using step ok I(1) [of f]
      by (intro quiet) (auto simp: thread_ok_def take_Suc_conv_app_nth split: if_splits)
  next
    case (T_Check f s1 out)
    then show ?thesis using step ok I(5) by (intro quiet) (auto simp: thread_ok_def split: if_splits)
  next
    case (T_Load f t)
    then show ?thesis using step by (intro quiet) (auto simp: thread_ok_def split: if_splits)
  next
    case (T_Seq f)
    then have "c' = tr_cache s" "t' = T_Seq f \<or> t' = T_Read f (tc_seq c') [] \<and> even (tc_seq c')"
      using step by (auto split: if_splits)
    then show ?thesis using T_Seq by (intro quiet) (auto simp: thread_ok_def)
  next
    case (T_Done f out)
    then have "t' = T_Done f out" "c' = tr_cache s" using step by simp_all
    then show ?thesis using T_Done ok by (intro quiet) simp_all
  next
    case (T_Begin f)
    then show ?thesis using step by (intro quiet) (auto simp: thread_ok_def)
  qed
qed

lemma ts_reach_inv:
  assumes "ts_reach fmt True s" and fmt: "\<And>f t. length (fmt f t) = field_size f"
  shows "ts_inv fmt s"
  using assms(1)
proof induction
  case ts_start
  then show ?case
    by (intro ts_invI) (simp_all add: ts_cache_new_def thread_ok_def whole_def)
next
  case (ts_call s i g out f)
  then show ?case
    using ts_inv_quiet [OF ts_call.IH, of i "T_Begin f" "tr_cache s" "[]"] by (simp add: thread_ok_def)
next
  case (ts_run s now i t' c')
  then show ?case using ts_inv_step [OF ts_run.IH fmt ts_run.hyps(2)] by simp
qed

text \<open>
  C26: while updates do not overlap, the sequence lock works. In every interleaving of readers with one update at a
  time, a string returned by \<^verbatim>\<open>get_datetime\<close> or \<^verbatim>\<open>get_date\<close> is never a mixture of two: it is the one formatted for some
  time at which a thread updated the cache, or the zeros the cache starts with.
\<close>

theorem timestamp_whole:
  assumes "ts_reach fmt True s" and "\<And>f t. length (fmt f t) = field_size f" and "tr_thread s i = T_Done f out"
  shows "out = replicate (field_size f) 0 \<or> (\<exists>t \<in> set (tr_times s). out = fmt f t)"
  using ts_invD(2) [OF ts_reach_inv [OF assms(1,2)], of i] assms(3) by (simp add: thread_ok_def whole_def)

definition sample_fmt :: "ts_field \<Rightarrow> int \<Rightarrow> byte list" where
  "sample_fmt f t = replicate (field_size f) (word_of_int t)"

section \<open>Runs\<close>

definition ts_state :: "ts_cache \<Rightarrow> (nat \<Rightarrow> ts_thread) \<Rightarrow> int list \<Rightarrow> ts_run" where
  "ts_state c th ts = \<lparr>tr_cache = c, tr_thread = th, tr_times = ts\<rparr>"

lemma ts_reach_step:
  assumes "ts_reach fmt excl (ts_state c th ts)" and "ts_step fmt now (th i) c = (t', c')"
    and "excl \<Longrightarrow> updating t' \<Longrightarrow> \<forall>j. j \<noteq> i \<longrightarrow> \<not> updating (th j)"
  shows "ts_reach fmt excl (ts_state c' (th(i := t')) (case t' of T_Inc1 _ t \<Rightarrow> ts @ [t] | _ \<Rightarrow> ts))"
  using ts_run [OF assms(1), of now i t' c'] assms(2,3) by (cases t') (simp_all add: ts_state_def)

lemma ts_reach_call:
  assumes "ts_reach fmt excl (ts_state c th ts)" and "th i = T_Done g out"
  shows "ts_reach fmt excl (ts_state c (th(i := T_Begin f)) ts)"
  using ts_call [OF assms(1), of i g out f] assms(2) by (simp add: ts_state_def)

text \<open>A whole \<^verbatim>\<open>memcpy\<close> into the cache, and part of one out of it.\<close>

lemma ts_reach_copy:
  assumes "ts_reach fmt excl (ts_state c th ts)" and "th i = T_Copy f t g 0"
    and "length (tc_str c g) = field_size g" and "length (fmt g t) = field_size g" and "n \<le> field_size g"
    and "excl \<Longrightarrow> \<forall>j. j \<noteq> i \<longrightarrow> \<not> updating (th j)"
  shows "ts_reach fmt excl (ts_state (c\<lparr>tc_str := (tc_str c)(g := take n (fmt g t) @ drop n (tc_str c g))\<rparr>)
    (th(i := T_Copy f t g n)) ts)"
  using assms(5)
proof (induction n)
  case 0
  have "th(i := T_Copy f t g 0) = th" using assms(2) by auto
  then show ?case using assms(1) by simp
next
  case (Suc n)
  let ?c = "c\<lparr>tc_str := (tc_str c)(g := take n (fmt g t) @ drop n (tc_str c g))\<rparr>"
  have "(take n (fmt g t) @ drop n (tc_str c g))[n := fmt g t ! n] = take (Suc n) (fmt g t) @ drop (Suc n) (tc_str c g)"
    using Suc.prems assms(3,4) by (simp add: list_update_append take_Suc_conv_app_nth Cons_nth_drop_Suc [symmetric])
  then show ?case
    using ts_reach_step [OF Suc.IH, of undefined i] Suc.prems assms(6) by (simp add: fun_upd_def cong: if_cong)
qed

lemma ts_reach_read:
  assumes "ts_reach fmt excl (ts_state c th ts)" and "th i = T_Read f s1 out"
    and "length (tc_str c f) = field_size f" and "length out + n \<le> field_size f"
  shows "ts_reach fmt excl (ts_state c (th(i := T_Read f s1 (out @ take n (drop (length out) (tc_str c f))))) ts)"
  using assms(4)
proof (induction n)
  case 0
  have "th(i := T_Read f s1 out) = th" using assms(2) by auto
  then show ?case using assms(1) by simp
next
  case (Suc n)
  let ?out = "out @ take n (drop (length out) (tc_str c f))"
  have "length ?out = length out + n" using Suc.prems assms(3) by simp
  moreover have "?out @ [tc_str c f ! (length out + n)] = out @ take (Suc n) (drop (length out) (tc_str c f))"
    using Suc.prems assms(3) by (simp add: take_Suc_conv_app_nth)
  ultimately show ?case using ts_reach_step [OF Suc.IH, of undefined i] Suc.prems by (simp add: fun_upd_def cong: if_cong)
qed

text \<open>One thread begins an update.\<close>

lemma ts_reach_update:
  assumes "a \<noteq> 0"
  shows "ts_reach fmt excl (ts_state (ts_cache_new\<lparr>tc_second := a, tc_seq := 1\<rparr>)
    ((\<lambda>_. T_Done Date (replicate 12 0))(0 := T_Copy Datetime a Datetime 0)) [a])"
proof -
  let ?i = "\<lambda>_. T_Done Date (replicate 12 0)"
  let ?c = "\<lambda>n q. ts_cache_new\<lparr>tc_second := n, tc_seq := q\<rparr>"
  note step = ts_reach_step and defs = ts_cache_new_def
  have "ts_reach fmt excl (ts_state (?c 0 0) ?i [])" using ts_start [of fmt excl] by (simp add: ts_state_def defs)
  from ts_reach_call [OF this refl, of 0 Datetime] have "ts_reach fmt excl (ts_state (?c 0 0) (?i(0 := T_Begin Datetime)) [])" .
  from step [OF this, of a 0] have "ts_reach fmt excl (ts_state (?c 0 0) (?i(0 := T_Load Datetime a)) [])" by simp
  from step [OF this, of a 0] have "ts_reach fmt excl (ts_state (?c 0 0) (?i(0 := T_Cas Datetime a 0)) [])"
    using assms(1) by simp
  from step [OF this, of a 0] have "ts_reach fmt excl (ts_state (?c a 0) (?i(0 := T_Inc1 Datetime a)) [a])"
    by (simp add: defs)
  from step [OF this, of a 0] show ?thesis by (simp add: defs)
qed

text \<open>The whole call of that thread, with no other thread about.\<close>

lemma ts_reach_one_call:
  assumes "a \<noteq> 0" and len: "\<And>f t. length (fmt f t) = field_size f"
  shows "ts_reach fmt excl (ts_state \<lparr>tc_second = a, tc_seq = 2, tc_str = (\<lambda>f. fmt f a)\<rparr>
    ((\<lambda>_. T_Done Date (replicate 12 0))(0 := T_Done Datetime (fmt Datetime a))) [a])"
proof -
  let ?i = "\<lambda>_. T_Done Date (replicate 12 0)"
  let ?c = "\<lambda>q x y. \<lparr>tc_second = a, tc_seq = q, tc_str = (tc_str ts_cache_new)(Datetime := x, Date := y)\<rparr>"
  let ?A = "fmt Datetime a" and ?D = "fmt Date a" and ?z = "replicate 12 (0 :: byte)"
  note step = ts_reach_step
  have all: "(tc_str ts_cache_new)(Datetime := x, Date := y) = (\<lambda>f. case f of Datetime \<Rightarrow> x | Date \<Rightarrow> y)" for x y
    by (rule ext) (simp split: ts_field.split)
  from ts_reach_copy [OF ts_reach_update [OF assms(1)], where i = 0 and f = Datetime and t = a and g = Datetime and n = 24]
  have "ts_reach fmt excl (ts_state (?c 1 ?A ?z) (?i(0 := T_Copy Datetime a Datetime 24)) [a])"
    by (simp add: len ts_cache_new_def fun_upd_idem)
  from step [OF this, of undefined 0]
  have "ts_reach fmt excl (ts_state (?c 1 ?A ?z) (?i(0 := T_Copy Datetime a Date 0)) [a])" by simp
  from ts_reach_copy [OF this, where i = 0 and f = Datetime and t = a and g = Date and n = 12]
  have "ts_reach fmt excl (ts_state (?c 1 ?A ?D) (?i(0 := T_Copy Datetime a Date 12)) [a])" by (simp add: len)
  from step [OF this, of undefined 0]
  have "ts_reach fmt excl (ts_state (?c 1 ?A ?D) (?i(0 := T_Inc2 Datetime)) [a])" by simp
  from step [OF this, of undefined 0]
  have "ts_reach fmt excl (ts_state (?c 2 ?A ?D) (?i(0 := T_Seq Datetime)) [a])" by (simp add: numeral_2_eq_2)
  from step [OF this, of undefined 0]
  have "ts_reach fmt excl (ts_state (?c 2 ?A ?D) (?i(0 := T_Read Datetime 2 [])) [a])" by simp
  from ts_reach_read [OF this, where i = 0 and f = Datetime and ?s1.0 = 2 and out = "[]" and n = 24]
  have "ts_reach fmt excl (ts_state (?c 2 ?A ?D) (?i(0 := T_Read Datetime 2 ?A)) [a])" by (simp add: len)
  from step [OF this, of undefined 0]
  have "ts_reach fmt excl (ts_state (?c 2 ?A ?D) (?i(0 := T_Check Datetime 2 ?A)) [a])" by (simp add: len)
  from step [OF this, of undefined 0]
  have "ts_reach fmt excl (ts_state (?c 2 ?A ?D) (?i(0 := T_Done Datetime ?A)) [a])" by simp
  moreover have "(\<lambda>f. case f of Datetime \<Rightarrow> ?A | Date \<Rightarrow> ?D) = (\<lambda>f. fmt f a)"
    by (rule ext) (simp split: ts_field.split)
  ultimately show ?thesis by (simp only: all)
qed

theorem timestamp_whole_witness:
  "\<exists>s out. ts_reach sample_fmt True s \<and> tr_times s = [9] \<and> tr_thread s 0 = T_Done Datetime out \<and>
     out \<noteq> replicate 24 0 \<and> out = sample_fmt Datetime 9"
proof -
  have len: "length (sample_fmt f t) = field_size f" for f t by (simp add: sample_fmt_def)
  obtain s where s: "ts_reach sample_fmt True s" "tr_times s = [9]" "tr_thread s 0 = T_Done Datetime (sample_fmt Datetime 9)"
    using ts_reach_one_call [of 9 sample_fmt True] len by (auto simp: ts_state_def)
  moreover have "sample_fmt Datetime 9 \<noteq> replicate 24 0" by (simp add: sample_fmt_def)
  ultimately show ?thesis using timestamp_whole [OF s(1) len s(3)] by auto
qed

section \<open>Two updates at a time\<close>

text \<open>One thread begins an update; so does a second, once the second has changed; a third starts to read.\<close>

lemma ts_reach_two_updates:
  assumes "a \<noteq> 0" and "b \<noteq> a"
  shows "ts_reach fmt False (ts_state (ts_cache_new\<lparr>tc_second := b, tc_seq := 2\<rparr>)
    ((\<lambda>_. T_Done Date (replicate 12 0))(0 := T_Copy Datetime a Datetime 0, 1 := T_Copy Datetime b Datetime 0,
      2 := T_Read Datetime 2 [])) [a, b])"
proof -
  let ?i = "\<lambda>_. T_Done Date (replicate 12 0)"
  let ?c = "\<lambda>n q. ts_cache_new\<lparr>tc_second := n, tc_seq := q\<rparr>"
  note step = ts_reach_step and defs = ts_cache_new_def
  have "ts_reach fmt False (ts_state (?c a 1) (?i(0 := T_Copy Datetime a Datetime 0)) [a])"
    using ts_reach_update [OF assms(1)] by simp
  from ts_reach_call [OF this, of 1] have "ts_reach fmt False (ts_state (?c a 1) (?i(0 := T_Copy Datetime a Datetime 0,
      1 := T_Begin Datetime)) [a])" by simp
  from step [OF this, of b 1] have "ts_reach fmt False (ts_state (?c a 1) (?i(0 := T_Copy Datetime a Datetime 0,
      1 := T_Load Datetime b)) [a])" by simp
  from step [OF this, of b 1] have "ts_reach fmt False (ts_state (?c a 1) (?i(0 := T_Copy Datetime a Datetime 0,
      1 := T_Cas Datetime b a)) [a])" using assms(2) by simp
  from step [OF this, of b 1] have "ts_reach fmt False (ts_state (?c b 1) (?i(0 := T_Copy Datetime a Datetime 0,
      1 := T_Inc1 Datetime b)) [a, b])" by (simp add: defs)
  from step [OF this, of b 1] have "ts_reach fmt False (ts_state (?c b 2) (?i(0 := T_Copy Datetime a Datetime 0,
      1 := T_Copy Datetime b Datetime 0)) [a, b])" by (simp add: defs numeral_2_eq_2)
  from ts_reach_call [OF this, of 2] have "ts_reach fmt False (ts_state (?c b 2) (?i(0 := T_Copy Datetime a Datetime 0,
      1 := T_Copy Datetime b Datetime 0, 2 := T_Begin Datetime)) [a, b])" by simp
  from step [OF this, of b 2] have "ts_reach fmt False (ts_state (?c b 2) (?i(0 := T_Copy Datetime a Datetime 0,
      1 := T_Copy Datetime b Datetime 0, 2 := T_Load Datetime b)) [a, b])" by simp
  from step [OF this, of b 2] have "ts_reach fmt False (ts_state (?c b 2) (?i(0 := T_Copy Datetime a Datetime 0,
      1 := T_Copy Datetime b Datetime 0, 2 := T_Seq Datetime)) [a, b])" by simp
  from step [OF this, of b 2] show ?thesis by simp
qed

text \<open>
  C27: overlapping updates break the sequence lock. When the second changes again before an update is over, two threads
  are between their increments at once, and the sequence number is even although both are copying. A reader can then
  return any prefix of one string followed by the rest of the other: a time that never was.
\<close>

theorem timestamp_torn:
  assumes "a \<noteq> 0" and "b \<noteq> a" and "\<And>f t. length (fmt f t) = field_size f" and "n \<le> 24"
  shows "\<exists>s. ts_reach fmt False s \<and>
    tr_thread s 2 = T_Done Datetime (take n (fmt Datetime a) @ drop n (fmt Datetime b))"
proof -
  let ?i = "\<lambda>_. T_Done Date (replicate 12 0)"
  let ?c = "\<lambda>x. ts_cache_new\<lparr>tc_second := b, tc_seq := 2, tc_str := (tc_str ts_cache_new)(Datetime := x)\<rparr>"
  let ?A = "fmt Datetime a" and ?B = "fmt Datetime b"
  note len = assms(3) [of Datetime] and defs = ts_cache_new_def
  from ts_reach_copy [OF ts_reach_two_updates [OF assms(1,2)], where i = 0 and f = Datetime and t = a and g = Datetime and n = 24]
  have "ts_reach fmt False (ts_state (?c ?A) (?i(0 := T_Copy Datetime a Datetime 24, 1 := T_Copy Datetime b Datetime 0,
      2 := T_Read Datetime 2 [])) [a, b])" by (simp add: len defs fun_upd_twist)
  from ts_reach_read [OF this, where i = 2 and f = Datetime and ?s1.0 = 2 and out = "[]" and n = n]
  have "ts_reach fmt False (ts_state (?c ?A) (?i(0 := T_Copy Datetime a Datetime 24, 1 := T_Copy Datetime b Datetime 0,
      2 := T_Read Datetime 2 (take n ?A))) [a, b])" using assms(4) by (simp add: len)
  from ts_reach_copy [OF this, where i = 1 and f = Datetime and t = b and g = Datetime and n = 24]
  have "ts_reach fmt False (ts_state (?c ?B) (?i(0 := T_Copy Datetime a Datetime 24, 1 := T_Copy Datetime b Datetime 24,
      2 := T_Read Datetime 2 (take n ?A))) [a, b])" by (simp add: len fun_upd_twist)
  from ts_reach_read [OF this, where i = 2 and f = Datetime and ?s1.0 = 2 and out = "take n ?A" and n = "24 - n"]
  have "ts_reach fmt False (ts_state (?c ?B) (?i(0 := T_Copy Datetime a Datetime 24, 1 := T_Copy Datetime b Datetime 24,
      2 := T_Read Datetime 2 (take n ?A @ drop n ?B))) [a, b])" using assms(4) by (simp add: len min_def)
  from ts_reach_step [OF this, of undefined 2]
  have "ts_reach fmt False (ts_state (?c ?B) (?i(0 := T_Copy Datetime a Datetime 24, 1 := T_Copy Datetime b Datetime 24,
      2 := T_Check Datetime 2 (take n ?A @ drop n ?B))) [a, b])" using assms(4) by (simp add: len min_def)
  from ts_reach_step [OF this, of undefined 2] show ?thesis by (auto simp: ts_state_def defs)
qed

theorem timestamp_torn_witness:
  "\<exists>s. ts_reach sample_fmt False s \<and>
    tr_thread s 2 = T_Done Datetime (take 20 (sample_fmt Datetime 9) @ drop 20 (sample_fmt Datetime 10))"
  by (rule timestamp_torn) (simp_all add: sample_fmt_def)

end
