(* ===== verification/Spec2Isabelle.thy ===== *)
theory Spec2Isabelle
  imports Tcp_Handover Tcp_Leak Tcp_Faults Coroutine Logger_Spec Mpsc_Queue Timestamp
begin

text \<open>
  A verification library for \<^verbatim>\<open>uring-proactor\<close>, a C++23 framework for TCP and UDP servers on io_uring. This theory collects the
  library; the models, their lemmas and the properties are in the theories it imports, and the identifier of a property
  (\<open>C1\<close>, \<open>C2\<close>, \<dots>) stands in the text before its theorem.

  \<^bold>\<open>The program.\<close> A server (\<^verbatim>\<open>net/server\<close>) starts worker threads (\<^verbatim>\<open>core/io_thread\<close>, \<^verbatim>\<open>tcp_thread\<close>, \<^verbatim>\<open>udp_thread\<close>). Each worker
  owns an io_uring (\<^verbatim>\<open>core/io_ring\<close>), a ring of receive buffers shared with the kernel (\<^verbatim>\<open>core/buf_ring\<close>), a pool of send
  blocks (\<^verbatim>\<open>buffer/buf_pool\<close>) and channels. A TCP worker accepts connections with a coroutine (\<^verbatim>\<open>net/acceptor\<close>) and takes a channel
  for each from a pool (\<^verbatim>\<open>net/tcp_channel_pool\<close>); a UDP worker has one channel and a pool of message headers
  (\<^verbatim>\<open>buffer/msghdr_pool\<close>). A channel (\<^verbatim>\<open>net/channel\<close>) has a receive buffer and a write buffer (\<^verbatim>\<open>buffer/buffer\<close>) and two
  coroutines (\<^verbatim>\<open>net/handler\<close>) that wait for completions through tokens (\<^verbatim>\<open>core/awaiter\<close>). The event loop completes the
  tokens of a batch and then calls the application. The logger (\<^verbatim>\<open>util/log\<close>) has double-buffered front ends, a lock-free
  queue (\<^verbatim>\<open>util/mpsc_queue\<close>) and a backend thread; time stamps come from a sequence-locked cache (\<^verbatim>\<open>util/timestamp\<close>).

  \<^bold>\<open>Conventions.\<close> \<^verbatim>\<open>int\<close> and \<^verbatim>\<open>unsigned\<close> are 32-bit words, \<^verbatim>\<open>uint64_t\<close> 64-bit words, with the wrap-around of the code; signed
  comparisons read them with \<open>sint\<close>. A class is a record and a member function a function on it that returns the new state. A
  failed assertion, a copy, a read of bytes or a store outside an allocation, a null pointer, an exception that leaves a thread,
  \<^verbatim>\<open>std::exit\<close> and a loop that does not end are \<^term>\<open>None\<close>; a read of one entry of a table whose index the invariants keep in
  range is \<open>xs ! i\<close>. Other exceptions are the left side of a sum (\<open>ring_error\<close>). A coroutine is cut at its
  suspension points into one function per stretch; resuming is a call of the next one. liburing, libnuma, the system calls and
  the contents of fresh memory are parameters (\<open>uring\<close>, \<open>topology\<close>, functions from calls to results, arguments); prepared
  requests and calls into the buffer ring are logged in the order they are made. Loops that may not end are partial functions;
  there is no fuel in the models, and where a theorem says that an operation returns, it says so as \<open>\<exists>\<close> of a result.

  \<^bold>\<open>Foundations.\<close> \<open>Prelude\<close>: machine types, byte arrays, words. \<open>Ring_Array\<close>: circular arrays with free-running counters and
  their abstraction to lists, for counters of any width. \<open>Pool_Interface\<close>: the contract of a free-list pool as the locale
  \<open>free_pool\<close>, interpreted by \<open>Buf_Pool\<close> and \<open>Msghdr_Pool\<close>.

  \<^bold>\<open>Sending.\<close>
  \<^item> \<open>Buf_Pool\<close> (\<^verbatim>\<open>BufPool\<close>): no block is handed out twice or lost. \<open>Block_Ownership\<close>: the blocks of a pool are partitioned among
    their holders, and no holder changes the bytes of another.
  \<^item> \<open>Write_Buf\<close>, \<open>Write_Prepend\<close> (\<^verbatim>\<open>WriteBufBase\<close>): append is all or nothing, with the exact condition for success; prepend,
    and the wrap-around in its size computation.
  \<^item> \<open>Write_Stream\<close>, \<open>Write_Stream_Spec\<close> (\<^verbatim>\<open>WriteBufStream\<close>): refinement of an abstract byte stream, and over whole executions the
    kernel reads the accepted bytes once and in order.
  \<^item> \<open>Msghdr_Pool\<close>, \<open>Write_Dgram\<close>, \<open>Udp_Channel\<close>, \<open>Udp_Send\<close> (\<^verbatim>\<open>MsghdrPool\<close>, \<^verbatim>\<open>WriteBufDgram\<close>, the sending half of \<^verbatim>\<open>UdpChannel\<close> and
    \<^verbatim>\<open>udp_write_loop\<close>): a submitted datagram reaches the kernel once, with its peer and its bytes, read through the
    pointers of the message header until the send completes; a refused one leaves no trace; what happens when the submission queue is full.

  \<^bold>\<open>Receiving.\<close>
  \<^item> \<open>Buf_Ring\<close>, \<open>Buf_Kernel\<close> (\<^verbatim>\<open>BufRing\<close>, and the kernel that fills published buffers), \<open>Read_Buf\<close>, \<open>Read_Stream\<close> (\<^verbatim>\<open>ReadBufBase\<close>,
    \<^verbatim>\<open>ReadBufStream\<close>): peek is exact while its counters have not wrapped, and empty when they have; consume gives back
    exactly the used-up buffers.
  \<^item> \<open>Read_Dgram\<close>, \<open>Udp_Receive\<close>, \<open>Udp_Receive_Spec\<close>, \<open>Udp_Message\<close> (\<^verbatim>\<open>ReadBufDgram\<close>, \<^verbatim>\<open>DgramMsg\<close>, the receiving half of \<^verbatim>\<open>UdpChannel\<close>
    and \<^verbatim>\<open>udp_read_loop\<close>): datagrams are delivered once, whole and in order, and their fields are those of the message.

  \<^bold>\<open>Workers.\<close>
  \<^item> \<open>Awaiter\<close> (\<^verbatim>\<open>Token\<close>, \<^verbatim>\<open>NotifyToken\<close>): no wake-up is lost. \<open>Coroutine\<close> (\<^verbatim>\<open>ChannelHandler\<close>, \<^verbatim>\<open>Acceptor\<close>, \<^verbatim>\<open>~Channel\<close>): owners
    of coroutine frames. \<open>Io_Ring\<close> (\<^verbatim>\<open>Sqe\<close>, \<^verbatim>\<open>Cqe\<close>, \<^verbatim>\<open>IoRing\<close>): every request and the error of every call. \<open>Io_Thread\<close>: the event loop.
  \<^item> \<open>Tcp_Channel\<close>, \<open>Tcp_Thread\<close> (\<^verbatim>\<open>TcpChannel\<close>, \<^verbatim>\<open>tcp_read_loop\<close>, \<^verbatim>\<open>tcp_write_loop\<close>, \<^verbatim>\<open>TcpChannelPool\<close>, \<^verbatim>\<open>accept_loop\<close>, \<^verbatim>\<open>TcpThread\<close>): the whole
    TCP worker. \<open>Tcp_Lifecycle\<close>: what accepting a connection and its end do to channel and pool, and channels released twice.
  \<^item> \<open>Tcp_Receive\<close>: one lemma per operation that it leaves the receive side alone, and the partition of the receive buffers
    between the kernel and the channels. \<open>Tcp_Application\<close>: runs of a worker, the contract of the callbacks as the locale
    \<open>tcp_application\<close>, and that every run keeps the partition. \<open>Echo_Server\<close>, \<open>Echo_Exact\<close> (\<^verbatim>\<open>benchmarks/echo_server.cpp\<close>): the
    locale is interpreted by the TCP echo server, whose callback is shown to echo the segments that were accepted.
  \<^item> \<open>Tcp_Leak\<close>: in every run in which no operation completes after its connection was closed, no channel returns to the pool; the
    contract of the callbacks is the locale \<open>pool_user\<close>, interpreted by the echo server. \<open>Tcp_Handover\<close>: how a closed channel that still
    has a receive or a write with the kernel returns to the pool, and unread data or the answer of one connection passes to
    the next, for any worker, data and reply. \<open>Tcp_Faults\<close>: a receive that cannot be armed again, and the stop path of a pinned
    worker.
  \<^item> \<open>Ip_Address\<close>, \<open>Socket\<close>, \<open>Server\<close>, \<open>Worker_Start\<close> (\<^verbatim>\<open>net/ip_address\<close>, \<^verbatim>\<open>net/socket\<close>, \<^verbatim>\<open>net/server\<close>, the constructors of the
    workers): printing and parsing are inverse; the system calls of a socket; the placement of threads on CPUs; a new worker
    satisfies the invariants the other theories start from.

  \<^bold>\<open>Logging.\<close> \<open>Mpsc_Queue\<close>: first-in first-out in every interleaving of the atomic operations. \<open>Timestamp\<close>: readers see whole time
  stamps while updates do not overlap, and torn ones when they do. \<open>Logger\<close>, \<open>Logger_Spec\<close>: texts of a thread reach the file in
  order without gap or overlap; when lines are dropped, cut or lost.

  \<^bold>\<open>Bounds.\<close> Buffer rings have at most \<open>2 ^ 15\<close> buffers, the limit of the kernel, and pools fewer than \<open>2 ^ 31\<close> bytes, the
  range of the \<^verbatim>\<open>int\<close> sizes the code computes with. The 64-bit counters of \<^verbatim>\<open>MPSCQueue\<close> are natural numbers, since they do not
  wrap in the life of a process; the sequence number of the time stamp cache likewise.

  \<^bold>\<open>Not modelled.\<close> Destructors that only free memory or close a ring, and \<^verbatim>\<open>NonCopyable\<close>, which acts at compile time. Weaker than
  sequentially consistent orderings of atomic operations: steps of threads interleave. The kernel, except for what it may
  do to buffers and completions in the run relations, and liburing, libnuma and the C library beyond their documented
  results. The creation of the log directory, the formatting of the date, and the joining of threads. The load generators, the
  command line and \<^verbatim>\<open>UdpEchoServer\<close> of \<^verbatim>\<open>benchmarks/\<close>, and the scripts, which exercise the library from outside. Of the
  headers, only declarations repeated from the source files, plain getters and forward declarations are left.
\<close>

end
